(* ===== verification/Prelude.thy ===== *)
theory Prelude
  imports Complex_Main "HOL-Library.Word" "HOL-Library.AList" "HOL-Library.Char_ord"
    "HOL-Library.List_Lexorder" "HOL-Library.Multiset" "HOL-Library.Sublist"
begin

section \<open>Shared vocabulary\<close>

text \<open>
  Type synonyms, the Rust standard-library pieces that several components use, and the
  generic lemmas on lists and maps they share.  A partial Rust operation (a slice, an index,
  an \<open>unwrap\<close>) returns an \<open>option\<close> here, and \<open>None\<close> is the panic.
\<close>

type_synonym u8 = "8 word"
type_synonym u32 = "32 word"

text \<open>\<open>u64\<close> and \<open>i64\<close> values are \<open>nat\<close> and \<open>int\<close> with their range written out.\<close>

abbreviation u64_max :: nat where "u64_max \<equiv> 2 ^ 64 - 1"
abbreviation i64_max :: int where "i64_max \<equiv> 2 ^ 63 - 1"
abbreviation i64_min :: int where "i64_min \<equiv> - (2 ^ 63)"

text \<open>
  Rules for arithmetic on finite binary64 values, the connections the examples start from, and the
  operations that cannot tell two states apart.
\<close>

named_theorems f64_simps
named_theorems example_defs
named_theorems oblivious_intros

subsection \<open>Running maxima\<close>

lemma fold_max_in: "fold max xs m \<in> insert m (set xs)" for m :: "'a::linorder"
  by (induction xs arbitrary: m) (auto, metis max_def)

lemma fold_max_le_iff: "fold max xs m \<le> b \<longleftrightarrow> m \<le> b \<and> (\<forall>x\<in>set xs. x \<le> b)" for m :: "'a::linorder"
  by (induction xs arbitrary: m) auto

lemma fold_max_ge: "x \<in> insert m (set xs) \<Longrightarrow> x \<le> fold max xs m" for m :: "'a::linorder"
  using fold_max_le_iff [of xs m "fold max xs m"] by auto

subsection \<open>Slices and index ranges\<close>

text \<open>Rust's \<open>&xs[a..b]\<close> panics unless \<open>a \<le> b \<le> xs.len()\<close>.\<close>

definition slice :: "'a list \<Rightarrow> nat \<Rightarrow> nat \<Rightarrow> 'a list option" where
  "slice xs a b = (if a \<le> b \<and> b \<le> length xs then Some (take (b - a) (drop a xs)) else None)"

lemma slice_nth: "a \<le> b \<Longrightarrow> b \<le> length xs \<Longrightarrow> slice xs a b = Some (map ((!) xs) [a..<b])"
  by (auto simp: slice_def intro!: nth_equalityI)

lemma upt_split: "a \<le> b \<Longrightarrow> b \<le> c \<Longrightarrow> [a..<c] = [a..<b] @ [b..<c]"
  using upt_add_eq_append [of a b "c - b"] by simp

lemma mset_filter_split: "mset (filter P xs @ filter (\<lambda>x. \<not> P x) xs) = mset xs"
  by (induction xs) auto

lemma filter_upt_all: "(\<And>i. a \<le> i \<Longrightarrow> i < b \<Longrightarrow> P i) \<Longrightarrow> filter P [a..<b] = [a..<b]"
  by (simp add: filter_id_conv)

lemma filter_upt_none: "(\<And>i. a \<le> i \<Longrightarrow> i < b \<Longrightarrow> \<not> P i) \<Longrightarrow> filter P [a..<b] = []"
  by (simp add: filter_empty_conv)

lemma distinct_remdups_adj_sorted: "sorted xs \<Longrightarrow> distinct (remdups_adj xs)" for xs :: "'a::linorder list"
proof (induction xs rule: remdups_adj.induct)
  case (3 x y xs)
  then show ?case by (cases "x = y") (auto simp: less_le)
qed simp_all

subsection \<open>Strings\<close>

text \<open>A Rust \<open>String\<close> is its sequence of bytes; ordering is lexicographic on bytes.\<close>

definition ascii_lower :: "char \<Rightarrow> char" where
  "ascii_lower c = (if CHR ''A'' \<le> c \<and> c \<le> CHR ''Z'' then char_of (of_char c + 32 :: nat) else c)"

definition to_ascii_lowercase :: "string \<Rightarrow> string" where
  "to_ascii_lowercase s = map ascii_lower s"

definition str_contains :: "string \<Rightarrow> string \<Rightarrow> bool" where
  "str_contains s pat \<longleftrightarrow> sublist pat s"

definition digit_val :: "char \<Rightarrow> nat option" where
  "digit_val c = (if CHR ''0'' \<le> c \<and> c \<le> CHR ''9'' then Some (of_char c - 48) else None)"

fun digits_val :: "string \<Rightarrow> nat \<Rightarrow> nat option" where
  "digits_val [] acc = Some acc"
| "digits_val (c # cs) acc =
     (case digit_val c of
        None \<Rightarrow> None
      | Some d \<Rightarrow> (let acc' = acc * 10 + d in if u64_max < acc' then None else digits_val cs acc'))"

text \<open>\<open>str::parse::<u64>\<close>: an optional plus sign, then at least one digit, \<open>Err\<close> on overflow.\<close>

definition parse_u64 :: "string \<Rightarrow> nat option" where
  "parse_u64 s =
     (let ds = (case s of [] \<Rightarrow> [] | c # cs \<Rightarrow> if c = CHR ''+'' then cs else s)
      in if ds = [] then None else digits_val ds 0)"

lemma digits_val_le: "acc \<le> u64_max \<Longrightarrow> digits_val cs acc = Some n \<Longrightarrow> n \<le> u64_max"
  by (induction cs arbitrary: acc) (auto simp: Let_def not_less split: option.splits if_splits)

lemma parse_u64_le: "parse_u64 s = Some n \<Longrightarrow> n \<le> u64_max"
  using digits_val_le [of 0 _ n] by (auto simp: parse_u64_def Let_def split: if_splits list.splits)

subsection \<open>Hash maps of vectors\<close>

text \<open>
  A \<open>HashMap\<close> the program iterates over is an association list with distinct keys; its order
  stands for the unspecified iteration order.  \<open>hm_push k v\<close> is \<open>entry(k).or_default().push(v)\<close>.
\<close>

definition hm_push :: "'k \<Rightarrow> 'v \<Rightarrow> ('k \<times> 'v list) list \<Rightarrow> ('k \<times> 'v list) list" where
  "hm_push k v m = AList.update k ((case map_of m k of None \<Rightarrow> [] | Some vs \<Rightarrow> vs) @ [v]) m"

definition group_by :: "('v \<Rightarrow> 'k) \<Rightarrow> 'v list \<Rightarrow> ('k \<times> 'v list) list" where
  "group_by key xs = fold (\<lambda>x. hm_push (key x) x) xs []"

lemma hm_push_lookup:
  "map_of (hm_push k v m) = (map_of m)(k \<mapsto> (case map_of m k of None \<Rightarrow> [] | Some vs \<Rightarrow> vs) @ [v])"
  by (simp add: hm_push_def update_conv')

lemma distinct_hm_push: "distinct (map fst m) \<Longrightarrow> distinct (map fst (hm_push k v m))"
  by (simp add: hm_push_def distinct_update)

lemma distinct_group_by: "distinct (map fst (group_by key xs))"
  by (induction xs rule: rev_induct) (simp_all add: group_by_def distinct_hm_push)

lemma group_by_lookup:
  "map_of (group_by key xs) k =
     (if k \<in> key ` set xs then Some (filter (\<lambda>x. key x = k) xs) else None)"
proof (induction xs rule: rev_induct)
  case (snoc x xs)
  have "filter (\<lambda>y. key y = key x) xs = []" if "key x \<notin> key ` set xs"
    using that by (auto simp: filter_empty_conv image_iff)
  with snoc show ?case
    by (auto simp: group_by_def hm_push_lookup split: if_splits)
qed (simp add: group_by_def)

lemma group_by_keys: "fst ` set (group_by key xs) = key ` set xs"
proof -
  have "fst ` set (group_by key xs) = dom (map_of (group_by key xs))" by (simp add: dom_map_of_conv_image_fst)
  also have "\<dots> = key ` set xs" by (auto simp: group_by_lookup split: if_splits)
  finally show ?thesis .
qed

end
