(* ===== verification/Contention.thy ===== *)
theory Contention
  imports Prelude
begin

section \<open>Conflict schedule of one block\<close>

text \<open>
  \<open>crates/contention/src/lib.rs\<close>: the account locks of a block's transactions, the per-account
  state the scheduler keeps, and \<open>build_schedule\<close>.  A step or a depth is a \<open>usize\<close>; it is a
  \<open>nat\<close> here because a step never exceeds the index of its transaction (\<open>step_le_index\<close>).
\<close>

record account_lock =
  account :: string
  is_writable :: bool

definition lock_write :: "string \<Rightarrow> account_lock" where
  "lock_write a = \<lparr>account = a, is_writable = True\<rparr>"

definition lock_read :: "string \<Rightarrow> account_lock" where
  "lock_read a = \<lparr>account = a, is_writable = False\<rparr>"

record tx_locks =
  tl_signature :: string
  tl_program_ids :: "string list"
  tl_locks :: "account_lock list"

record conflict_event =
  ce_account :: string
  ce_tx_signature :: string
  ce_program_ids :: "string list"
  ce_step :: nat
  ce_caused_by_write :: bool

record schedule_result =
  sr_steps :: "nat list"
  sr_depth :: nat
  sr_width_per_step :: "nat \<rightharpoonup> nat"
  sr_conflicts :: "conflict_event list"

record account_state =
  last_write_step :: "nat option"
  reader_steps_since_write :: "nat list"

definition account_state_default :: account_state where
  "account_state_default = \<lparr>last_write_step = None, reader_steps_since_write = []\<rparr>"

type_synonym account_map = "string \<rightharpoonup> account_state"

subsection \<open>The two passes over a transaction's locks\<close>

definition entry_or_default :: "account_map \<Rightarrow> string \<Rightarrow> account_map \<times> account_state" where
  "entry_or_default m a =
     (case m a of
        Some st \<Rightarrow> (m, st)
      | None \<Rightarrow> (m(a \<mapsto> account_state_default), account_state_default))"

definition max_with :: "nat \<Rightarrow> nat option \<Rightarrow> nat option" where
  "max_with r b = Some (case b of None \<Rightarrow> r | Some cur \<Rightarrow> max cur r)"

definition blocking_step :: "account_lock \<Rightarrow> account_state \<Rightarrow> nat option" where
  "blocking_step l st =
     (if is_writable l then fold max_with (reader_steps_since_write st) (last_write_step st)
      else last_write_step st)"

fun earliest_loop :: "account_lock list \<Rightarrow> account_map \<Rightarrow> nat \<Rightarrow> account_map \<times> nat" where
  "earliest_loop [] m e = (m, e)"
| "earliest_loop (l # ls) m e =
     (let (m', st) = entry_or_default m (account l)
      in earliest_loop ls m'
           (case blocking_step l st of None \<Rightarrow> e | Some b \<Rightarrow> max e (b + 1)))"

definition had_prior_activity :: "account_state \<Rightarrow> bool" where
  "had_prior_activity st \<longleftrightarrow>
     last_write_step st \<noteq> None \<or> reader_steps_since_write st \<noteq> []"

definition conflict_of :: "tx_locks \<Rightarrow> nat \<Rightarrow> account_lock \<Rightarrow> conflict_event" where
  "conflict_of t s l =
     \<lparr>ce_account = account l, ce_tx_signature = tl_signature t,
      ce_program_ids = tl_program_ids t, ce_step = s, ce_caused_by_write = True\<rparr>"

fun update_loop ::
  "tx_locks \<Rightarrow> nat \<Rightarrow> account_lock list \<Rightarrow> account_map \<Rightarrow> conflict_event list \<Rightarrow>
     (account_map \<times> conflict_event list) option" where
  "update_loop t s [] m cs = Some (m, cs)"
| "update_loop t s (l # ls) m cs =
     (case m (account l) of
        None \<Rightarrow> None
      | Some st \<Rightarrow>
          if is_writable l then
            update_loop t s ls
              (m(account l \<mapsto> st\<lparr>last_write_step := Some s, reader_steps_since_write := []\<rparr>))
              (if had_prior_activity st then cs @ [conflict_of t s l] else cs)
          else
            update_loop t s ls
              (m(account l \<mapsto>
                   st\<lparr>reader_steps_since_write := reader_steps_since_write st @ [s]\<rparr>))
              cs)"

record sched_state =
  ss_accounts :: account_map
  ss_steps :: "nat list"
  ss_conflicts :: "conflict_event list"

definition schedule_tx :: "tx_locks \<Rightarrow> sched_state \<Rightarrow> sched_state option" where
  "schedule_tx t st =
     (let (m, s) = earliest_loop (tl_locks t) (ss_accounts st) 0
      in case update_loop t s (tl_locks t) m (ss_conflicts st) of
           None \<Rightarrow> None
         | Some (m', cs) \<Rightarrow>
             Some \<lparr>ss_accounts = m', ss_steps = ss_steps st @ [s], ss_conflicts = cs\<rparr>)"

fun schedule_txs :: "tx_locks list \<Rightarrow> sched_state \<Rightarrow> sched_state option" where
  "schedule_txs [] st = Some st"
| "schedule_txs (t # ts) st =
     (case schedule_tx t st of None \<Rightarrow> None | Some st' \<Rightarrow> schedule_txs ts st')"

definition width_per_step :: "nat list \<Rightarrow> (nat \<rightharpoonup> nat)" where
  "width_per_step steps =
     fold (\<lambda>s w. w(s \<mapsto> (case w s of None \<Rightarrow> 0 | Some n \<Rightarrow> n) + 1)) steps Map.empty"

definition schedule_depth :: "nat list \<Rightarrow> nat" where
  "schedule_depth steps = (case steps of [] \<Rightarrow> 0 | s # ss \<Rightarrow> fold max ss s + 1)"

definition build_schedule :: "tx_locks list \<Rightarrow> schedule_result option" where
  "build_schedule txs =
     (case schedule_txs txs \<lparr>ss_accounts = Map.empty, ss_steps = [], ss_conflicts = []\<rparr> of
        None \<Rightarrow> None
      | Some st \<Rightarrow>
          Some \<lparr>sr_steps = ss_steps st, sr_depth = schedule_depth (ss_steps st),
                sr_width_per_step = width_per_step (ss_steps st),
                sr_conflicts = ss_conflicts st\<rparr>)"

subsection \<open>The conflict rule and the reference schedule\<close>

definition conflicts :: "tx_locks \<Rightarrow> tx_locks \<Rightarrow> bool" where
  "conflicts t u \<longleftrightarrow>
     list_ex (\<lambda>l. list_ex (\<lambda>k. account l = account k \<and> (is_writable l \<or> is_writable k))
       (tl_locks u)) (tl_locks t)"

definition spec_step :: "(tx_locks \<times> nat) list \<Rightarrow> tx_locks \<Rightarrow> nat" where
  "spec_step hist t = fold max (map (\<lambda>(u, s). if conflicts u t then s + 1 else 0) hist) 0"

fun spec_steps :: "(tx_locks \<times> nat) list \<Rightarrow> tx_locks list \<Rightarrow> nat list" where
  "spec_steps hist [] = []"
| "spec_steps hist (t # ts) =
     (let s = spec_step hist t in s # spec_steps (hist @ [(t, s)]) ts)"

text \<open>The events the scheduler should report: writable locks on an account an earlier one touched.\<close>

definition touched :: "(tx_locks \<times> nat) list \<Rightarrow> string \<Rightarrow> bool" where
  "touched hist a \<longleftrightarrow> list_ex (\<lambda>(u, _). list_ex (\<lambda>k. account k = a) (tl_locks u)) hist"

fun spec_conflicts :: "(tx_locks \<times> nat) list \<Rightarrow> tx_locks list \<Rightarrow> conflict_event list" where
  "spec_conflicts hist [] = []"
| "spec_conflicts hist (t # ts) =
     (let s = spec_step hist t
      in map (conflict_of t s)
           (filter (\<lambda>l. is_writable l \<and> touched hist (account l)) (tl_locks t)) @
         spec_conflicts (hist @ [(t, s)]) ts)"

subsection \<open>What the account map knows\<close>

text \<open>
  \<open>W\<close> and \<open>R\<close> are the steps at which an account has been written and read.  The last write
  bounds every write; a read is either still listed or bounded by the last write.
\<close>

fun acc_ok :: "account_state option \<Rightarrow> nat set \<Rightarrow> nat set \<Rightarrow> bool" where
  "acc_ok None W R = (W = {} \<and> R = {})"
| "acc_ok (Some st) W R =
     (set (reader_steps_since_write st) \<subseteq> R \<and>
      (case last_write_step st of
         None \<Rightarrow> W = {} \<and> R \<subseteq> set (reader_steps_since_write st)
       | Some b \<Rightarrow> b \<in> W \<and> (\<forall>s\<in>W. s \<le> b) \<and>
           (\<forall>s\<in>R. s \<in> set (reader_steps_since_write st) \<or> s \<le> b)))"

definition accs_ok :: "account_map \<Rightarrow> (string \<Rightarrow> nat set) \<Rightarrow> (string \<Rightarrow> nat set) \<Rightarrow> bool" where
  "accs_ok m W R \<longleftrightarrow> (\<forall>a. acc_ok (m a) (W a) (R a))"

lemma acc_ok_default [simp]: "acc_ok (Some account_state_default) {} {}"
  by (simp add: account_state_default_def)

lemma accs_okD: "accs_ok m W R \<Longrightarrow> acc_ok (m a) (W a) (R a)"
  by (simp add: accs_ok_def)

lemma fold_max_with_None: "fold max_with rs b = None \<longleftrightarrow> rs = [] \<and> b = None"
  by (induction rs arbitrary: b) (simp_all add: max_with_def)

lemma fold_max_with_Some:
  "fold max_with rs b = Some c \<Longrightarrow>
     (c \<in> set rs \<or> b = Some c) \<and> (\<forall>x\<in>set rs. x \<le> c) \<and> (\<forall>x. b = Some x \<longrightarrow> x \<le> c)"
proof (induction rs arbitrary: b)
  case (Cons r rs)
  from Cons.IH [of "max_with r b"] Cons.prems show ?case
    by (cases b) (auto simp: max_with_def max_def split: if_splits)
qed simp

text \<open>The steps that block a lock: the writes, and for a write lock the reads too.\<close>

definition blockers :: "account_lock \<Rightarrow> (string \<Rightarrow> nat set) \<Rightarrow> (string \<Rightarrow> nat set) \<Rightarrow> nat set" where
  "blockers l W R = W (account l) \<union> (if is_writable l then R (account l) else {})"

lemma blocking_step_None:
  assumes "acc_ok (Some st) (W (account l)) (R (account l))" and "blocking_step l st = None"
  shows "blockers l W R = {}"
  using assms by (auto simp: blocking_step_def blockers_def fold_max_with_None split: if_splits)

lemma blocking_step_Some:
  assumes ok: "acc_ok (Some st) (W (account l)) (R (account l))" and b: "blocking_step l st = Some b"
  shows "b \<in> blockers l W R" and "\<forall>s\<in>blockers l W R. s \<le> b"
proof -
  let ?rs = "set (reader_steps_since_write st)"
  have "b \<in> blockers l W R \<and> (\<forall>s\<in>blockers l W R. s \<le> b)"
  proof (cases "is_writable l")
    case True
    then have f: "fold max_with (reader_steps_since_write st) (last_write_step st) = Some b"
      using b by (simp add: blocking_step_def)
    from fold_max_with_Some [OF f] have i: "b \<in> ?rs \<or> last_write_step st = Some b"
      and r: "\<And>x. x \<in> ?rs \<Longrightarrow> x \<le> b" and w: "\<And>x. last_write_step st = Some x \<Longrightarrow> x \<le> b" by auto
    show ?thesis
    proof (cases "last_write_step st")
      case None
      then show ?thesis using ok i r True by (auto simp: blockers_def)
    next
      case (Some c)
      have "s \<le> b" if "s \<in> W (account l) \<union> R (account l)" for s
        using that ok Some r w [OF Some] le_trans [of s c b] by auto
      then show ?thesis using ok i Some True by (auto simp: blockers_def)
    qed
  next
    case False
    then show ?thesis using b ok by (auto simp: blocking_step_def blockers_def)
  qed
  then show "b \<in> blockers l W R" and "\<forall>s\<in>blockers l W R. s \<le> b" by auto
qed

lemma had_prior_iff:
  "acc_ok (Some st) W R \<Longrightarrow> had_prior_activity st \<longleftrightarrow> W \<union> R \<noteq> {}"
  by (cases "last_write_step st") (auto simp: had_prior_activity_def)

subsection \<open>The first pass\<close>

lemma entry_or_default_ok:
  assumes "accs_ok m W R" and "entry_or_default m a = (m', st)"
  shows "accs_ok m' W R" and "m' a = Some st" and "dom m' = insert a (dom m)"
proof -
  have "accs_ok m' W R \<and> m' a = Some st \<and> dom m' = insert a (dom m)"
  proof (cases "m a")
    case None
    then have "W a = {} \<and> R a = {}" using accs_okD [OF assms(1), of a] by simp
    then show ?thesis using assms None
      by (auto simp: entry_or_default_def accs_ok_def account_state_default_def)
  next
    case (Some s)
    then show ?thesis using assms by (auto simp: entry_or_default_def)
  qed
  then show "accs_ok m' W R" and "m' a = Some st" and "dom m' = insert a (dom m)" by auto
qed

lemma earliest_loop_spec:
  assumes "accs_ok m W R" and "earliest_loop ls m e = (m', e')"
  shows "accs_ok m' W R \<and> dom m' = account ` set ls \<union> dom m \<and> e \<le> e' \<and>
    (\<forall>l\<in>set ls. \<forall>s\<in>blockers l W R. s < e') \<and>
    (e' = e \<or> (\<exists>l\<in>set ls. \<exists>s\<in>blockers l W R. e' = Suc s))"
  using assms
proof (induction ls arbitrary: m e)
  case (Cons l ls)
  obtain m1 st where m1: "entry_or_default m (account l) = (m1, st)" by fastforce
  note ok1 = entry_or_default_ok [OF Cons.prems(1) m1]
  define e1 where "e1 = (case blocking_step l st of None \<Rightarrow> e | Some b \<Rightarrow> max e (b + 1))"
  have rec: "earliest_loop ls m1 e1 = (m', e')" using Cons.prems(2) m1 by (simp add: e1_def)
  note IH = Cons.IH [OF ok1(1) rec]
  have st: "acc_ok (Some st) (W (account l)) (R (account l))"
    using accs_okD [OF ok1(1), of "account l"] ok1(2) by simp
  have e1: "e \<le> e1 \<and> (\<forall>s\<in>blockers l W R. s < e1) \<and>
      (e1 = e \<or> (\<exists>s\<in>blockers l W R. e1 = Suc s))"
  proof (cases "blocking_step l st")
    case None
    then show ?thesis using blocking_step_None [of st W l R] st by (simp add: e1_def)
  next
    case (Some b)
    then show ?thesis using blocking_step_Some [of st W l R b] st Some
      by (auto simp: e1_def max_def)
  qed
  show ?case
  proof (intro conjI)
    show "accs_ok m' W R" and "dom m' = account ` set (l # ls) \<union> dom m" and "e \<le> e'"
      using IH ok1(3) e1 le_trans [of e e1 e'] by auto
    have "e1 \<le> e'" using IH by simp
    then show "\<forall>l\<in>set (l # ls). \<forall>s\<in>blockers l W R. s < e'"
      using IH e1 less_le_trans [of _ e1 e'] by auto
    show "e' = e \<or> (\<exists>l\<in>set (l # ls). \<exists>s\<in>blockers l W R. e' = Suc s)" using IH e1 by auto
  qed
qed auto

subsection \<open>The second pass\<close>

definition add_steps :: "bool \<Rightarrow> nat \<Rightarrow> account_lock list \<Rightarrow> (string \<Rightarrow> nat set) \<Rightarrow> string \<Rightarrow> nat set" where
  "add_steps w s ls F a = F a \<union> {x. x = s \<and> (\<exists>l\<in>set ls. account l = a \<and> is_writable l = w)}"

lemma add_steps_Nil [simp]: "add_steps w s [] F = F"
  by (auto simp: add_steps_def)

lemma add_steps_Cons:
  "add_steps w s (l # ls) F =
     add_steps w s ls (if is_writable l = w then F(account l := insert s (F (account l))) else F)"
  by (rule ext) (auto simp: add_steps_def)

lemma accs_ok_write:
  assumes "accs_ok m W R" and "m (account l) = Some st" and "is_writable l"
    and "\<forall>x\<in>blockers l W R. x \<le> s"
  shows "accs_ok (m(account l \<mapsto> st\<lparr>last_write_step := Some s, reader_steps_since_write := []\<rparr>))
           (W(account l := insert s (W (account l)))) R"
  using assms unfolding accs_ok_def by (auto simp: blockers_def)

lemma accs_ok_read:
  assumes "accs_ok m W R" and "m (account l) = Some st"
  shows "accs_ok (m(account l \<mapsto>
             st\<lparr>reader_steps_since_write := reader_steps_since_write st @ [s]\<rparr>))
           W (R(account l := insert s (R (account l))))"
  using accs_okD [OF assms(1), of "account l"] assms unfolding accs_ok_def
  by (auto split: option.splits)

lemma update_loop_spec:
  assumes "accs_ok m W R" and "account ` set ls \<subseteq> dom m"
    and "\<forall>l\<in>set ls. \<forall>x\<in>blockers l W R. x \<le> s"
  shows "\<exists>m' cs'. update_loop t s ls m cs = Some (m', cs @ cs') \<and>
      accs_ok m' (add_steps True s ls W) (add_steps False s ls R) \<and>
      (distinct (map account ls) \<longrightarrow>
        cs' = map (conflict_of t s)
          (filter (\<lambda>l. is_writable l \<and> W (account l) \<union> R (account l) \<noteq> {}) ls))"
  using assms
proof (induction ls arbitrary: m W R cs)
  case (Cons l ls)
  obtain st where st: "m (account l) = Some st" using Cons.prems(2) by auto
  have prior: "had_prior_activity st \<longleftrightarrow> W (account l) \<union> R (account l) \<noteq> {}"
    using accs_okD [OF Cons.prems(1), of "account l"] st by (simp only: had_prior_iff)
  show ?case
  proof (cases "is_writable l")
    case True
    let ?m = "m(account l \<mapsto> st\<lparr>last_write_step := Some s, reader_steps_since_write := []\<rparr>)"
    let ?W = "W(account l := insert s (W (account l)))"
    let ?ev = "if had_prior_activity st then [conflict_of t s l] else []"
    have ok: "accs_ok ?m ?W R" using Cons.prems st True by (intro accs_ok_write) auto
    have b: "\<forall>l'\<in>set ls. \<forall>x\<in>blockers l' ?W R. x \<le> s"
      using Cons.prems(3) by (auto simp: blockers_def split: if_splits)
    have dm: "account ` set ls \<subseteq> dom ?m" using Cons.prems(2) by auto
    obtain m' cs' where IH: "update_loop t s ls ?m (cs @ ?ev) = Some (m', (cs @ ?ev) @ cs')"
      "accs_ok m' (add_steps True s ls ?W) (add_steps False s ls R)"
      "distinct (map account ls) \<longrightarrow> cs' = map (conflict_of t s)
         (filter (\<lambda>l. is_writable l \<and> ?W (account l) \<union> R (account l) \<noteq> {}) ls)"
      using Cons.IH [OF ok dm b, of "cs @ ?ev"] by blast
    have flt: "filter (\<lambda>l. is_writable l \<and> ?W (account l) \<union> R (account l) \<noteq> {}) ls =
        filter (\<lambda>l. is_writable l \<and> W (account l) \<union> R (account l) \<noteq> {}) ls"
      if "distinct (map account (l # ls))" using that by (intro filter_cong) (auto simp: image_iff)
    have "update_loop t s (l # ls) m cs = Some (m', cs @ (?ev @ cs'))"
      using IH(1) st True by (cases "had_prior_activity st") simp_all
    moreover have "?ev @ cs' = map (conflict_of t s)
         (filter (\<lambda>l. is_writable l \<and> W (account l) \<union> R (account l) \<noteq> {}) (l # ls))"
      if "distinct (map account (l # ls))"
      using IH(3) flt [OF that] that True prior by simp
    ultimately show ?thesis using IH(2) True by (auto simp: add_steps_Cons)
  next
    case False
    let ?m = "m(account l \<mapsto> st\<lparr>reader_steps_since_write := reader_steps_since_write st @ [s]\<rparr>)"
    let ?R = "R(account l := insert s (R (account l)))"
    have ok: "accs_ok ?m W ?R" using Cons.prems(1) st by (rule accs_ok_read)
    have b: "\<forall>l'\<in>set ls. \<forall>x\<in>blockers l' W ?R. x \<le> s"
      using Cons.prems(3) by (auto simp: blockers_def split: if_splits)
    have dm: "account ` set ls \<subseteq> dom ?m" using Cons.prems(2) by auto
    obtain m' cs' where IH: "update_loop t s ls ?m cs = Some (m', cs @ cs')"
      "accs_ok m' (add_steps True s ls W) (add_steps False s ls ?R)"
      "distinct (map account ls) \<longrightarrow> cs' = map (conflict_of t s)
         (filter (\<lambda>l. is_writable l \<and> W (account l) \<union> ?R (account l) \<noteq> {}) ls)"
      using Cons.IH [OF ok dm b, of cs] by blast
    have flt: "filter (\<lambda>l. is_writable l \<and> W (account l) \<union> ?R (account l) \<noteq> {}) ls =
        filter (\<lambda>l. is_writable l \<and> W (account l) \<union> R (account l) \<noteq> {}) ls"
      if "distinct (map account (l # ls))" using that by (intro filter_cong) (auto simp: image_iff)
    show ?thesis using IH st False flt by (auto simp: add_steps_Cons)
  qed
qed simp

subsection \<open>The whole block\<close>

definition hist_steps :: "bool \<Rightarrow> (tx_locks \<times> nat) list \<Rightarrow> string \<Rightarrow> nat set" where
  "hist_steps w hist a =
     {s. \<exists>u. (u, s) \<in> set hist \<and> (\<exists>l\<in>set (tl_locks u). account l = a \<and> is_writable l = w)}"

lemma hist_steps_snoc:
  "hist_steps w (hist @ [(t, s)]) = add_steps w s (tl_locks t) (hist_steps w hist)"
  by (rule ext) (auto simp: hist_steps_def add_steps_def)

lemma blockers_hist:
  "(\<exists>l\<in>set (tl_locks t). s \<in> blockers l (hist_steps True hist) (hist_steps False hist)) \<longleftrightarrow>
     (\<exists>u. (u, s) \<in> set hist \<and> conflicts u t)"
  by (auto simp: blockers_def hist_steps_def conflicts_def list_ex_iff) metis+

lemma touched_hist:
  "touched hist a \<longleftrightarrow> hist_steps True hist a \<union> hist_steps False hist a \<noteq> {}"
  by (auto simp: touched_def hist_steps_def list_ex_iff) blast

lemma spec_step_eqI:
  assumes "\<forall>u s. (u, s) \<in> set hist \<longrightarrow> conflicts u t \<longrightarrow> s < e"
    and "e = 0 \<or> (\<exists>u s. (u, s) \<in> set hist \<and> conflicts u t \<and> e = Suc s)"
  shows "spec_step hist t = e"
proof (rule antisym)
  show "spec_step hist t \<le> e"
    using assms(1) unfolding spec_step_def fold_max_le_iff by (auto simp: Suc_le_eq)
  show "e \<le> spec_step hist t"
    using assms(2) unfolding spec_step_def by (force intro!: fold_max_ge)
qed

lemma schedule_tx_spec:
  assumes ok: "accs_ok (ss_accounts st) (hist_steps True hist) (hist_steps False hist)"
  shows "\<exists>st'. schedule_tx t st = Some st' \<and> ss_steps st' = ss_steps st @ [spec_step hist t] \<and>
     (let h' = hist @ [(t, spec_step hist t)]
      in accs_ok (ss_accounts st') (hist_steps True h') (hist_steps False h')) \<and>
     (distinct (map account (tl_locks t)) \<longrightarrow>
       ss_conflicts st' = ss_conflicts st @ map (conflict_of t (spec_step hist t))
         (filter (\<lambda>l. is_writable l \<and> touched hist (account l)) (tl_locks t)))"
proof -
  let ?W = "hist_steps True hist" and ?R = "hist_steps False hist"
  obtain m e where me: "earliest_loop (tl_locks t) (ss_accounts st) 0 = (m, e)" by fastforce
  note E = earliest_loop_spec [OF ok me]
  have e: "e = spec_step hist t"
    using E blockers_hist [of t _ hist] by (intro spec_step_eqI [symmetric]) metis+
  have dm: "account ` set (tl_locks t) \<subseteq> dom m" using E by auto
  have b: "\<forall>l\<in>set (tl_locks t). \<forall>x\<in>blockers l ?W ?R. x \<le> e" using E by (auto intro: less_imp_le)
  obtain m' cs' where U: "update_loop t e (tl_locks t) m (ss_conflicts st) = Some (m', ss_conflicts st @ cs')"
    "accs_ok m' (add_steps True e (tl_locks t) ?W) (add_steps False e (tl_locks t) ?R)"
    "distinct (map account (tl_locks t)) \<longrightarrow> cs' = map (conflict_of t e)
      (filter (\<lambda>l. is_writable l \<and> ?W (account l) \<union> ?R (account l) \<noteq> {}) (tl_locks t))"
    using update_loop_spec [OF _ dm b, of t "ss_conflicts st"] E by blast
  then show ?thesis
    unfolding schedule_tx_def me
    by (auto simp: e hist_steps_snoc touched_hist Let_def)
qed

lemma schedule_txs_spec:
  assumes "accs_ok (ss_accounts st) (hist_steps True hist) (hist_steps False hist)"
  shows "\<exists>st'. schedule_txs ts st = Some st' \<and> ss_steps st' = ss_steps st @ spec_steps hist ts \<and>
     ((\<forall>t\<in>set ts. distinct (map account (tl_locks t))) \<longrightarrow>
       ss_conflicts st' = ss_conflicts st @ spec_conflicts hist ts)"
  using assms
proof (induction ts arbitrary: st hist)
  case (Cons t ts)
  let ?h = "hist @ [(t, spec_step hist t)]"
  obtain st1 where S: "schedule_tx t st = Some st1" "ss_steps st1 = ss_steps st @ [spec_step hist t]"
    "accs_ok (ss_accounts st1) (hist_steps True ?h) (hist_steps False ?h)"
    "distinct (map account (tl_locks t)) \<longrightarrow>
       ss_conflicts st1 = ss_conflicts st @ map (conflict_of t (spec_step hist t))
         (filter (\<lambda>l. is_writable l \<and> touched hist (account l)) (tl_locks t))"
    using schedule_tx_spec [OF Cons.prems, of t] by (auto simp: Let_def)
  from Cons.IH [OF S(3)] show ?case using S by (auto simp: Let_def)
qed simp

lemma build_schedule_spec:
  "\<exists>r. build_schedule txs = Some r \<and> sr_steps r = spec_steps [] txs \<and>
     sr_depth r = schedule_depth (spec_steps [] txs) \<and>
     sr_width_per_step r = width_per_step (spec_steps [] txs) \<and>
     ((\<forall>t\<in>set txs. distinct (map account (tl_locks t))) \<longrightarrow>
       sr_conflicts r = spec_conflicts [] txs)"
proof -
  let ?st = "\<lparr>ss_accounts = Map.empty, ss_steps = [], ss_conflicts = []\<rparr>"
  have "accs_ok (ss_accounts ?st) (hist_steps True []) (hist_steps False [])"
    by (simp add: accs_ok_def hist_steps_def)
  from schedule_txs_spec [OF this, of txs] show ?thesis
    unfolding build_schedule_def by auto
qed

subsection \<open>Schedules that keep block order\<close>

text \<open>
  The contract of an order-preserving scheduler, over any conflict relation: a step exceeds the
  steps of all earlier conflicting transactions, and is zero or one more than one of them.
\<close>

fun conflict_chain :: "('t \<Rightarrow> 't \<Rightarrow> bool) \<Rightarrow> 't list \<Rightarrow> nat list \<Rightarrow> bool" where
  "conflict_chain conf ts [] = True"
| "conflict_chain conf ts [j] = (j < length ts)"
| "conflict_chain conf ts (i # j # p) =
     (i < j \<and> j < length ts \<and> conf (ts ! i) (ts ! j) \<and> conflict_chain conf ts (j # p))"

lemma conflict_chain_snoc:
  "conflict_chain conf ts (p @ [i]) \<Longrightarrow> i < j \<Longrightarrow> j < length ts \<Longrightarrow> conf (ts ! i) (ts ! j) \<Longrightarrow>
     conflict_chain conf ts (p @ [i, j])"
proof (induction p)
  case (Cons a p)
  then show ?case by (cases p) auto
qed simp

locale order_preserving =
  fixes conf :: "'t \<Rightarrow> 't \<Rightarrow> bool" and steps :: "'t list \<Rightarrow> nat list"
  assumes length_steps: "length (steps ts) = length ts"
    and step_above: "i < j \<Longrightarrow> j < length ts \<Longrightarrow> conf (ts ! i) (ts ! j) \<Longrightarrow> steps ts ! i < steps ts ! j"
    and step_tight: "j < length ts \<Longrightarrow> steps ts ! j \<noteq> 0 \<Longrightarrow>
      \<exists>i<j. conf (ts ! i) (ts ! j) \<and> steps ts ! j = Suc (steps ts ! i)"
begin

lemma step_le_index: "j < length ts \<Longrightarrow> steps ts ! j \<le> j"
proof (induction j rule: less_induct)
  case (less j)
  show ?case
  proof (cases "steps ts ! j = 0")
    case False
    then obtain i where "i < j" "steps ts ! j = Suc (steps ts ! i)" using step_tight less.prems by blast
    then show ?thesis using less.IH [of i] less.prems by simp
  qed simp
qed

lemma minimal:
  assumes \<sigma>: "\<And>i j. i < j \<Longrightarrow> j < length ts \<Longrightarrow> conf (ts ! i) (ts ! j) \<Longrightarrow> \<sigma> i < (\<sigma> j :: nat)"
  shows "j < length ts \<Longrightarrow> steps ts ! j \<le> \<sigma> j"
proof (induction j rule: less_induct)
  case (less j)
  show ?case
  proof (cases "steps ts ! j = 0")
    case False
    then obtain i where i: "i < j" "conf (ts ! i) (ts ! j)" "steps ts ! j = Suc (steps ts ! i)"
      using step_tight less.prems by blast
    then have "steps ts ! i \<le> \<sigma> i" "\<sigma> i < \<sigma> j" using less \<sigma> by auto
    then show ?thesis using i(3) by simp
  qed simp
qed

lemma chain_to:
  "j < length ts \<Longrightarrow> \<exists>p. conflict_chain conf ts (p @ [j]) \<and> length p = steps ts ! j"
proof (induction j rule: less_induct)
  case (less j)
  show ?case
  proof (cases "steps ts ! j = 0")
    case True
    then show ?thesis using less.prems by (intro exI [of _ "[]"]) simp
  next
    case False
    then obtain i where i: "i < j" "conf (ts ! i) (ts ! j)" "steps ts ! j = Suc (steps ts ! i)"
      using step_tight less.prems by blast
    then obtain p where "conflict_chain conf ts (p @ [i])" "length p = steps ts ! i"
      using less.IH [of i] less.prems by auto
    then show ?thesis using i less.prems conflict_chain_snoc [of conf ts p i j]
      by (intro exI [of _ "p @ [i]"]) simp
  qed
qed

lemma chain_steps: "conflict_chain conf ts (i # p) \<Longrightarrow>
    i < length ts \<and> (\<exists>j<length ts. steps ts ! i + length p \<le> steps ts ! j)"
proof (induction p arbitrary: i)
  case (Cons k p)
  then have k: "i < k" "k < length ts" "conf (ts ! i) (ts ! k)" by simp_all
  then have "steps ts ! i < steps ts ! k" by (rule step_above)
  moreover obtain j where "j < length ts" "steps ts ! k + length p \<le> steps ts ! j"
    using Cons.IH [of k] Cons.prems by auto
  ultimately show ?case using k by (intro conjI exI [of _ j]) auto
qed auto

lemma no_gaps: "j < length ts \<Longrightarrow> s \<le> steps ts ! j \<Longrightarrow> s \<in> set (steps ts)"
proof (induction j rule: less_induct)
  case (less j)
  show ?case
  proof (cases "s = steps ts ! j")
    case True
    then show ?thesis using less.prems by (simp add: length_steps)
  next
    case False
    then obtain i where "i < j" "steps ts ! j = Suc (steps ts ! i)"
      using step_tight [OF less.prems(1)] less.prems(2) by auto
    then show ?thesis using less False by auto
  qed
qed

end

lemma length_spec_steps: "length (spec_steps hist ts) = length ts"
  by (induction ts arbitrary: hist) (simp_all add: Let_def)

lemma nth_spec_steps:
  "j < length ts \<Longrightarrow> spec_steps hist ts ! j =
     spec_step (hist @ zip (take j ts) (take j (spec_steps hist ts))) (ts ! j)"
proof (induction ts arbitrary: hist j)
  case (Cons t ts)
  then show ?case by (cases j) (simp_all add: Let_def)
qed simp

lemma spec_step_above: "(u, s) \<in> set hist \<Longrightarrow> conflicts u t \<Longrightarrow> s < spec_step hist t"
  unfolding spec_step_def less_eq_Suc_le by (rule fold_max_ge) force

lemma spec_step_tight:
  "spec_step hist t \<noteq> 0 \<Longrightarrow> \<exists>u s. (u, s) \<in> set hist \<and> conflicts u t \<and> spec_step hist t = Suc s"
  using fold_max_in [of "map (\<lambda>(u, s). if conflicts u t then s + 1 else 0) hist" 0]
  unfolding spec_step_def by (auto split: if_splits)

interpretation sched: order_preserving conflicts "spec_steps []"
proof
  fix ts :: "tx_locks list" and i j
  let ?h = "\<lambda>j. zip (take j ts) (take j (spec_steps [] ts))"
  have h: "(ts ! i, spec_steps [] ts ! i) \<in> set (?h j)" if "i < j" "j < length ts" for i j
    using that by (auto simp: in_set_zip length_spec_steps intro!: exI [of _ i])
  show "length (spec_steps [] ts) = length ts" by (rule length_spec_steps)
  show "spec_steps [] ts ! i < spec_steps [] ts ! j"
    if "i < j" "j < length ts" "conflicts (ts ! i) (ts ! j)"
    using spec_step_above [OF h that(3)] that nth_spec_steps [of j ts "[]"] by simp
  assume j: "j < length ts" "spec_steps [] ts ! j \<noteq> 0"
  then obtain u s where "(u, s) \<in> set (?h j)" "conflicts u (ts ! j)" "spec_steps [] ts ! j = Suc s"
    using spec_step_tight [of "?h j" "ts ! j"] nth_spec_steps [of j ts "[]"] by auto
  then show "\<exists>i<j. conflicts (ts ! i) (ts ! j) \<and> spec_steps [] ts ! j = Suc (spec_steps [] ts ! i)"
    by (auto simp: in_set_zip length_spec_steps)
qed

subsection \<open>Depth and widths\<close>

lemma schedule_depth_le_iff: "schedule_depth ss \<le> d \<longleftrightarrow> (\<forall>s\<in>set ss. s < d)"
  by (cases ss; cases d) (auto simp: schedule_depth_def fold_max_le_iff less_Suc_eq_le)

lemma schedule_depth_in: "ss \<noteq> [] \<Longrightarrow> \<exists>s\<in>set ss. schedule_depth ss = Suc s"
  using fold_max_in [of "tl ss" "hd ss"] by (cases ss) (auto simp: schedule_depth_def)

lemma width_fold:
  "fold (\<lambda>s w. w(s \<mapsto> (case w s of None \<Rightarrow> 0 | Some n \<Rightarrow> n) + 1)) ss w x =
     (if x \<in> set ss then Some ((case w x of None \<Rightarrow> 0 | Some n \<Rightarrow> n) + count_list ss x) else w x)"
  for w :: "nat \<rightharpoonup> nat"
  by (induction ss arbitrary: w) (auto simp: count_list_0_iff)

lemma width_per_step_eq:
  "width_per_step ss x = (if x \<in> set ss then Some (count_list ss x) else None)"
  unfolding width_per_step_def width_fold by simp

lemma build_scheduleD:
  assumes "build_schedule txs = Some r"
  shows "sr_steps r = spec_steps [] txs" and "sr_depth r = schedule_depth (sr_steps r)"
    and "sr_width_per_step r = width_per_step (sr_steps r)"
  using build_schedule_spec [of txs] assms by auto

subsection \<open>Properties\<close>

text \<open>
  The block of the unit test \<open>multiple_readers_share_a_step_writer_waits_for_all\<close>, on which the
  witnesses below apply the properties.
\<close>

definition sample_block :: "tx_locks list" where
  "sample_block = map (\<lambda>(sig, l). \<lparr>tl_signature = sig, tl_program_ids = [''P''], tl_locks = [l]\<rparr>)
     [(''tx1'', lock_write ''A''), (''tx2'', lock_read ''A''), (''tx3'', lock_read ''A''),
      (''tx4'', lock_read ''A''), (''tx5'', lock_write ''A'')]"

lemmas sample_simps = sample_block_def lock_write_def lock_read_def conflicts_def

lemma sample_block_schedule: "\<exists>r. build_schedule sample_block = Some r \<and> sr_steps r = [0, 1, 1, 1, 2]"
  using build_schedule_spec [of sample_block]
  by (auto simp: sample_simps spec_step_def Let_def)

text \<open>
  C1. \<open>build_schedule\<close> never reaches the panic of its \<open>get_mut(..).unwrap()\<close>, and the steps it
  computes from the per-account state are those of the rule the documentation gives: zero, or
  one more than the highest step among the earlier transactions that conflict.
\<close>

theorem build_schedule_refines_rule:
  "map_option sr_steps (build_schedule txs) = Some (spec_steps [] txs)"
  using build_schedule_spec [of txs] by auto

text \<open>
  C9. The schedule is honest: of two transactions that touch the same account, at least one of
  them writing, the later one in the block gets a strictly later step.
\<close>

theorem build_schedule_respects_conflicts:
  assumes "build_schedule txs = Some r" and "i < j" and "j < length txs"
    and "conflicts (txs ! i) (txs ! j)"
  shows "sr_steps r ! i < sr_steps r ! j"
  using sched.step_above [OF assms(2-4)] build_scheduleD(1) [OF assms(1)] by simp

theorem build_schedule_respects_conflicts_witness:
  "\<exists>r. build_schedule sample_block = Some r \<and> sr_steps r ! 3 < sr_steps r ! 4"
proof -
  obtain r where r: "build_schedule sample_block = Some r" using sample_block_schedule by blast
  have "conflicts (sample_block ! 3) (sample_block ! 4)" by (simp add: sample_simps)
  then show ?thesis using build_schedule_respects_conflicts [OF r, of 3 4] r
    by (simp add: sample_block_def)
qed

text \<open>
  C15. The schedule is the tightest one that keeps block order: any assignment of steps in which
  every transaction comes after the earlier ones it conflicts with is pointwise no earlier.
\<close>

theorem build_schedule_minimal:
  assumes "build_schedule txs = Some r" and "j < length txs"
    and "\<And>i k. i < k \<Longrightarrow> k < length txs \<Longrightarrow> conflicts (txs ! i) (txs ! k) \<Longrightarrow> \<sigma> i < \<sigma> k"
  shows "sr_steps r ! j \<le> \<sigma> j"
  using sched.minimal [OF assms(3,2)] build_scheduleD(1) [OF assms(1)] by simp

theorem build_schedule_minimal_witness:
  "\<exists>r. build_schedule sample_block = Some r \<and> sr_steps r ! 4 \<le> 4"
proof -
  obtain r where r: "build_schedule sample_block = Some r" using sample_block_schedule by blast
  show ?thesis using build_schedule_minimal [OF r, of 4 "\<lambda>i. i"] r
    by (simp add: sample_block_def)
qed

text \<open>
  C16. The reported depth is the length of the block's critical path: some chain of transactions,
  each conflicting with the next, has that length, and no chain is longer.
\<close>

theorem build_schedule_depth_critical_path:
  assumes "build_schedule txs = Some r"
  shows "(\<exists>p. conflict_chain conflicts txs p \<and> length p = sr_depth r) \<and>
    (\<forall>p. conflict_chain conflicts txs p \<longrightarrow> length p \<le> sr_depth r)"
proof (intro conjI allI impI)
  let ?s = "spec_steps [] txs"
  have d: "sr_depth r = schedule_depth ?s" using build_scheduleD [OF assms] by simp
  show "\<exists>p. conflict_chain conflicts txs p \<and> length p = sr_depth r"
  proof (cases "txs = []")
    case True
    then show ?thesis by (intro exI [of _ "[]"]) (simp add: d schedule_depth_def)
  next
    case False
    then have "?s \<noteq> []" using sched.length_steps [of txs] by (metis length_0_conv)
    then obtain j where j: "j < length txs" "schedule_depth ?s = Suc (?s ! j)"
      using schedule_depth_in [of ?s] by (auto simp: in_set_conv_nth sched.length_steps)
    then obtain p where "conflict_chain conflicts txs (p @ [j])" "length p = ?s ! j"
      using sched.chain_to by blast
    then show ?thesis using j by (intro exI [of _ "p @ [j]"]) (simp add: d)
  qed
  fix p assume p: "conflict_chain conflicts txs p"
  show "length p \<le> sr_depth r"
  proof (cases p)
    case (Cons i q)
    then obtain j where "j < length txs" "?s ! i + length q \<le> ?s ! j"
      using sched.chain_steps [of txs i q] p by auto
    moreover from this have "?s ! j < schedule_depth ?s"
      using schedule_depth_le_iff [of ?s "schedule_depth ?s"] by (simp add: sched.length_steps)
    ultimately show ?thesis by (simp add: Cons d)
  qed simp
qed

theorem build_schedule_depth_critical_path_witness:
  "\<exists>r. build_schedule sample_block = Some r \<and> length [0::nat, 1, 4] \<le> sr_depth r"
proof -
  obtain r where r: "build_schedule sample_block = Some r" using sample_block_schedule by blast
  have "conflict_chain conflicts sample_block [0, 1, 4]" by (simp add: sample_simps)
  then show ?thesis using build_schedule_depth_critical_path [OF r] r by blast
qed

text \<open>
  The per-step widths partition the block: every step below the depth runs at least one
  transaction, no other step has an entry, and the widths add up to the number of transactions.
\<close>

lemma build_schedule_widths:
  assumes "build_schedule txs = Some r"
  shows "dom (sr_width_per_step r) = {..<sr_depth r} \<and>
    (\<forall>s < sr_depth r. \<exists>w>0. sr_width_per_step r s = Some w) \<and>
    (\<Sum>s < sr_depth r. the (sr_width_per_step r s)) = length txs"
proof -
  let ?s = "spec_steps [] txs"
  note D = build_scheduleD [OF assms]
  have w: "sr_width_per_step r = width_per_step ?s" and d: "sr_depth r = schedule_depth ?s"
    using D by simp_all
  have set: "set ?s = {..<schedule_depth ?s}"
  proof (intro equalityI subsetI)
    fix x assume "x \<in> set ?s"
    then show "x \<in> {..<schedule_depth ?s}" using schedule_depth_le_iff [of ?s "schedule_depth ?s"] by simp
  next
    fix x assume x: "x \<in> {..<schedule_depth ?s}"
    then have "?s \<noteq> []" by (auto simp: schedule_depth_def)
    then obtain j where "j < length txs" "schedule_depth ?s = Suc (?s ! j)"
      using schedule_depth_in [of ?s] by (auto simp: in_set_conv_nth sched.length_steps)
    then show "x \<in> set ?s" using sched.no_gaps [of j txs x] x by simp
  qed
  have "(\<Sum>s < schedule_depth ?s. the (width_per_step ?s s)) = (\<Sum>s < schedule_depth ?s. count_list ?s s)"
    by (intro sum.cong) (auto simp: width_per_step_eq set)
  also have "\<dots> = length txs"
    using sum_count_set [of ?s "{..<schedule_depth ?s}"] by (simp add: set sched.length_steps)
  finally show ?thesis unfolding w d
    by (auto simp: width_per_step_eq set dom_def count_list_0_iff intro!: gr0I)
qed

lemma build_schedule_widths_example:
  "\<exists>r. build_schedule sample_block = Some r \<and> dom (sr_width_per_step r) = {..<sr_depth r}"
proof -
  obtain r where r: "build_schedule sample_block = Some r" using sample_block_schedule by blast
  show ?thesis using build_schedule_widths [OF r] r by blast
qed

text \<open>
  C17. In a block whose transactions list each account once, the conflict report is exact: one
  event per writable lock on an account that an earlier transaction touched, in block order and
  with the transaction's own step.
\<close>

theorem build_schedule_conflict_report:
  assumes "build_schedule txs = Some r"
    and "\<forall>t\<in>set txs. distinct (map account (tl_locks t))"
  shows "sr_conflicts r = spec_conflicts [] txs"
  using build_schedule_spec [of txs] assms by auto

theorem build_schedule_conflict_report_witness:
  "\<exists>r. build_schedule sample_block = Some r \<and> map ce_tx_signature (sr_conflicts r) = [''tx5'']"
proof -
  obtain r where r: "build_schedule sample_block = Some r" using sample_block_schedule by blast
  have "map ce_tx_signature (spec_conflicts [] sample_block) = [''tx5'']"
    by (simp add: sample_simps spec_step_def touched_def conflict_of_def Let_def)
  then show ?thesis using build_schedule_conflict_report [OF r] r
    by (simp add: sample_simps)
qed

text \<open>
  The field is documented as every account-lock conflict observed, but a read that a write
  blocks leaves no event: the second transaction waits one step and nothing is reported.
\<close>

lemma read_after_write_not_reported:
  "\<exists>r. build_schedule
     [\<lparr>tl_signature = ''tx1'', tl_program_ids = [], tl_locks = [lock_write ''A'']\<rparr>,
      \<lparr>tl_signature = ''tx2'', tl_program_ids = [], tl_locks = [lock_read ''A'']\<rparr>] = Some r \<and>
     sr_steps r = [0, 1] \<and> sr_conflicts r = []"
  by (simp add: build_schedule_def schedule_tx_def entry_or_default_def account_state_default_def
      blocking_step_def had_prior_activity_def sample_simps Let_def)

text \<open>A transaction that lists one account twice as writable is reported as conflicting with itself.\<close>

lemma duplicate_lock_reported:
  "\<exists>r. build_schedule
     [\<lparr>tl_signature = ''tx1'', tl_program_ids = [],
       tl_locks = [lock_write ''A'', lock_write ''A'']\<rparr>] = Some r \<and>
     sr_steps r = [0] \<and> map ce_tx_signature (sr_conflicts r) = [''tx1'']"
  by (simp add: build_schedule_def schedule_tx_def entry_or_default_def account_state_default_def
      blocking_step_def sample_simps had_prior_activity_def conflict_of_def Let_def)

end
