(* ===== verification/Account_Resolution.thy ===== *)
theory Account_Resolution
  imports Prelude
begin

section \<open>Account locks of a transaction\<close>

text \<open>
  \<open>crates/ingest-core/src/account_resolution.rs\<close> and the \<open>AccountLock\<close> of \<open>types.rs\<close>: the
  static account keys of a message are split by its header into writable and read-only ones,
  and the addresses loaded from lookup tables are appended to each group.  The header fields
  are \<open>u8\<close>; \<open>saturating_sub\<close> on \<open>usize\<close> is subtraction on \<open>nat\<close>.
\<close>

record core_lock =
  cl_account :: string
  cl_is_writable :: bool

record message_header =
  num_required_signatures :: u8
  num_readonly_signed_accounts :: u8
  num_readonly_unsigned_accounts :: u8

definition split_static_keys ::
  "string list \<Rightarrow> message_header \<Rightarrow> (string list \<times> string list) option" where
  "split_static_keys static_keys header =
     (let n = length static_keys;
          num_sig = unat (num_required_signatures header);
          num_readonly_signed = unat (num_readonly_signed_accounts header);
          num_readonly_unsigned = unat (num_readonly_unsigned_accounts header);
          signed_writable_count = num_sig - num_readonly_signed;
          non_signer_count = n - num_sig;
          unsigned_writable_count = non_signer_count - num_readonly_unsigned;
          unsigned_writable_start = min num_sig n;
          unsigned_writable_end = min (num_sig + unsigned_writable_count) n
      in case slice static_keys 0 (min signed_writable_count n) of None \<Rightarrow> None
       | Some signed_writable \<Rightarrow>
        (case slice static_keys (min signed_writable_count n) (min num_sig n) of None \<Rightarrow> None
         | Some signed_readonly \<Rightarrow>
          (case slice static_keys unsigned_writable_start unsigned_writable_end of None \<Rightarrow> None
           | Some unsigned_writable \<Rightarrow>
            (case slice static_keys unsigned_writable_end n of None \<Rightarrow> None
             | Some unsigned_readonly \<Rightarrow>
                Some (signed_writable @ unsigned_writable, signed_readonly @ unsigned_readonly)))))"

definition resolve_account_locks ::
  "string list \<Rightarrow> message_header \<Rightarrow> string list \<Rightarrow> string list \<Rightarrow> core_lock list option" where
  "resolve_account_locks static_keys header loaded_writable loaded_readonly =
     (case split_static_keys static_keys header of None \<Rightarrow> None
      | Some (static_writable, static_readonly) \<Rightarrow>
          Some (map (\<lambda>a. \<lparr>cl_account = a, cl_is_writable = True\<rparr>) (static_writable @ loaded_writable) @
                map (\<lambda>a. \<lparr>cl_account = a, cl_is_writable = False\<rparr>) (static_readonly @ loaded_readonly)))"

subsection \<open>The message layout\<close>

text \<open>
  Which of \<open>n\<close> static keys the layout
  [signed writable][signed read-only][unsigned writable][unsigned read-only] makes writable.
\<close>

definition writable_index :: "message_header \<Rightarrow> nat \<Rightarrow> nat \<Rightarrow> bool" where
  "writable_index h n i \<longleftrightarrow>
     i < unat (num_required_signatures h) - unat (num_readonly_signed_accounts h) \<or>
     unat (num_required_signatures h) \<le> i \<and> i + unat (num_readonly_unsigned_accounts h) < n"

lemma split_static_keys_layout:
  "split_static_keys keys h =
     Some (map ((!) keys) (filter (writable_index h (length keys)) [0..<length keys]),
           map ((!) keys) (filter (\<lambda>i. \<not> writable_index h (length keys) i) [0..<length keys]))"
proof -
  let ?n = "length keys" and ?s = "unat (num_required_signatures h)"
  let ?rs = "unat (num_readonly_signed_accounts h)" and ?ru = "unat (num_readonly_unsigned_accounts h)"
  let ?p = "min (?s - ?rs) ?n" and ?q = "min ?s ?n" and ?e = "min (?s + (?n - ?s - ?ru)) ?n"
  have o: "?p \<le> ?q" "?q \<le> ?e" "?e \<le> ?n" by auto
  have parts: "[0..<?n] = [0..<?p] @ [?p..<?q] @ [?q..<?e] @ [?e..<?n]"
    using o upt_split [of 0 ?p ?n] upt_split [of ?p ?q ?n] upt_split [of ?q ?e ?n] by simp
  let ?P = "writable_index h ?n"
  have in1: "?P i" if "i < ?p" for i using that by (simp add: writable_index_def)
  have in2: "\<not> ?P i" if "?p \<le> i" "i < ?q" for i using that by (auto simp: writable_index_def)
  have in3: "?P i" if "?q \<le> i" "i < ?e" for i using that by (auto simp: writable_index_def)
  have in4: "\<not> ?P i" if "?e \<le> i" "i < ?n" for i using that by (auto simp: writable_index_def)
  have W: "filter ?P [0..<?n] = [0..<?p] @ [?q..<?e]"
    unfolding parts filter_append
    using filter_upt_all [of 0 ?p ?P] filter_upt_none [of ?p ?q ?P]
      filter_upt_all [of ?q ?e ?P] filter_upt_none [of ?e ?n ?P] in1 in2 in3 in4 by simp
  have R: "filter (\<lambda>i. \<not> ?P i) [0..<?n] = [?p..<?q] @ [?e..<?n]"
    unfolding parts filter_append
    using filter_upt_none [of 0 ?p "\<lambda>i. \<not> ?P i"] filter_upt_all [of ?p ?q "\<lambda>i. \<not> ?P i"]
      filter_upt_none [of ?q ?e "\<lambda>i. \<not> ?P i"] filter_upt_all [of ?e ?n "\<lambda>i. \<not> ?P i"]
      in1 in2 in3 in4 by simp
  show ?thesis unfolding W R split_static_keys_def Let_def
    using o by (simp add: slice_nth)
qed

lemma resolve_account_locks_eq:
  "resolve_account_locks keys h lw lr =
     Some (map (\<lambda>a. \<lparr>cl_account = a, cl_is_writable = True\<rparr>)
             ([keys ! i. i \<leftarrow> [0..<length keys], writable_index h (length keys) i] @ lw) @
           map (\<lambda>a. \<lparr>cl_account = a, cl_is_writable = False\<rparr>)
             ([keys ! i. i \<leftarrow> [0..<length keys], \<not> writable_index h (length keys) i] @ lr))"
proof -
  have "[keys ! i. i \<leftarrow> xs, P i] = map ((!) keys) (filter P xs)" for P xs
    by (induction xs) auto
  then show ?thesis by (simp add: resolve_account_locks_def split_static_keys_layout)
qed

subsection \<open>Properties\<close>

text \<open>
  C35. For every header, well-formed or not, no slice of \<open>split_static_keys\<close> is out of bounds, and
  the locks come in the order of the code: the static keys that the message layout makes writable, the loaded writable addresses, then
  the remaining static keys and the loaded read-only addresses, each group in message order.  The
  two groups of loaded addresses are thus apart, and not at the end together as the comments have it.
\<close>

theorem resolve_account_locks_layout:
  "resolve_account_locks keys h lw lr =
     Some (map (\<lambda>a. \<lparr>cl_account = a, cl_is_writable = True\<rparr>)
             ([keys ! i. i \<leftarrow> [0..<length keys], writable_index h (length keys) i] @ lw) @
           map (\<lambda>a. \<lparr>cl_account = a, cl_is_writable = False\<rparr>)
             ([keys ! i. i \<leftarrow> [0..<length keys], \<not> writable_index h (length keys) i] @ lr))"
  by (rule resolve_account_locks_eq)

text \<open>
  No account is lost or invented: the locks carry exactly the static keys and the loaded
  addresses, each as often as it was listed.
\<close>

lemma resolve_account_locks_accounts:
  "map_option (\<lambda>ls. mset (map cl_account ls)) (resolve_account_locks keys h lw lr) =
     Some (mset keys + mset lw + mset lr)"
proof -
  let ?P = "writable_index h (length keys)"
  have "mset (map ((!) keys) (filter ?P [0..<length keys])) +
      mset (map ((!) keys) (filter (\<lambda>i. \<not> ?P i) [0..<length keys])) =
      mset (map ((!) keys) (filter ?P [0..<length keys] @ filter (\<lambda>i. \<not> ?P i) [0..<length keys]))"
    by simp
  also have "\<dots> = image_mset ((!) keys) (mset [0..<length keys])"
    by (simp only: mset_map mset_filter_split)
  also have "\<dots> = mset keys" by (simp only: mset_map [symmetric] map_nth)
  finally have keys: "mset (map ((!) keys) (filter ?P [0..<length keys])) +
      mset (map ((!) keys) (filter (\<lambda>i. \<not> ?P i) [0..<length keys])) = mset keys" .
  have acc: "map cl_account (map (\<lambda>a. \<lparr>cl_account = a, cl_is_writable = w\<rparr>) xs) = xs" for w xs
    by (simp add: comp_def)
  show ?thesis unfolding keys [symmetric]
    by (simp only: resolve_account_locks_def split_static_keys_layout option.case prod.case
        option.map map_append acc mset_append ac_simps)
qed

text \<open>
  The fee payer is locked for writing: if the header leaves at least one signer writable and
  the message has a key, the first lock is a write lock on the first static key.
\<close>

lemma fee_payer_is_write_locked:
  assumes "resolve_account_locks (k # ks) h lw lr = Some ls"
    and "num_readonly_signed_accounts h < num_required_signatures h"
  shows "ls \<noteq> [] \<and> hd ls = \<lparr>cl_account = k, cl_is_writable = True\<rparr>"
proof -
  have "writable_index h (Suc (length ks)) 0"
    using assms(2) by (simp add: writable_index_def word_less_nat_alt)
  moreover have "[0..<length (k # ks)] = 0 # [1..<length (k # ks)]" by (simp add: upt_conv_Cons del: upt_Suc)
  ultimately show ?thesis
    using assms(1) by (auto simp: resolve_account_locks_def split_static_keys_layout)
qed

text \<open>
  The comment of \<open>resolve_account_locks\<close> puts the static accounts before the loaded ones, and a comment of \<open>rpc_client.rs\<close> relies on
  that order; the code puts the loaded writable addresses before the read-only static keys.
\<close>

lemma loaded_before_static:
  "map_option (map cl_account) (resolve_account_locks [''Payer'', ''ProgramA'']
     \<lparr>num_required_signatures = 1, num_readonly_signed_accounts = 0,
      num_readonly_unsigned_accounts = 1\<rparr> [''ALT_W1''] [''ALT_R1'']) =
   Some [''Payer'', ''ALT_W1'', ''ProgramA'', ''ALT_R1'']"
  by (simp add: resolve_account_locks_eq writable_index_def upt_rec)

lemma fee_payer_is_write_locked_example:
  "\<exists>ls. resolve_account_locks [''Payer'', ''ProgramA'']
       \<lparr>num_required_signatures = 1, num_readonly_signed_accounts = 0,
        num_readonly_unsigned_accounts = 1\<rparr> [''ALT_W1'', ''ALT_W2''] [''ALT_R1''] = Some ls \<and>
     hd ls = \<lparr>cl_account = ''Payer'', cl_is_writable = True\<rparr>"
proof -
  let ?h = "\<lparr>num_required_signatures = 1, num_readonly_signed_accounts = 0,
    num_readonly_unsigned_accounts = 1\<rparr> :: message_header"
  obtain ls where ls:
    "resolve_account_locks [''Payer'', ''ProgramA''] ?h [''ALT_W1'', ''ALT_W2''] [''ALT_R1''] = Some ls"
    using resolve_account_locks_eq by blast
  then show ?thesis using fee_payer_is_write_locked [OF ls] by simp
qed

end
