(* ===== verification/Netting.thy ===== *)
theory Netting
  imports Prelude
begin

section \<open>Netting rows by key\<close>

text \<open>
  Two places of the program collapse balance rows to one net row per key: \<open>coalesce_token_deltas\<close>
  of \<open>rpc_client.rs\<close> by mint and \<open>coalesce_token_balance_rows\<close> of \<open>repository.rs\<close> by
  (signature, mint).  Both accumulate an \<open>i128\<close> per key in a hash map beside a list of keys in
  order of first appearance, and then emit the non-zero ones.  The locale states that shape; the
  facts about the result are proved here once.
\<close>

definition i128_as_u64 :: "int \<Rightarrow> nat" where
  "i128_as_u64 n = nat (n mod 2 ^ 64)"

lemma i128_as_u64_in_range: "0 \<le> n \<Longrightarrow> n < 2 ^ 64 \<Longrightarrow> int (i128_as_u64 n) = n"
  by (simp add: i128_as_u64_def)

definition firsts :: "'a list \<Rightarrow> 'a list" where
  "firsts xs = rev (remdups (rev xs))"

lemma firsts_Nil [simp]: "firsts [] = []"
  by (simp add: firsts_def)

lemma firsts_snoc: "firsts (xs @ [x]) = (if x \<in> set xs then firsts xs else firsts xs @ [x])"
  by (simp add: firsts_def)

lemma set_firsts [simp]: "set (firsts xs) = set xs"
  by (simp add: firsts_def)

lemma distinct_firsts [simp]: "distinct (firsts xs)"
  by (simp add: firsts_def)

lemma firsts_distinct: "distinct xs \<Longrightarrow> firsts xs = xs"
  by (simp add: firsts_def distinct_remdups_id)

locale netting =
  fixes key :: "'r \<Rightarrow> 'k" and delta :: "'r \<Rightarrow> int" and dec :: "'r \<Rightarrow> u8"
    and emit :: "'k \<Rightarrow> int \<Rightarrow> u8 \<Rightarrow> 'r"
    and step :: "'r \<Rightarrow> ('k \<rightharpoonup> int \<times> u8) \<times> 'k list \<Rightarrow> ('k \<rightharpoonup> int \<times> u8) \<times> 'k list"
    and coalesce :: "'r list \<Rightarrow> 'r list"
  assumes step_eq: "step r (net, order) =
      (case net (key r) of
         Some (n, d) \<Rightarrow> (net(key r \<mapsto> (n + delta r, d)), order)
       | None \<Rightarrow> (net(key r \<mapsto> (delta r, dec r)), order @ [key r]))"
    and coalesce_eq: "coalesce rs =
      (let (net, order) = fold step rs (Map.empty, [])
       in List.map_filter (\<lambda>k. case net k of None \<Rightarrow> None
            | Some (n, d) \<Rightarrow> if n = 0 then None else Some (emit k n d)) order)"
    and key_emit: "key (emit k n d) = k"
    and dec_emit: "dec (emit k n d) = d"
    and delta_emit: "n \<noteq> 0 \<Longrightarrow> \<bar>n\<bar> < 2 ^ 64 \<Longrightarrow> delta (emit k n d) = n"
begin

definition rows_of :: "'k \<Rightarrow> 'r list \<Rightarrow> 'r list" where
  "rows_of k rs = filter (\<lambda>r. key r = k) rs"

definition total :: "'k \<Rightarrow> 'r list \<Rightarrow> int" where
  "total k rs = sum_list (map delta (rows_of k rs))"

definition net_row :: "'r list \<Rightarrow> 'k \<Rightarrow> 'r" where
  "net_row rs k = emit k (total k rs) (dec (hd (rows_of k rs)))"

lemma rows_of_empty_iff: "rows_of k rs = [] \<longleftrightarrow> k \<notin> key ` set rs"
  by (auto simp: rows_of_def filter_empty_conv)

lemma fold_step:
  "fold step rs (Map.empty, []) =
     ((\<lambda>k. if k \<in> key ` set rs then Some (total k rs, dec (hd (rows_of k rs))) else None),
      firsts (map key rs))"
proof (induction rs rule: rev_induct)
  case (snoc r rs)
  show ?case
  proof (cases "key r \<in> key ` set rs")
    case True
    then have "rows_of (key r) rs \<noteq> []" by (simp add: rows_of_empty_iff)
    then show ?thesis using snoc.IH True
      by (auto simp: step_eq firsts_snoc total_def rows_of_def fun_eq_iff)
  next
    case False
    then have "rows_of (key r) rs = []" by (simp add: rows_of_empty_iff)
    then show ?thesis using snoc.IH False
      by (auto simp: step_eq firsts_snoc total_def rows_of_def fun_eq_iff)
  qed
qed (simp add: fun_eq_iff)

lemma coalesce_result:
  "coalesce rs = map (net_row rs) (filter (\<lambda>k. total k rs \<noteq> 0) (firsts (map key rs)))"
proof -
  let ?f = "\<lambda>k. case (if k \<in> key ` set rs then Some (total k rs, dec (hd (rows_of k rs))) else None) of
      None \<Rightarrow> None | Some (n, d) \<Rightarrow> if n = 0 then None else Some (emit k n d)"
  have "List.map_filter ?f ks = map (net_row rs) (filter (\<lambda>k. total k rs \<noteq> 0) ks)"
    if "set ks \<subseteq> key ` set rs" for ks
    using that by (induction ks) (auto simp: List.map_filter_simps net_row_def)
  from this [of "firsts (map key rs)"] show ?thesis by (simp add: coalesce_eq fold_step)
qed

lemma coalesce_keys: "map key (coalesce rs) = filter (\<lambda>k. total k rs \<noteq> 0) (firsts (map key rs))"
  by (simp add: coalesce_result net_row_def key_emit comp_def)

lemma distinct_coalesce_keys: "distinct (map key (coalesce rs))"
  by (simp add: coalesce_keys)

lemma rows_of_absent: "k \<notin> key ` set rs \<Longrightarrow> total k rs = 0"
  using rows_of_empty_iff [of k rs] by (simp add: total_def)

lemma coalesce_key_iff: "k \<in> key ` set (coalesce rs) \<longleftrightarrow> total k rs \<noteq> 0"
proof -
  have "key ` set (coalesce rs) = set (map key (coalesce rs))" by simp
  also have "\<dots> = {k. total k rs \<noteq> 0}"
    unfolding coalesce_keys using rows_of_absent by auto
  finally show ?thesis by simp
qed

lemma rows_of_distinct:
  "distinct (map key rs) \<Longrightarrow> r \<in> set rs \<Longrightarrow> rows_of (key r) rs = [r]"
proof (induction rs)
  case (Cons a rs)
  then show ?case using rows_of_empty_iff [of "key a" rs]
    by (auto simp: rows_of_def image_iff)
qed simp

text \<open>An accumulator over fewer than \<open>2 ^ 63\<close> rows of \<open>u64\<close> differences stays inside \<open>i128\<close>.\<close>

lemma total_bound:
  assumes "\<And>r. r \<in> set rs \<Longrightarrow> \<bar>delta r\<bar> < 2 ^ 64"
  shows "\<bar>total k rs\<bar> \<le> int (length rs) * 2 ^ 64"
proof -
  have *: "\<bar>sum_list (map delta xs)\<bar> \<le> int (length xs) * 2 ^ 64" if "set xs \<subseteq> set rs" for xs
    using that by (induction xs) (auto simp: algebra_simps dest!: assms)
  have "\<bar>total k rs\<bar> \<le> int (length (rows_of k rs)) * 2 ^ 64"
    unfolding total_def by (rule *) (auto simp: rows_of_def)
  also have "\<dots> \<le> int (length rs) * 2 ^ 64" by (simp add: rows_of_def)
  finally show ?thesis .
qed

text \<open>The net of a key survives, provided it fits the 64 bits the emitted row has for it.\<close>

lemma total_coalesce:
  assumes "\<bar>total k rs\<bar> < 2 ^ 64"
  shows "total k (coalesce rs) = total k rs"
proof (cases "total k rs = 0")
  case True
  then show ?thesis using rows_of_absent [of k "coalesce rs"] coalesce_key_iff [of k rs] by simp
next
  case False
  then have "k \<in> key ` set rs" using rows_of_absent by blast
  with False have "net_row rs k \<in> set (coalesce rs)" by (auto simp: coalesce_result)
  moreover have "key (net_row rs k) = k" by (simp add: net_row_def key_emit)
  ultimately have "rows_of k (coalesce rs) = [net_row rs k]"
    using rows_of_distinct [OF distinct_coalesce_keys] by metis
  then show ?thesis using assms False by (simp add: total_def [of k "coalesce rs"] net_row_def delta_emit)
qed

lemma coalesce_canonical:
  assumes "distinct (map key rs)"
    and "\<And>r. r \<in> set rs \<Longrightarrow> delta r \<noteq> 0 \<and> emit (key r) (delta r) (dec r) = r"
  shows "coalesce rs = rs"
proof -
  have t: "total (key r) rs = delta r" "net_row rs (key r) = r" if "r \<in> set rs" for r
    using rows_of_distinct [OF assms(1) that] assms(2) [OF that] by (simp_all add: total_def net_row_def)
  have "filter (\<lambda>k. total k rs \<noteq> 0) (map key rs) = map key rs"
    using t assms(2) by (auto simp: filter_id_conv)
  moreover have "map (net_row rs) (map key rs) = rs" using t by (simp add: map_idI)
  ultimately show ?thesis using assms(1) by (simp add: coalesce_result firsts_distinct)
qed

lemma coalesce_idem:
  assumes "\<And>k. \<bar>total k rs\<bar> < 2 ^ 64"
  shows "coalesce (coalesce rs) = coalesce rs"
proof (rule coalesce_canonical [OF distinct_coalesce_keys])
  fix r assume "r \<in> set (coalesce rs)"
  then obtain k where k: "r = net_row rs k" "total k rs \<noteq> 0" by (auto simp: coalesce_result)
  then have "delta r = total k rs" using assms by (simp add: net_row_def delta_emit)
  then show "delta r \<noteq> 0 \<and> emit (key r) (delta r) (dec r) = r"
    using k by (simp add: net_row_def key_emit dec_emit)
qed

end

end
