(* ===== verification/Rpc_Client.thy ===== *)
theory Rpc_Client
  imports Netting Account_Resolution
begin

section \<open>Decoding of getBlock responses\<close>

text \<open>
  \<open>crates/ingest-core/src/rpc_client.rs\<close> and the shared types of \<open>types.rs\<close>: classification of
  RPC errors, and the conversion of the raw response structures into decoded transactions.
  The \<open>serde_json\<close> value type is a parameter: \<open>json_api\<close> holds the accessors the code calls on
  it and the deserialiser derived for the envelope.  The HTTP transport is a parameter of
  \<open>get_block\<close>; a transport error is represented by its display text.
\<close>

subsection \<open>Errors\<close>

datatype rpc_error =
    Transport string
  | RpcReturnedError string
  | SlotSkipped
  | UnexpectedShape string

fun rpc_error_to_string :: "rpc_error \<Rightarrow> string" where
  "rpc_error_to_string (Transport e) = ''transport error: '' @ e"
| "rpc_error_to_string (RpcReturnedError m) = ''rpc returned an error: '' @ m"
| "rpc_error_to_string SlotSkipped = ''slot was skipped by the leader''"
| "rpc_error_to_string (UnexpectedShape m) = ''unexpected response shape: '' @ m"

fun is_transient :: "rpc_error \<Rightarrow> bool" where
  "is_transient (Transport _) = True"
| "is_transient (RpcReturnedError msg) =
     (let m = to_ascii_lowercase msg
      in str_contains m ''429'' \<or> str_contains m ''too many'' \<or> str_contains m ''rate limit'')"
| "is_transient _ = False"

definition is_slot_unavailable :: "string \<Rightarrow> int option \<Rightarrow> bool" where
  "is_slot_unavailable message code =
     (if code \<in> {Some (-32004), Some (-32007), Some (-32009)} then True
      else let m = to_ascii_lowercase message
           in str_contains m ''skipped'' \<or> str_contains m ''missing'' \<or>
              str_contains m ''block not available'')"

subsection \<open>Decoded and raw structures\<close>

record token_balance_change =
  tbc_mint :: string
  tbc_pre_amount :: nat
  tbc_post_amount :: nat
  tbc_decimals :: u8

record decoded_transaction =
  dt_signature :: string
  dt_slot :: nat
  dt_block_time :: "int option"
  dt_program_ids :: "string list"
  dt_locks :: "core_lock list"
  dt_token_deltas :: "token_balance_change list"
  dt_failed :: bool

record decoded_block =
  db_slot :: nat
  db_block_time :: "int option"
  db_transactions :: "decoded_transaction list"

record raw_header =
  rh_num_required_signatures :: u8
  rh_num_readonly_signed_accounts :: u8
  rh_num_readonly_unsigned_accounts :: u8

record raw_instruction =
  ri_program_id_index :: u8

record raw_message =
  rm_account_keys :: "string list"
  rm_header :: raw_header
  rm_instructions :: "raw_instruction list"

record raw_transaction =
  rt_message :: raw_message
  rt_signatures :: "string list"

record raw_loaded_addresses =
  rla_writable :: "string list"
  rla_readonly :: "string list"

record raw_ui_token_amount =
  rua_amount :: string
  rua_decimals :: u8

record raw_token_balance =
  rtb_account_index :: u32
  rtb_mint :: string
  rtb_ui_token_amount :: raw_ui_token_amount

record 'v raw_meta =
  rme_err :: "'v option"
  rme_pre_token_balances :: "raw_token_balance list"
  rme_post_token_balances :: "raw_token_balance list"
  rme_loaded_addresses :: "raw_loaded_addresses option"

record 'v raw_tx_with_meta =
  rtm_transaction :: raw_transaction
  rtm_meta :: "'v raw_meta option"

record 'v raw_block =
  rb_block_time :: "int option"
  rb_transactions :: "'v raw_tx_with_meta list"

record 'v json_api =
  json_get :: "'v \<Rightarrow> string \<Rightarrow> 'v option"
  json_as_str :: "'v \<Rightarrow> string option"
  json_as_i64 :: "'v \<Rightarrow> int option"
  json_from_value :: "'v \<Rightarrow> string + 'v raw_block option"

subsection \<open>Program ids\<close>

definition extract_program_ids ::
  "string list \<Rightarrow> string list \<Rightarrow> string list \<Rightarrow> raw_instruction list \<Rightarrow> string list" where
  "extract_program_ids static_keys loaded_writable loaded_readonly instructions =
     (let full_list = static_keys @ loaded_writable @ loaded_readonly;
          ids = List.map_filter
            (\<lambda>ix. let i = unat (ri_program_id_index ix)
                  in if i < length full_list then Some (full_list ! i) else None) instructions
      in remdups_adj (sort ids))"

subsection \<open>Token deltas\<close>

definition amount_of :: "raw_token_balance \<Rightarrow> nat" where
  "amount_of b =
     (case parse_u64 (rua_amount (rtb_ui_token_amount b)) of None \<Rightarrow> 0 | Some n \<Rightarrow> n)"

definition tbc_delta :: "token_balance_change \<Rightarrow> int" where
  "tbc_delta d = int (tbc_post_amount d) - int (tbc_pre_amount d)"

definition net_delta_step ::
  "token_balance_change \<Rightarrow> (string \<rightharpoonup> int \<times> u8) \<times> string list \<Rightarrow> (string \<rightharpoonup> int \<times> u8) \<times> string list" where
  "net_delta_step d st =
     (let (net, order) = st; delta = tbc_delta d
      in case net (tbc_mint d) of
           Some (n, dec) \<Rightarrow> (net(tbc_mint d \<mapsto> (n + delta, dec)), order)
         | None \<Rightarrow> (net(tbc_mint d \<mapsto> (delta, tbc_decimals d)), order @ [tbc_mint d]))"

definition net_change :: "string \<Rightarrow> int \<Rightarrow> u8 \<Rightarrow> token_balance_change" where
  "net_change mint n dec =
     (let (pre, post) = (if 0 < n then (0, i128_as_u64 n) else (i128_as_u64 (- n), 0))
      in \<lparr>tbc_mint = mint, tbc_pre_amount = pre, tbc_post_amount = post, tbc_decimals = dec\<rparr>)"

definition coalesce_token_deltas :: "token_balance_change list \<Rightarrow> token_balance_change list" where
  "coalesce_token_deltas deltas =
     (let (net, order) = fold net_delta_step deltas (Map.empty, [])
      in List.map_filter (\<lambda>mint. case net mint of None \<Rightarrow> None
           | Some (n, dec) \<Rightarrow> if n = 0 then None else Some (net_change mint n dec)) order)"

definition post_delta ::
  "raw_token_balance list \<Rightarrow> raw_token_balance \<Rightarrow> token_balance_change option" where
  "post_delta pre post_bal =
     (let pre_bal = find (\<lambda>p. rtb_account_index p = rtb_account_index post_bal) pre;
          pre_amount = (case pre_bal of None \<Rightarrow> 0 | Some p \<Rightarrow> amount_of p);
          post_amount = amount_of post_bal
      in if pre_amount \<noteq> post_amount then
           Some \<lparr>tbc_mint = rtb_mint post_bal, tbc_pre_amount = pre_amount,
                 tbc_post_amount = post_amount,
                 tbc_decimals = rua_decimals (rtb_ui_token_amount post_bal)\<rparr>
         else None)"

definition closed_delta ::
  "raw_token_balance list \<Rightarrow> raw_token_balance \<Rightarrow> token_balance_change option" where
  "closed_delta post pre_bal =
     (if \<not> list_ex (\<lambda>p. rtb_account_index p = rtb_account_index pre_bal) post \<and>
         amount_of pre_bal \<noteq> 0
      then Some \<lparr>tbc_mint = rtb_mint pre_bal, tbc_pre_amount = amount_of pre_bal,
                 tbc_post_amount = 0,
                 tbc_decimals = rua_decimals (rtb_ui_token_amount pre_bal)\<rparr>
      else None)"

definition raw_token_deltas ::
  "raw_token_balance list \<Rightarrow> raw_token_balance list \<Rightarrow> token_balance_change list" where
  "raw_token_deltas pre post =
     List.map_filter (post_delta pre) post @ List.map_filter (closed_delta post) pre"

definition build_token_deltas ::
  "raw_token_balance list \<Rightarrow> raw_token_balance list \<Rightarrow> token_balance_change list" where
  "build_token_deltas pre post = coalesce_token_deltas (raw_token_deltas pre post)"

subsection \<open>Transactions, blocks, envelopes\<close>

text \<open>
  The outer \<open>option\<close> is a panic, the inner one the \<open>Option\<close> that \<open>decode_transaction\<close> returns
  and \<open>filter_map\<close> consumes.
\<close>

definition decode_transaction ::
  "nat \<Rightarrow> int option \<Rightarrow> 'v raw_tx_with_meta \<Rightarrow> decoded_transaction option option" where
  "decode_transaction slot block_time raw =
     (let message = rt_message (rtm_transaction raw);
          header = \<lparr>num_required_signatures = rh_num_required_signatures (rm_header message),
                    num_readonly_signed_accounts = rh_num_readonly_signed_accounts (rm_header message),
                    num_readonly_unsigned_accounts = rh_num_readonly_unsigned_accounts (rm_header message)\<rparr>;
          (loaded_writable, loaded_readonly) =
            (case Option.bind (rtm_meta raw) rme_loaded_addresses of
               None \<Rightarrow> ([], [])
             | Some la \<Rightarrow> (rla_writable la, rla_readonly la))
      in case resolve_account_locks (rm_account_keys message) header loaded_writable loaded_readonly of
           None \<Rightarrow> None
         | Some locks \<Rightarrow>
             Some (Some
               \<lparr>dt_signature = (case rt_signatures (rtm_transaction raw) of [] \<Rightarrow> [] | s # _ \<Rightarrow> s),
                dt_slot = slot,
                dt_block_time = block_time,
                dt_program_ids = extract_program_ids (rm_account_keys message) loaded_writable
                  loaded_readonly (rm_instructions message),
                dt_locks = locks,
                dt_token_deltas = (case rtm_meta raw of None \<Rightarrow> []
                  | Some m \<Rightarrow> build_token_deltas (rme_pre_token_balances m) (rme_post_token_balances m)),
                dt_failed = (case rtm_meta raw of None \<Rightarrow> False | Some m \<Rightarrow> rme_err m \<noteq> None)\<rparr>))"

fun decode_transactions ::
  "nat \<Rightarrow> int option \<Rightarrow> 'v raw_tx_with_meta list \<Rightarrow> decoded_transaction list option" where
  "decode_transactions slot bt [] = Some []"
| "decode_transactions slot bt (t # ts) =
     (case decode_transaction slot bt t of
        None \<Rightarrow> None
      | Some r \<Rightarrow>
          (case decode_transactions slot bt ts of
             None \<Rightarrow> None
           | Some ds \<Rightarrow> Some (case r of None \<Rightarrow> ds | Some d \<Rightarrow> d # ds)))"

definition decode_block :: "nat \<Rightarrow> 'v raw_block \<Rightarrow> decoded_block option" where
  "decode_block slot raw =
     (case decode_transactions slot (rb_block_time raw) (rb_transactions raw) of
        None \<Rightarrow> None
      | Some ts \<Rightarrow> Some \<lparr>db_slot = slot, db_block_time = rb_block_time raw, db_transactions = ts\<rparr>)"

definition decode_get_block_json ::
  "'v json_api \<Rightarrow> nat \<Rightarrow> 'v \<Rightarrow> (rpc_error + decoded_block) option" where
  "decode_get_block_json J slot v =
     (case json_get J v ''error'' of
        Some err \<Rightarrow>
          (let message = (case Option.bind (json_get J err ''message'') (json_as_str J) of
                            None \<Rightarrow> ''rpc error'' | Some m \<Rightarrow> m);
               code = Option.bind (json_get J err ''code'') (json_as_i64 J)
           in Some (Inl (if is_slot_unavailable message code then SlotSkipped
                         else RpcReturnedError message)))
      | None \<Rightarrow>
          (case json_from_value J v of
             Inl e \<Rightarrow> Some (Inl (UnexpectedShape e))
           | Inr None \<Rightarrow> Some (Inl (UnexpectedShape ''missing result''))
           | Inr (Some raw) \<Rightarrow> map_option Inr (decode_block slot raw)))"

definition get_block ::
  "'v json_api \<Rightarrow> (nat \<Rightarrow> string + 'v) \<Rightarrow> nat \<Rightarrow> (rpc_error + decoded_block) option" where
  "get_block J http slot =
     (case http slot of
        Inl e \<Rightarrow> Some (Inl (Transport e))
      | Inr v \<Rightarrow> decode_get_block_json J slot v)"

text \<open>
  The JSON-RPC requests, and the two operations that send one; \<open>post\<close> is the HTTP client and
  \<open>to_text\<close> the \<open>Display\<close> of the JSON value.
\<close>

datatype json_lit =
    JBool bool
  | JNum int
  | JStr string
  | JArr "json_lit list"
  | JObj "(string \<times> json_lit) list"

definition get_slot_body :: json_lit where
  "get_slot_body =
     JObj [(''jsonrpc'', JStr ''2.0''), (''id'', JNum 1), (''method'', JStr ''getSlot''),
           (''params'', JArr [JObj [(''commitment'', JStr ''finalized'')]])]"

definition get_block_body :: "nat \<Rightarrow> json_lit" where
  "get_block_body slot =
     JObj [(''jsonrpc'', JStr ''2.0''), (''id'', JNum 1), (''method'', JStr ''getBlock''),
           (''params'', JArr [JNum (int slot),
              JObj [(''encoding'', JStr ''json''), (''maxSupportedTransactionVersion'', JNum 0),
                    (''transactionDetails'', JStr ''full''), (''rewards'', JBool False),
                    (''commitment'', JStr ''finalized'')]])]"

definition get_slot ::
  "'v json_api \<Rightarrow> ('v \<Rightarrow> nat option) \<Rightarrow> ('v \<Rightarrow> string) \<Rightarrow> (json_lit \<Rightarrow> string + 'v) \<Rightarrow> rpc_error + nat" where
  "get_slot J as_u64 to_text post =
     (case post get_slot_body of
        Inl e \<Rightarrow> Inl (Transport e)
      | Inr resp \<Rightarrow>
          (case Option.bind (json_get J resp ''result'') as_u64 of
             None \<Rightarrow> Inl (UnexpectedShape (''getSlot: '' @ to_text resp))
           | Some n \<Rightarrow> Inr n))"

definition get_block_raw :: "(json_lit \<Rightarrow> string + 'v) \<Rightarrow> nat \<Rightarrow> string + 'v" where
  "get_block_raw post slot = post (get_block_body slot)"

subsection \<open>Netting by mint\<close>

lemma net_change_sides:
  "tbc_mint (net_change m n d) = m" "tbc_decimals (net_change m n d) = d"
  "tbc_pre_amount (net_change m n d) = 0 \<or> tbc_post_amount (net_change m n d) = 0"
  by (simp_all add: net_change_def)

lemma net_change_delta: "n \<noteq> 0 \<Longrightarrow> \<bar>n\<bar> < 2 ^ 64 \<Longrightarrow> tbc_delta (net_change m n d) = n"
  by (auto simp: net_change_def tbc_delta_def i128_as_u64_def)

interpretation by_mint: netting tbc_mint tbc_delta tbc_decimals net_change net_delta_step
    coalesce_token_deltas
  by unfold_locales
     (simp_all add: net_delta_step_def coalesce_token_deltas_def net_change_sides net_change_delta
        split: option.splits)

subsection \<open>What the raw deltas add up to\<close>

lemma map_filter_total:
  assumes "\<And>x. (case f x of None \<Rightarrow> 0 | Some d \<Rightarrow> if tbc_mint d = m then tbc_delta d else 0) = g x"
  shows "by_mint.total m (List.map_filter f xs) = sum_list (map g xs)"
proof (induction xs)
  case (Cons x xs)
  then show ?case using assms [of x]
    by (auto simp: List.map_filter_simps by_mint.total_def by_mint.rows_of_def split: option.splits)
qed (simp add: List.map_filter_simps by_mint.total_def by_mint.rows_of_def)

lemma total_append: "by_mint.total m (xs @ ys) = by_mint.total m xs + by_mint.total m ys"
  by (simp add: by_mint.total_def by_mint.rows_of_def)

definition matching_amount :: "raw_token_balance list \<Rightarrow> raw_token_balance \<Rightarrow> nat" where
  "matching_amount pre q =
     (case find (\<lambda>p. rtb_account_index p = rtb_account_index q) pre of None \<Rightarrow> 0 | Some p \<Rightarrow> amount_of p)"

lemma matching_amount_sum:
  "distinct (map rtb_account_index pre) \<Longrightarrow>
     int (matching_amount pre q) =
       (\<Sum>p\<leftarrow>pre. if rtb_account_index p = rtb_account_index q then int (amount_of p) else 0)"
proof (induction pre)
  case (Cons p pre)
  have "(\<Sum>p\<leftarrow>pre. if rtb_account_index p = i then int (amount_of p) else 0) = 0"
    if "i \<notin> rtb_account_index ` set pre" for i
    using that by (induction pre) auto
  with Cons show ?case by (auto simp: matching_amount_def)
qed (simp add: matching_amount_def)

lemma sum_list_swap:
  "(\<Sum>q\<leftarrow>ys. \<Sum>p\<leftarrow>xs. f p q) = (\<Sum>p\<leftarrow>xs. \<Sum>q\<leftarrow>ys. f p q)" for f :: "'a \<Rightarrow> 'b \<Rightarrow> int"
  by (induction ys) (simp_all add: sum_list_addf)

lemma sum_unique_index:
  "distinct (map rtb_account_index post) \<Longrightarrow>
     (\<Sum>q\<leftarrow>post. if i = rtb_account_index q \<and> P q then c else 0) =
       (if \<exists>q\<in>set post. i = rtb_account_index q \<and> P q then c else (0::int))"
proof (induction post)
  case (Cons q post)
  have z: "(\<Sum>q\<leftarrow>post. if i = rtb_account_index q \<and> P q then c else 0) = 0"
    if "i \<notin> rtb_account_index ` set post"
    using that by (induction post) auto
  show ?case
  proof (cases "i = rtb_account_index q")
    case True
    then have "i \<notin> rtb_account_index ` set post" using Cons.prems by simp
    then have "\<not> (\<exists>q\<in>set post. i = rtb_account_index q \<and> P q)" by blast
    with z [OF \<open>i \<notin> _\<close>] show ?thesis by auto
  next
    case False
    then show ?thesis using Cons by simp
  qed
qed simp

definition mint_amount :: "string \<Rightarrow> raw_token_balance list \<Rightarrow> int" where
  "mint_amount m bs = (\<Sum>b\<leftarrow>bs. if rtb_mint b = m then int (amount_of b) else 0)"

lemma matched_total:
  assumes pre: "distinct (map rtb_account_index pre)" and post: "distinct (map rtb_account_index post)"
    and mints: "\<forall>p\<in>set pre. \<forall>q\<in>set post.
      rtb_account_index p = rtb_account_index q \<longrightarrow> rtb_mint p = rtb_mint q"
  shows "(\<Sum>q\<leftarrow>post. if rtb_mint q = m then int (matching_amount pre q) else 0) =
    (\<Sum>p\<leftarrow>pre. if rtb_mint p = m \<and> rtb_account_index p \<in> rtb_account_index ` set post
       then int (amount_of p) else 0)"
proof -
  let ?f = "\<lambda>p q. if rtb_account_index p = rtb_account_index q \<and> rtb_mint q = m
      then int (amount_of p) else 0"
  have "(if rtb_mint q = m then int (matching_amount pre q) else 0) = (\<Sum>p\<leftarrow>pre. ?f p q)" for q
    by (simp add: matching_amount_sum [OF pre])
  then have "(\<Sum>q\<leftarrow>post. if rtb_mint q = m then int (matching_amount pre q) else 0) =
      (\<Sum>q\<leftarrow>post. \<Sum>p\<leftarrow>pre. ?f p q)" by simp
  also have "\<dots> = (\<Sum>p\<leftarrow>pre. \<Sum>q\<leftarrow>post. ?f p q)" by (rule sum_list_swap)
  also have "\<dots> = (\<Sum>p\<leftarrow>pre. if rtb_mint p = m \<and> rtb_account_index p \<in> rtb_account_index ` set post
       then int (amount_of p) else 0)"
  proof -
    have "(if \<exists>q\<in>set post. rtb_account_index p = rtb_account_index q \<and> rtb_mint q = m
        then int (amount_of p) else 0) =
      (if rtb_mint p = m \<and> rtb_account_index p \<in> rtb_account_index ` set post
        then int (amount_of p) else 0)" if "p \<in> set pre" for p
      using mints that by (auto simp: image_iff)
    then show ?thesis unfolding sum_unique_index [OF post]
      by (intro arg_cong [of _ _ sum_list] map_cong) simp_all
  qed
  finally show ?thesis .
qed

lemma raw_token_deltas_total:
  assumes "distinct (map rtb_account_index pre)" and "distinct (map rtb_account_index post)"
    and "\<forall>p\<in>set pre. \<forall>q\<in>set post.
      rtb_account_index p = rtb_account_index q \<longrightarrow> rtb_mint p = rtb_mint q"
  shows "by_mint.total m (raw_token_deltas pre post) = mint_amount m post - mint_amount m pre"
proof -
  let ?in = "\<lambda>p. rtb_account_index p \<in> rtb_account_index ` set post"
  have P: "by_mint.total m (List.map_filter (post_delta pre) post) =
      (\<Sum>q\<leftarrow>post. if rtb_mint q = m then int (amount_of q) - int (matching_amount pre q) else 0)"
    by (rule map_filter_total)
       (auto simp: post_delta_def matching_amount_def tbc_delta_def Let_def)
  have C: "by_mint.total m (List.map_filter (closed_delta post) pre) =
      (\<Sum>p\<leftarrow>pre. if rtb_mint p = m \<and> \<not> ?in p then - int (amount_of p) else 0)"
    by (rule map_filter_total)
       (auto simp: closed_delta_def tbc_delta_def list_ex_iff image_iff)
  have split: "(\<Sum>q\<leftarrow>post. if rtb_mint q = m then int (amount_of q) - int (matching_amount pre q) else 0) =
      mint_amount m post - (\<Sum>q\<leftarrow>post. if rtb_mint q = m then int (matching_amount pre q) else 0)"
    unfolding mint_amount_def sum_list_subtractf [symmetric]
    by (intro arg_cong [of _ _ sum_list] map_cong) auto
  have "(\<Sum>p\<leftarrow>pre. if rtb_mint p = m \<and> ?in p then int (amount_of p) else 0) -
      (\<Sum>p\<leftarrow>pre. if rtb_mint p = m \<and> \<not> ?in p then - int (amount_of p) else 0) = mint_amount m pre"
    unfolding mint_amount_def sum_list_subtractf [symmetric]
    by (intro arg_cong [of _ _ sum_list] map_cong) auto
  then show ?thesis
    unfolding raw_token_deltas_def total_append P C split matched_total [OF assms] by linarith
qed

subsection \<open>Decoding never fails on a well-typed block\<close>

lemma decode_transaction_Some:
  "\<exists>d. decode_transaction slot bt t = Some (Some d) \<and> dt_slot d = slot \<and> dt_block_time d = bt \<and>
     dt_failed d = (case rtm_meta t of None \<Rightarrow> False | Some m \<Rightarrow> rme_err m \<noteq> None)"
  by (auto simp: decode_transaction_def resolve_account_locks_eq Let_def split: prod.split)

lemma decode_transaction_fields:
  assumes "decode_transaction slot bt t = Some (Some d)"
  shows "dt_slot d = slot \<and> dt_block_time d = bt \<and>
     dt_signature d = (case rt_signatures (rtm_transaction t) of [] \<Rightarrow> [] | s # _ \<Rightarrow> s) \<and>
     dt_token_deltas d = (case rtm_meta t of None \<Rightarrow> []
       | Some m \<Rightarrow> build_token_deltas (rme_pre_token_balances m) (rme_post_token_balances m)) \<and>
     dt_failed d = (case rtm_meta t of None \<Rightarrow> False | Some m \<Rightarrow> rme_err m \<noteq> None)"
  using assms by (auto simp: decode_transaction_def Let_def split: prod.splits option.splits)

lemma decode_transactions_Some:
  "\<exists>ds. decode_transactions slot bt ts = Some ds \<and> length ds = length ts \<and>
     (\<forall>i<length ts. decode_transaction slot bt (ts ! i) = Some (Some (ds ! i)))"
proof (induction ts)
  case (Cons t ts)
  then obtain ds where ds: "decode_transactions slot bt ts = Some ds" "length ds = length ts"
    "\<forall>i<length ts. decode_transaction slot bt (ts ! i) = Some (Some (ds ! i))" by blast
  obtain d where "decode_transaction slot bt t = Some (Some d)"
    using decode_transaction_Some by blast
  with ds show ?case by (auto simp: less_Suc_eq_0_disj)
qed simp

lemma decode_get_block_json_cases:
  assumes "decode_get_block_json J slot v = Some r"
  obtains (error) err message code where "json_get J v ''error'' = Some err"
      "r = Inl (if is_slot_unavailable message code then SlotSkipped else RpcReturnedError message)"
    | (shape) e where "json_get J v ''error'' = None" "r = Inl (UnexpectedShape e)"
    | (block) raw b where "json_get J v ''error'' = None" "json_from_value J v = Inr (Some raw)"
      "decode_block slot raw = Some b" "r = Inr b"
  using assms
  by (auto simp: decode_get_block_json_def Let_def split: option.splits sum.splits)

lemma get_block_no_panic: "get_block J http slot \<noteq> None"
proof -
  have "decode_block slot raw \<noteq> None" for raw :: "'a raw_block"
    using decode_transactions_Some [of slot "rb_block_time raw" "rb_transactions raw"]
    by (auto simp: decode_block_def)
  then show ?thesis
    by (auto simp: get_block_def decode_get_block_json_def Let_def split: sum.splits option.splits)
qed

subsection \<open>Samples for the witnesses\<close>

datatype sample_json = SStr string | SInt int | SObj "(string \<times> sample_json) list"

definition sample_api :: "sample_json json_api" where
  "sample_api =
     \<lparr>json_get = (\<lambda>v k. case v of SObj fs \<Rightarrow> map_of fs k | _ \<Rightarrow> None),
      json_as_str = (\<lambda>v. case v of SStr s \<Rightarrow> Some s | _ \<Rightarrow> None),
      json_as_i64 = (\<lambda>v. case v of SInt n \<Rightarrow> Some n | _ \<Rightarrow> None),
      json_from_value = (\<lambda>_. Inr None)\<rparr>"

definition sample_balance :: "u32 \<Rightarrow> string \<Rightarrow> string \<Rightarrow> raw_token_balance" where
  "sample_balance i mint amount = \<lparr>rtb_account_index = i, rtb_mint = mint,
     rtb_ui_token_amount = \<lparr>rua_amount = amount, rua_decimals = 6\<rparr>\<rparr>"

definition sample_pre :: "raw_token_balance list" where
  "sample_pre = [sample_balance 1 ''USDT'' ''5'', sample_balance 3 ''USDT'' ''9'']"

definition sample_post :: "raw_token_balance list" where
  "sample_post = [sample_balance 1 ''USDT'' ''8'', sample_balance 2 ''WSOL'' ''4'']"

lemma sample_amounts:
  "parse_u64 ''4'' = Some 4" "parse_u64 ''5'' = Some 5" "parse_u64 ''8'' = Some 8" "parse_u64 ''9'' = Some 9"
  by (simp_all add: parse_u64_def digit_val_def less_eq_char_def)

lemmas sample_defs = sample_pre_def sample_post_def sample_balance_def amount_of_def sample_amounts

lemma sample_mint_amounts:
  "mint_amount m sample_pre = (if m = ''USDT'' then 14 else 0)"
  "mint_amount m sample_post = (if m = ''USDT'' then 8 else if m = ''WSOL'' then 4 else 0)"
  by (auto simp: mint_amount_def sample_defs)

lemma sample_balances_ok:
  "distinct (map rtb_account_index sample_pre)" "distinct (map rtb_account_index sample_post)"
  "\<forall>p\<in>set sample_pre. \<forall>q\<in>set sample_post.
     rtb_account_index p = rtb_account_index q \<longrightarrow> rtb_mint p = rtb_mint q"
  by (simp_all add: sample_defs)

subsection \<open>Properties\<close>

text \<open>
  \<open>decode_block\<close> neither panics nor drops a transaction: the decoded block has one
  transaction per raw one, in the same order, each with its first signature (or the empty string),
  tagged with the block's slot and time and marked failed exactly when its metadata carries an error.
\<close>

lemma decode_block_total:
  "\<exists>b. decode_block slot raw = Some b \<and> db_slot b = slot \<and> db_block_time b = rb_block_time raw \<and>
     map dt_slot (db_transactions b) = map (\<lambda>t. slot) (rb_transactions raw) \<and>
     map dt_block_time (db_transactions b) = map (\<lambda>t. rb_block_time raw) (rb_transactions raw) \<and>
     map dt_signature (db_transactions b) =
       map (\<lambda>t. case rt_signatures (rtm_transaction t) of [] \<Rightarrow> [] | s # _ \<Rightarrow> s) (rb_transactions raw) \<and>
     map dt_failed (db_transactions b) =
       map (\<lambda>t. case rtm_meta t of None \<Rightarrow> False | Some m \<Rightarrow> rme_err m \<noteq> None) (rb_transactions raw)"
proof -
  obtain ds where ds: "decode_transactions slot (rb_block_time raw) (rb_transactions raw) = Some ds"
    "length ds = length (rb_transactions raw)"
    "\<forall>i<length (rb_transactions raw).
       decode_transaction slot (rb_block_time raw) (rb_transactions raw ! i) = Some (Some (ds ! i))"
    using decode_transactions_Some by blast
  have field: "map f ds = map g (rb_transactions raw)"
    if "\<And>t d. decode_transaction slot (rb_block_time raw) t = Some (Some d) \<Longrightarrow> f d = g t" for f :: "decoded_transaction \<Rightarrow> 'x" and g
    using ds that by (auto simp: list_eq_iff_nth_eq)
  show ?thesis using ds(1)
    by (auto simp: decode_block_def intro!: field dest!: decode_transaction_fields)
qed



lemma netted_deltas:
  assumes "\<And>m. \<bar>mint_amount m post - mint_amount m pre\<bar> < 2 ^ 64"
    and "distinct (map rtb_account_index pre)" and "distinct (map rtb_account_index post)"
    and "\<forall>p\<in>set pre. \<forall>q\<in>set post.
      rtb_account_index p = rtb_account_index q \<longrightarrow> rtb_mint p = rtb_mint q"
  shows "distinct (map tbc_mint (build_token_deltas pre post)) \<and>
    (\<forall>d\<in>set (build_token_deltas pre post).
       (tbc_pre_amount d = 0 \<or> tbc_post_amount d = 0) \<and>
       tbc_delta d = mint_amount (tbc_mint d) post - mint_amount (tbc_mint d) pre \<and>
       tbc_delta d \<noteq> 0)"
proof (intro conjI ballI)
  note total = raw_token_deltas_total [OF assms(2-4)]
  show "distinct (map tbc_mint (build_token_deltas pre post))"
    unfolding build_token_deltas_def by (rule by_mint.distinct_coalesce_keys)
  fix d assume "d \<in> set (build_token_deltas pre post)"
  then obtain m where d: "d = by_mint.net_row (raw_token_deltas pre post) m"
    and nz: "by_mint.total m (raw_token_deltas pre post) \<noteq> 0"
    by (auto simp: build_token_deltas_def by_mint.coalesce_result)
  show "tbc_pre_amount d = 0 \<or> tbc_post_amount d = 0"
    by (simp add: d by_mint.net_row_def net_change_sides)
  have "tbc_delta d = by_mint.total m (raw_token_deltas pre post)" "tbc_mint d = m"
    using nz assms(1) [of m] by (simp_all add: d by_mint.net_row_def net_change_sides net_change_delta total)
  then show "tbc_delta d = mint_amount (tbc_mint d) post - mint_amount (tbc_mint d) pre"
    and "tbc_delta d \<noteq> 0" using nz by (simp_all add: total)
qed

text \<open>
  C36. The token deltas of a transaction are in the form the storage key \<open>(tx_signature, mint)\<close> and
  the price inference rely on: at most one row per mint, and each row is a pure gain or a pure
  loss of a non-zero amount.
\<close>

theorem build_token_deltas_canonical:
  assumes "\<And>m. \<bar>mint_amount m post - mint_amount m pre\<bar> < 2 ^ 64"
    and "distinct (map rtb_account_index pre)" and "distinct (map rtb_account_index post)"
    and "\<forall>p\<in>set pre. \<forall>q\<in>set post.
      rtb_account_index p = rtb_account_index q \<longrightarrow> rtb_mint p = rtb_mint q"
  shows "distinct (map tbc_mint (build_token_deltas pre post)) \<and>
    (\<forall>d\<in>set (build_token_deltas pre post).
       (tbc_pre_amount d = 0 \<or> tbc_post_amount d = 0) \<and>
       tbc_delta d = mint_amount (tbc_mint d) post - mint_amount (tbc_mint d) pre \<and>
       tbc_delta d \<noteq> 0)"
  using assms by (rule netted_deltas)

theorem build_token_deltas_canonical_witness:
  "distinct (map tbc_mint (build_token_deltas sample_pre sample_post)) \<and>
   0 \<notin> tbc_delta ` set (build_token_deltas sample_pre sample_post)"
proof -
  have "\<bar>mint_amount m sample_post - mint_amount m sample_pre\<bar> < 2 ^ 64" for m
    by (simp add: sample_mint_amounts)
  from build_token_deltas_canonical [OF this sample_balances_ok] show ?thesis by force
qed

text \<open>
  C14. A mint appears among the token deltas exactly when the sum of its token-account balances
  changed over the transaction; closed and newly opened accounts count with a zero balance on the
  missing side.
\<close>

theorem build_token_deltas_mints:
  assumes "distinct (map rtb_account_index pre)" and "distinct (map rtb_account_index post)"
    and "\<forall>p\<in>set pre. \<forall>q\<in>set post.
      rtb_account_index p = rtb_account_index q \<longrightarrow> rtb_mint p = rtb_mint q"
  shows "m \<in> tbc_mint ` set (build_token_deltas pre post) \<longleftrightarrow> mint_amount m pre \<noteq> mint_amount m post"
  unfolding build_token_deltas_def by_mint.coalesce_key_iff raw_token_deltas_total [OF assms] by auto

theorem build_token_deltas_mints_witness:
  "''WSOL'' \<in> tbc_mint ` set (build_token_deltas sample_pre sample_post) \<and>
   ''SOL'' \<notin> tbc_mint ` set (build_token_deltas sample_pre sample_post)"
  using build_token_deltas_mints [OF sample_balances_ok] by (simp add: sample_mint_amounts)

text \<open>
  The program ids are sorted, without duplicates, and are the accounts the instructions'
  indices select from the unsplit key list followed by the loaded addresses; an index out of
  range contributes nothing.
\<close>

lemma extract_program_ids_sound:
  "sorted (extract_program_ids ks lw lr ixs) \<and> distinct (extract_program_ids ks lw lr ixs) \<and>
   set (extract_program_ids ks lw lr ixs) =
     {(ks @ lw @ lr) ! i | i. i < length (ks @ lw @ lr) \<and>
        (\<exists>ix\<in>set ixs. unat (ri_program_id_index ix) = i)}"
proof -
  let ?f = "\<lambda>ix. let i = unat (ri_program_id_index ix)
                in if i < length (ks @ lw @ lr) then Some ((ks @ lw @ lr) ! i) else None"
  let ?ids = "sort (List.map_filter ?f ixs)"
  have "set (List.map_filter ?f ixs) = {(ks @ lw @ lr) ! i | i. i < length (ks @ lw @ lr) \<and>
        (\<exists>ix\<in>set ixs. unat (ri_program_id_index ix) = i)}"
    by (induction ixs) (auto simp: List.map_filter_simps Let_def)
  moreover have "extract_program_ids ks lw lr ixs = remdups_adj ?ids"
    by (simp only: extract_program_ids_def Let_def)
  moreover have "sorted (remdups_adj ?ids)" "distinct (remdups_adj ?ids)"
    by (simp_all add: sorted_remdups_adj distinct_remdups_adj_sorted)
  ultimately show ?thesis by simp
qed

text \<open>
  The \<open>i128\<close> accumulator of the netting loop never overflows: over fewer than \<open>2 ^ 63\<close> rows of
  \<open>u64\<close> amounts, every net it ever holds is below \<open>2 ^ 127\<close> in absolute value.
\<close>

lemma net_accumulator_fits_i128:
  assumes "length deltas < 2 ^ 63"
    and "\<forall>d\<in>set deltas. tbc_pre_amount d \<le> u64_max \<and> tbc_post_amount d \<le> u64_max"
    and "fst (fold net_delta_step (take k deltas) (Map.empty, [])) mint = Some (n, dec)"
  shows "\<bar>n\<bar> < 2 ^ 127"
proof -
  let ?rs = "take k deltas"
  have n: "n = by_mint.total mint ?rs"
    using assms(3) by (simp add: by_mint.fold_step split: if_splits)
  have "\<bar>tbc_delta d\<bar> < 2 ^ 64" if "d \<in> set ?rs" for d
    using that assms(2) set_take_subset [of k deltas] by (fastforce simp: tbc_delta_def)
  then have "\<bar>n\<bar> \<le> int (length ?rs) * 2 ^ 64"
    unfolding n by (rule by_mint.total_bound)
  also have "\<dots> < 2 ^ 63 * 2 ^ 64" using assms(1) by simp
  finally show ?thesis by simp
qed

lemma net_accumulator_fits_i128_example:
  "fst (fold net_delta_step (take 1 [net_change ''M'' (-5) 6]) (Map.empty, [])) ''M'' = Some (-5, 6) \<and>
   \<bar>-5::int\<bar> < 2 ^ 127"
proof -
  have a: "fst (fold net_delta_step (take 1 [net_change ''M'' (-5) 6]) (Map.empty, [])) ''M'' = Some (-5, 6)"
    by (simp add: net_delta_step_def net_change_sides net_change_delta)
  have "\<forall>d\<in>set [net_change ''M'' (-5) 6]. tbc_pre_amount d \<le> u64_max \<and> tbc_post_amount d \<le> u64_max"
    by (simp add: net_change_def i128_as_u64_def)
  then show ?thesis using net_accumulator_fits_i128 [OF _ _ a] a by simp
qed

text \<open>
  The message test for missing storage is a plain substring test, so an RPC error about a
  malformed request can be taken for a skipped slot.
\<close>

lemma malformed_request_taken_for_skipped_slot:
  "decode_get_block_json sample_api 7
     (SObj [(''error'', SObj [(''code'', SInt (-32602)),
        (''message'', SStr ''Invalid params: missing field commitment'')])]) = Some (Inl SlotSkipped)"
  by code_simp

end
