(* ===== verification/Rounding.thy ===== *)
theory Rounding
  imports Prelude
begin

section \<open>Rounding to IEEE 754 binary64\<close>

text \<open>
  Rust's \<open>f64\<close> is IEEE 754 binary64 with round to nearest, ties to even.  This theory defines
  the rounding of an exact rational result to the format with an unbounded upper exponent:
  \<open>rnd x\<close> is the multiple of the quantum of \<open>x\<close> nearest to \<open>x\<close>, where the quantum is \<open>2 ^ -52\<close>
  of the binade of \<open>x\<close>, and never below the subnormal spacing \<open>2 ^ -1074\<close>.  Overflow, the two
  zeros, infinities and NaN are added in theory \<open>F64\<close>.  All definitions evaluate.
\<close>

function ilog_int :: "int \<Rightarrow> int" where
  "ilog_int n = (if n \<le> 1 then 0 else ilog_int (n div 2) + 1)"
  by pat_completeness auto
termination by (relation "measure nat") auto

declare ilog_int.simps [simp del]

definition ilog2 :: "rat \<Rightarrow> int" where
  "ilog2 x =
     (let (a, b) = quotient_of x; k = ilog_int a - ilog_int b
      in if 2 powi k \<le> x then k else k - 1)"

definition rhe :: "rat \<Rightarrow> int" where
  "rhe z =
     (let f = \<lfloor>z\<rfloor>; d = z - of_int f
      in if d < 1/2 then f else if 1/2 < d then f + 1 else if even f then f else f + 1)"

definition quantum :: "rat \<Rightarrow> int" where
  "quantum x = max (ilog2 \<bar>x\<bar> - 52) (-1074)"

definition rnd :: "rat \<Rightarrow> rat" where
  "rnd x = (if x = 0 then 0 else of_int (rhe (x / 2 powi quantum x)) * 2 powi quantum x)"

lemma p2_pos [simp]: "(0::rat) < 2 powi k"
  by (simp add: zero_less_power_int)

lemma p2_mono [simp]: "(2::rat) powi a \<le> 2 powi b \<longleftrightarrow> a \<le> b"
proof
  assume "a \<le> b" then show "(2::rat) powi a \<le> 2 powi b" by (rule power_int_increasing) simp
next
  assume *: "(2::rat) powi a \<le> 2 powi b"
  show "a \<le> b"
  proof (rule ccontr)
    assume "\<not> a \<le> b"
    then have "(2::rat) powi b < 2 powi a" by (intro power_int_strict_increasing) simp_all
    with * show False by simp
  qed
qed

lemma p2_strict [simp]: "(2::rat) powi a < 2 powi b \<longleftrightarrow> a < b"
  by (simp add: less_le_not_le)

lemma p2_add: "(2::rat) powi (a + b) = 2 powi a * 2 powi b"
  by (simp add: power_int_add)

lemma p2_Suc: "(2::rat) powi (a + 1) = 2 * 2 powi a"
  by (simp add: p2_add)

lemma p2_int: "0 \<le> k \<Longrightarrow> \<exists>n::int. 0 < n \<and> (2::rat) powi k = of_int n"
  by (rule exI [of _ "2 ^ nat k"]) (simp add: power_int_def)

lemma ilog_int_nonneg [simp]: "0 \<le> ilog_int n"
proof (induction n rule: ilog_int.induct)
  case (1 n)
  then show ?case by (subst ilog_int.simps) auto
qed

lemma ilog_int_bounds:
  "1 \<le> n \<Longrightarrow> (2::rat) powi ilog_int n \<le> of_int n \<and> of_int n < (2::rat) powi (ilog_int n + 1)"
proof (induction n rule: ilog_int.induct)
  case (1 n)
  show ?case
  proof (cases "n \<le> 1")
    case True
    with 1 show ?thesis by (simp add: ilog_int.simps)
  next
    case False
    let ?h = "n div 2"
    from False 1 have lo: "(2::rat) powi ilog_int ?h \<le> of_int ?h"
      and hi: "of_int ?h < (2::rat) powi (ilog_int ?h + 1)" by auto
    obtain m :: int where m: "(2::rat) powi (ilog_int ?h + 1) = of_int m"
      using p2_int [of "ilog_int ?h + 1"] ilog_int_nonneg [of ?h] by auto
    have hm: "?h < m" using hi unfolding m by (simp only: of_int_less_iff)
    have "2 * ?h \<le> n" "n < 2 * m" using hm by linarith+
    then have "(of_int (2 * ?h) :: rat) \<le> of_int n" "(of_int n :: rat) < of_int (2 * m)"
      by (simp_all only: of_int_le_iff of_int_less_iff)
    then have "2 * (of_int ?h :: rat) \<le> of_int n" "(of_int n :: rat) < 2 * 2 powi (ilog_int ?h + 1)"
      unfolding m by simp_all
    then show ?thesis using False lo unfolding ilog_int.simps [of n]
      by (simp add: p2_add)
  qed
qed

lemma ilog2_bounds:
  assumes "0 < x"
  shows "2 powi ilog2 x \<le> x" and "x < 2 powi (ilog2 x + 1)"
proof -
  obtain a b where q: "quotient_of x = (a, b)" by fastforce
  have b0: "0 < b" using quotient_of_denom_pos [OF q] .
  have x: "x = of_int a / of_int b" using quotient_of_div [OF q] .
  have a0: "0 < a" using assms b0 unfolding x by (simp add: zero_less_divide_iff)
  define p where "p = ilog_int a + 1"
  define q' where "q' = ilog_int b + 1"
  have A: "2 powi (p - 1) \<le> (of_int a :: rat)" "(of_int a :: rat) < 2 powi p"
    using ilog_int_bounds [of a] a0 by (simp_all add: p_def)
  have B: "2 powi (q' - 1) \<le> (of_int b :: rat)" "(of_int b :: rat) < 2 powi q'"
    using ilog_int_bounds [of b] b0 by (simp_all add: q'_def)
  have b0': "(0::rat) < of_int b" using b0 by simp
  have up: "x < 2 powi (p - q' + 1)"
  proof -
    have "of_int a < (2::rat) powi (p - q' + 1) * 2 powi (q' - 1)"
      using A(2) by (simp flip: p2_add)
    also have "\<dots> \<le> 2 powi (p - q' + 1) * of_int b"
      using B(1) by (intro mult_left_mono) simp_all
    finally show ?thesis unfolding x using b0' by (simp add: pos_divide_less_eq)
  qed
  have lo: "2 powi (p - q' - 1) \<le> x"
  proof -
    have "2 powi (p - q' - 1) * of_int b \<le> (2::rat) powi (p - q' - 1) * 2 powi q'"
      using B(2) by (intro mult_left_mono) simp_all
    also have "\<dots> \<le> of_int a" using A(1) by (simp flip: p2_add)
    finally show ?thesis unfolding x using b0' by (simp add: pos_le_divide_eq)
  qed
  have i: "ilog2 x = (if 2 powi (p - q') \<le> x then p - q' else p - q' - 1)"
    unfolding ilog2_def q by (simp add: p_def q'_def)
  show "2 powi ilog2 x \<le> x" using lo by (simp add: i)
  show "x < 2 powi (ilog2 x + 1)" using up by (simp add: i)
qed

lemma ilog2_unique:
  assumes "2 powi k \<le> x" and "x < 2 powi (k + 1)"
  shows "ilog2 x = k"
proof -
  have x: "0 < x" using assms(1) p2_pos [of k] by linarith
  have "2 powi ilog2 x < (2::rat) powi (k + 1)" using ilog2_bounds [OF x] assms by linarith
  moreover have "2 powi k < (2::rat) powi (ilog2 x + 1)" using ilog2_bounds [OF x] assms by linarith
  ultimately show ?thesis by simp
qed

lemma ilog2_mono: "0 < x \<Longrightarrow> x \<le> y \<Longrightarrow> ilog2 x \<le> ilog2 y"
proof -
  assume x: "0 < x" "x \<le> y"
  have "2 powi ilog2 x < (2::rat) powi (ilog2 y + 1)"
    using ilog2_bounds [of x] ilog2_bounds [of y] x by linarith
  then show ?thesis by simp
qed

lemma rhe_int [simp]: "rhe (of_int n) = n"
  by (simp add: rhe_def)

lemma rhe_floor: "\<lfloor>z\<rfloor> \<le> rhe z" "rhe z \<le> \<lfloor>z\<rfloor> + 1"
  by (simp_all add: rhe_def Let_def)

lemma rhe_mono: "x \<le> y \<Longrightarrow> rhe x \<le> rhe y"
proof -
  assume xy: "x \<le> y"
  then have f: "\<lfloor>x\<rfloor> \<le> \<lfloor>y\<rfloor>" by (rule floor_mono)
  show ?thesis
  proof (cases "\<lfloor>x\<rfloor> = \<lfloor>y\<rfloor>")
    case True
    then show ?thesis using xy by (auto simp: rhe_def Let_def)
  next
    case False
    with f have "\<lfloor>x\<rfloor> + 1 \<le> \<lfloor>y\<rfloor>" by simp
    then show ?thesis using rhe_floor [of x] rhe_floor [of y] by linarith
  qed
qed

lemma rhe_neg: "rhe (- z) = - rhe z"
proof (cases "z = of_int \<lfloor>z\<rfloor>")
  case True
  then have "rhe (- z) = rhe (of_int (- \<lfloor>z\<rfloor>))" by simp
  also have "\<dots> = - \<lfloor>z\<rfloor>" by (simp only: rhe_int)
  also have "\<dots> = - rhe (of_int \<lfloor>z\<rfloor>)" by simp
  finally show ?thesis using True by simp
next
  case False
  have z: "of_int \<lfloor>z\<rfloor> < z" "z < of_int \<lfloor>z\<rfloor> + 1"
    using False of_int_floor_le [of z] by linarith+
  have n: "\<lfloor>- z\<rfloor> = - \<lfloor>z\<rfloor> - 1"
    using z by (intro floor_unique) simp_all
  show ?thesis unfolding rhe_def n Let_def by auto
qed

lemma rhe_err: "\<bar>of_int (rhe z) - z\<bar> \<le> 1/2"
proof -
  have "of_int \<lfloor>z\<rfloor> \<le> z" "z < of_int \<lfloor>z\<rfloor> + 1" by linarith+
  then show ?thesis by (auto simp: rhe_def Let_def abs_le_iff)
qed

lemma rnd_0 [simp]: "rnd 0 = 0"
  by (simp add: rnd_def)

lemma quantum_neg [simp]: "quantum (- x) = quantum x"
  by (simp add: quantum_def)

lemma rnd_neg: "rnd (- x) = - rnd x"
  by (simp add: rnd_def rhe_neg)

text \<open>A multiple of the quantum is its own rounding.\<close>

lemma rnd_exact:
  assumes "x = of_int n * 2 powi k" and "quantum x \<le> k"
  shows "rnd x = x"
proof (cases "x = 0")
  case False
  obtain m :: int where m: "(2::rat) powi (k - quantum x) = of_int m"
    using p2_int [of "k - quantum x"] assms by auto
  have "x = of_int n * (2 powi (k - quantum x) * 2 powi quantum x)"
    unfolding p2_add [symmetric] by (simp add: assms(1))
  then have "x = of_int (n * m) * 2 powi quantum x" by (simp add: m)
  then have d: "x / 2 powi quantum x = of_int (n * m)"
    using p2_pos [of "quantum x"] by (metis less_irrefl nonzero_mult_div_cancel_right)
  show ?thesis using False \<open>x = of_int (n * m) * _\<close> by (simp only: rnd_def d rhe_int if_False)
qed simp

lemma quantum_mono: "0 < x \<Longrightarrow> x \<le> y \<Longrightarrow> quantum x \<le> quantum y"
  using ilog2_mono [of x y] by (simp add: quantum_def)

lemma rnd_p2: "-1074 \<le> k \<Longrightarrow> rnd (2 powi k) = 2 powi k"
  using rnd_exact [of "2 powi k" 1 k] ilog2_unique [of k "2 powi k"] by (simp add: quantum_def)

lemma rnd_nonneg: "0 \<le> x \<Longrightarrow> 0 \<le> rnd x"
  using rhe_mono [of 0 "x / 2 powi quantum x"] rhe_int [of 0] by (simp add: rnd_def)

lemma rnd_mono_pos:
  assumes x: "0 < x" and xy: "x \<le> y"
  shows "rnd x \<le> rnd y"
proof (cases "quantum x = quantum y")
  case True
  have "rhe (x / 2 powi quantum y) \<le> rhe (y / 2 powi quantum y)"
    using xy by (intro rhe_mono divide_right_mono) simp_all
  then show ?thesis using assms True by (simp add: rnd_def)
next
  case False
  with quantum_mono [OF x xy] have q: "quantum x < quantum y" by simp
  then have iy: "ilog2 y - 52 = quantum y" and qx: "-1074 \<le> quantum x"
    and ixy: "ilog2 x + 1 \<le> ilog2 y" and ix: "quantum x \<le> ilog2 y"
    using x xy by (auto simp: quantum_def max_def split: if_splits)
  have y: "0 < y" using x xy by simp
  obtain m :: int where m: "(2::rat) powi (ilog2 y - quantum x) = of_int m"
    using p2_int [of "ilog2 y - quantum x"] ix by auto
  have split: "(2::rat) powi ilog2 y = of_int m * 2 powi quantum x"
    unfolding m [symmetric] by (simp flip: p2_add)
  have "x \<le> 2 powi ilog2 y"
    using ilog2_bounds(2) [OF x] p2_mono [of "ilog2 x + 1" "ilog2 y"] ixy by linarith
  then have "x / 2 powi quantum x \<le> of_int m" by (simp add: split pos_divide_le_eq)
  then have "rhe (x / 2 powi quantum x) \<le> m" using rhe_mono rhe_int by metis
  then have up: "rnd x \<le> 2 powi ilog2 y"
    using x by (simp add: rnd_def split)
  have "2 powi ilog2 y = (of_int (2 ^ 52) :: rat) * 2 powi quantum y"
    using p2_add [of 52 "quantum y"] by (simp flip: iy)
  moreover have "2 powi ilog2 y \<le> y" using ilog2_bounds(1) [OF y] .
  ultimately have "of_int (2 ^ 52) \<le> y / 2 powi quantum y" by (simp add: pos_le_divide_eq)
  then have "2 ^ 52 \<le> rhe (y / 2 powi quantum y)" using rhe_mono rhe_int by metis
  then have "(of_int (2 ^ 52) :: rat) \<le> of_int (rhe (y / 2 powi quantum y))"
    by (simp only: of_int_le_iff)
  then have "of_int (2 ^ 52) * 2 powi quantum y \<le> rnd y"
    using y by (simp add: rnd_def)
  moreover have "2 powi ilog2 y = (of_int (2 ^ 52) :: rat) * 2 powi quantum y" by fact
  ultimately show ?thesis using up by linarith
qed

lemma rnd_mono: "x \<le> y \<Longrightarrow> rnd x \<le> rnd y"
proof -
  assume xy: "x \<le> y"
  consider "0 < x" | "x \<le> 0" "0 \<le> y" | "y < 0" by linarith
  then show ?thesis
  proof cases
    case 1 then show ?thesis using xy by (rule rnd_mono_pos)
  next
    case 2
    then show ?thesis using rnd_nonneg [of "- x"] rnd_nonneg [of y] by (simp add: rnd_neg)
  next
    case 3
    then show ?thesis using rnd_mono_pos [of "- y" "- x"] xy by (simp add: rnd_neg)
  qed
qed


lemma rnd_small:
  assumes x: "x = of_int n * 2 powi k" and n: "\<bar>n\<bar> \<le> 2 ^ 53" and k: "-1074 \<le> k"
  shows "rnd x = x"
proof (cases "n = 0 \<or> \<bar>n\<bar> = 2 ^ 53")
  case True
  have "rnd (2 powi (53 + k)) = 2 powi (53 + k)" using k by (intro rnd_p2) simp
  then have "rnd (2 ^ 53 * 2 powi k) = 2 ^ 53 * 2 powi k" by (simp add: p2_add)
  moreover have "n = 0 \<or> n = 2 ^ 53 \<or> n = - (2 ^ 53)" using True by linarith
  ultimately show ?thesis using rnd_neg [of "2 ^ 53 * 2 powi k"] unfolding x by auto
next
  case False
  then have "1 \<le> \<bar>n\<bar>" "\<bar>n\<bar> < 2 ^ 53" using n by linarith+
  then have "(of_int 1 :: rat) \<le> of_int \<bar>n\<bar>" "(of_int \<bar>n\<bar> :: rat) < of_int (2 ^ 53)"
    by (simp_all only: of_int_le_iff of_int_less_iff)
  then have r: "1 \<le> \<bar>of_int n :: rat\<bar>" "\<bar>of_int n :: rat\<bar> < 2 powi 53" by simp_all
  have ax: "\<bar>x\<bar> = \<bar>of_int n\<bar> * 2 powi k" by (simp add: x abs_mult)
  have "\<bar>x\<bar> < 2 powi (53 + k)"
    unfolding ax p2_add using r(2) by (intro mult_strict_right_mono) simp_all
  moreover have "0 < \<bar>x\<bar>" using r(1) by (auto simp: x)
  ultimately have "(2::rat) powi ilog2 \<bar>x\<bar> < 2 powi (53 + k)"
    using ilog2_bounds(1) [of "\<bar>x\<bar>"] by linarith
  then have "ilog2 \<bar>x\<bar> \<le> 52 + k" by simp
  then have "quantum x \<le> k" using k by (simp add: quantum_def)
  then show ?thesis by (rule rnd_exact [OF x])
qed

lemma rnd_of_int: "\<bar>n\<bar> \<le> 2 ^ 53 \<Longrightarrow> rnd (of_int n) = of_int n"
  using rnd_small [of "of_int n" n 0] by simp

lemma rnd_of_nat: "n \<le> 2 ^ 53 \<Longrightarrow> rnd (of_nat n) = of_nat n"
  using rnd_of_int [of "int n"] by simp

lemma rnd_numeral: "numeral n \<le> (2 ^ 53 :: int) \<Longrightarrow> rnd (numeral n) = numeral n"
  using rnd_of_int [of "numeral n"] by simp

lemma rnd_1 [simp]: "rnd 1 = 1"
  using rnd_of_int [of 1] by simp

text \<open>Half a unit in the last place.\<close>

lemma rnd_err: "\<bar>rnd x - x\<bar> \<le> 2 powi (quantum x - 1)"
proof (cases "x = 0")
  case False
  let ?q = "2 powi quantum x :: rat"
  have "rnd x - x = (of_int (rhe (x / ?q)) - x / ?q) * ?q"
    using False p2_pos [of "quantum x"] by (simp add: rnd_def field_simps)
  then have "\<bar>rnd x - x\<bar> = \<bar>of_int (rhe (x / ?q)) - x / ?q\<bar> * ?q" by (simp add: abs_mult)
  also have "\<dots> \<le> 1/2 * ?q" using rhe_err by (intro mult_right_mono) simp_all
  finally show ?thesis using p2_Suc [of "quantum x - 1"] by simp
qed simp

lemma rnd_idem: "rnd (rnd x) = rnd x"
proof (cases "x = 0 \<or> rnd x = 0")
  case False
  let ?e = "ilog2 \<bar>x\<bar>" and ?y = "rnd x"
  have x: "0 < \<bar>x\<bar>" using False by simp
  have absr: "\<bar>?y\<bar> = rnd \<bar>x\<bar>"
    using rnd_nonneg [of x] rnd_nonneg [of "- x"] rnd_neg [of x] by (cases "0 \<le> x") simp_all
  show ?thesis
  proof (cases "?e + 1 < -1074")
    case True
    have "rnd \<bar>x\<bar> \<le> rnd (2 powi (-1074))"
      using ilog2_bounds(2) [OF x] p2_mono [of "?e + 1" "-1074"] True by (intro rnd_mono) linarith
    then have le: "\<bar>?y\<bar> \<le> 2 powi (-1074)" using rnd_p2 [of "-1074"] by (simp add: absr)
    have "?y = of_int (rhe (x / 2 powi quantum x)) * 2 powi quantum x" using False by (simp add: rnd_def)
    moreover have "quantum x = -1074" using True by (simp add: quantum_def)
    ultimately have y: "?y = of_int (rhe (x / 2 powi (-1074))) * 2 powi (-1074)" by simp
    have "\<bar>of_int (rhe (x / 2 powi (-1074))) :: rat\<bar> * 2 powi (-1074) \<le> 1 * 2 powi (-1074)"
      using le unfolding y by (simp add: abs_mult)
    then have "\<bar>of_int (rhe (x / 2 powi (-1074))) :: rat\<bar> \<le> of_int 1"
      by (simp only: mult_le_cancel_right) simp
    then have "\<bar>rhe (x / 2 powi (-1074))\<bar> \<le> 1" by (simp only: of_int_abs [symmetric] of_int_le_iff)
    then show ?thesis using rnd_small [OF y] by simp
  next
    case False
    note e = this
    have "rnd \<bar>x\<bar> \<le> rnd (2 powi (?e + 1))"
      using ilog2_bounds(2) [OF x] by (intro rnd_mono) simp
    then have le: "\<bar>?y\<bar> \<le> 2 powi (?e + 1)" using rnd_p2 [of "?e + 1"] e by (simp add: absr)
    show ?thesis
    proof (cases "\<bar>?y\<bar> = 2 powi (?e + 1)")
      case True
      then have "?y = 2 powi (?e + 1) \<or> ?y = - (2 powi (?e + 1))" by linarith
      then show ?thesis using rnd_p2 [of "?e + 1"] rnd_neg [of "2 powi (?e + 1)"] e by auto
    next
      case False
      with le have "\<bar>?y\<bar> < 2 powi (?e + 1)" by simp
      moreover have "0 < \<bar>?y\<bar>" using \<open>\<not> (x = 0 \<or> rnd x = 0)\<close> by simp
      ultimately have "(2::rat) powi ilog2 \<bar>?y\<bar> < 2 powi (?e + 1)"
        using ilog2_bounds(1) [of "\<bar>?y\<bar>"] by linarith
      then have "quantum ?y \<le> quantum x" by (simp add: quantum_def)
      moreover have "?y = of_int (rhe (x / 2 powi quantum x)) * 2 powi quantum x"
        using x by (simp add: rnd_def)
      ultimately show ?thesis by (intro rnd_exact)
    qed
  qed
qed auto

subsection \<open>The contract of a rounding\<close>

text \<open>
  What the floating-point lemmas need of the rounding function: it is monotone, odd and fixes
  the powers of two of the format.  Everything about magnitudes and signs follows from that.
\<close>

locale rounding =
  fixes fl :: "rat \<Rightarrow> rat"
  assumes fl_mono: "x \<le> y \<Longrightarrow> fl x \<le> fl y"
    and fl_neg: "fl (- x) = - fl x"
    and fl_p2: "-1074 \<le> k \<Longrightarrow> fl (2 powi k) = 2 powi k"
begin

lemma fl_zero: "fl 0 = 0"
  using fl_neg [of 0] by simp

lemma fl_nonneg: "0 \<le> x \<Longrightarrow> 0 \<le> fl x"
  using fl_mono [of 0 x] by (simp add: fl_zero)

lemma fl_nonpos: "x \<le> 0 \<Longrightarrow> fl x \<le> 0"
  using fl_mono [of x 0] by (simp add: fl_zero)

lemma fl_abs: "\<bar>fl x\<bar> = fl \<bar>x\<bar>"
  using fl_nonneg [of x] fl_nonneg [of "- x"] fl_neg [of x] by (cases "0 \<le> x") simp_all

lemma fl_le_p2: "-1074 \<le> k \<Longrightarrow> x \<le> 2 powi k \<Longrightarrow> fl x \<le> 2 powi k"
  using fl_mono [of x "2 powi k"] by (simp add: fl_p2)

lemma fl_ge_p2: "-1074 \<le> k \<Longrightarrow> 2 powi k \<le> x \<Longrightarrow> 2 powi k \<le> fl x"
  using fl_mono [of "2 powi k" x] by (simp add: fl_p2)

lemma fl_abs_le_p2: "-1074 \<le> k \<Longrightarrow> \<bar>x\<bar> \<le> 2 powi k \<Longrightarrow> \<bar>fl x\<bar> \<le> 2 powi k"
  unfolding fl_abs by (rule fl_le_p2)

lemma fl_pos: "-1074 \<le> k \<Longrightarrow> 2 powi k \<le> x \<Longrightarrow> 0 < fl x"
  using fl_ge_p2 [of k x] p2_pos [of k] by linarith

end

interpretation rnd: rounding rnd
  by unfold_locales (simp_all add: rnd_mono rnd_neg rnd_p2)

end
