(* ===== verification/F64.thy ===== *)
theory F64
  imports Rounding
begin

section \<open>Binary64 arithmetic\<close>

text \<open>
  The value type of Rust's \<open>f64\<close> and the operations the program uses on it: \<open>+ - * /\<close>,
  comparison, \<open>abs\<close>, \<open>max\<close>, \<open>min\<close>, integer casts, decimal literals and \<open>powi\<close>.  Each arithmetic
  operation is the exact rational operation followed by one rounding; the special cases (NaN,
  infinities, signed zeros) are those of IEEE 754.  A finite non-zero value is \<open>FNum r\<close>, a
  Boolean argument is a sign bit.
\<close>

datatype f64 = FNaN | FInf bool | FZero bool | FNum rat

fun f64_sign :: "f64 \<Rightarrow> bool" where
  "f64_sign (FInf s) = s"
| "f64_sign (FZero s) = s"
| "f64_sign (FNum r) = (r < 0)"
| "f64_sign FNaN = False"

fun f64_val :: "f64 \<Rightarrow> rat" where
  "f64_val (FNum r) = r"
| "f64_val _ = 0"

fun f64_finite :: "f64 \<Rightarrow> bool" where
  "f64_finite (FNum _) = True"
| "f64_finite (FZero _) = True"
| "f64_finite _ = False"

definition f64_round :: "bool \<Rightarrow> rat \<Rightarrow> f64" where
  "f64_round s r =
     (let y = rnd r
      in if y = 0 then FZero s else if 1024 \<le> ilog2 \<bar>y\<bar> then FInf (y < 0) else FNum y)"

fun f64_neg :: "f64 \<Rightarrow> f64" where
  "f64_neg FNaN = FNaN"
| "f64_neg (FInf s) = FInf (\<not> s)"
| "f64_neg (FZero s) = FZero (\<not> s)"
| "f64_neg (FNum r) = FNum (- r)"

fun f64_abs :: "f64 \<Rightarrow> f64" where
  "f64_abs FNaN = FNaN"
| "f64_abs (FInf s) = FInf False"
| "f64_abs (FZero s) = FZero False"
| "f64_abs (FNum r) = FNum \<bar>r\<bar>"

definition f64_add :: "f64 \<Rightarrow> f64 \<Rightarrow> f64" where
  "f64_add x y =
     (case (x, y) of
        (FNaN, _) \<Rightarrow> FNaN
      | (_, FNaN) \<Rightarrow> FNaN
      | (FInf s, FInf t) \<Rightarrow> if s = t then FInf s else FNaN
      | (FInf s, _) \<Rightarrow> FInf s
      | (_, FInf t) \<Rightarrow> FInf t
      | _ \<Rightarrow> f64_round (f64_sign x \<and> f64_sign y) (f64_val x + f64_val y))"

definition f64_sub :: "f64 \<Rightarrow> f64 \<Rightarrow> f64" where
  "f64_sub x y = f64_add x (f64_neg y)"

definition f64_mul :: "f64 \<Rightarrow> f64 \<Rightarrow> f64" where
  "f64_mul x y =
     (let s = (f64_sign x \<noteq> f64_sign y)
      in case (x, y) of
        (FNaN, _) \<Rightarrow> FNaN
      | (_, FNaN) \<Rightarrow> FNaN
      | (FInf _, FZero _) \<Rightarrow> FNaN
      | (FZero _, FInf _) \<Rightarrow> FNaN
      | (FInf _, _) \<Rightarrow> FInf s
      | (_, FInf _) \<Rightarrow> FInf s
      | _ \<Rightarrow> f64_round s (f64_val x * f64_val y))"

definition f64_div :: "f64 \<Rightarrow> f64 \<Rightarrow> f64" where
  "f64_div x y =
     (let s = (f64_sign x \<noteq> f64_sign y)
      in case (x, y) of
        (FNaN, _) \<Rightarrow> FNaN
      | (_, FNaN) \<Rightarrow> FNaN
      | (FInf _, FInf _) \<Rightarrow> FNaN
      | (FZero _, FZero _) \<Rightarrow> FNaN
      | (FInf _, _) \<Rightarrow> FInf s
      | (_, FInf _) \<Rightarrow> FZero s
      | (_, FZero _) \<Rightarrow> FInf s
      | _ \<Rightarrow> f64_round s (f64_val x / f64_val y))"

fun f64_le :: "f64 \<Rightarrow> f64 \<Rightarrow> bool" where
  "f64_le FNaN _ = False"
| "f64_le _ FNaN = False"
| "f64_le (FInf s) (FInf t) = (s \<or> \<not> t)"
| "f64_le (FInf s) _ = s"
| "f64_le _ (FInf t) = (\<not> t)"
| "f64_le x y = (f64_val x \<le> f64_val y)"

definition f64_ge :: "f64 \<Rightarrow> f64 \<Rightarrow> bool" where
  "f64_ge x y = f64_le y x"

definition f64_eq :: "f64 \<Rightarrow> f64 \<Rightarrow> bool" where
  "f64_eq x y = (f64_le x y \<and> f64_le y x)"

definition f64_lt :: "f64 \<Rightarrow> f64 \<Rightarrow> bool" where
  "f64_lt x y = (f64_le x y \<and> \<not> f64_le y x)"

definition f64_max :: "f64 \<Rightarrow> f64 \<Rightarrow> f64" where
  "f64_max x y = (if x = FNaN then y else if y = FNaN then x else if f64_lt x y then y else x)"

definition f64_min :: "f64 \<Rightarrow> f64 \<Rightarrow> f64" where
  "f64_min x y = (if x = FNaN then y else if y = FNaN then x else if f64_lt y x then y else x)"

definition f64_lit :: "rat \<Rightarrow> f64" where
  "f64_lit r = f64_round (r < 0) r"

definition f64_of_nat :: "nat \<Rightarrow> f64" where
  "f64_of_nat n = f64_round False (of_nat n)"

definition f64_to_u64 :: "f64 \<Rightarrow> nat" where
  "f64_to_u64 x =
     (case x of
        FNaN \<Rightarrow> 0
      | FInf s \<Rightarrow> if s then 0 else 2 ^ 64 - 1
      | FZero _ \<Rightarrow> 0
      | FNum r \<Rightarrow> if r \<le> 0 then 0 else min (nat \<lfloor>r\<rfloor>) (2 ^ 64 - 1))"

definition f64_MAX :: f64 where
  "f64_MAX = FNum ((2 ^ 53 - 1) * 2 ^ 971)"

definition f64_MIN :: f64 where
  "f64_MIN = FNum (- ((2 ^ 53 - 1) * 2 ^ 971))"

fun powi_loop :: "nat \<Rightarrow> f64 \<Rightarrow> f64 \<Rightarrow> f64" where
  "powi_loop b a r =
     (let r' = (if odd b then f64_mul r a else r); b' = b div 2
      in if b' = 0 then r' else powi_loop b' (f64_mul a a) r')"

declare powi_loop.simps [simp del]

definition f64_powi :: "f64 \<Rightarrow> nat \<Rightarrow> f64" where
  "f64_powi a n = powi_loop n a (FNum 1)"

subsection \<open>Finite values\<close>

lemma f64_round_finite:
  assumes "\<bar>r\<bar> \<le> 2 powi k" and "k \<le> 1023" and "-1074 \<le> k"
  shows "f64_finite (f64_round s r)" and "f64_val (f64_round s r) = rnd r"
proof -
  have le: "\<bar>rnd r\<bar> \<le> 2 powi k" using assms by (intro rnd.fl_abs_le_p2)
  have "ilog2 \<bar>rnd r\<bar> < 1024" if "rnd r \<noteq> 0"
  proof -
    have "2 powi ilog2 \<bar>rnd r\<bar> \<le> (2::rat) powi k"
      using ilog2_bounds(1) [of "\<bar>rnd r\<bar>"] that le by linarith
    then show ?thesis using assms(2) by simp
  qed
  then show "f64_finite (f64_round s r)" and "f64_val (f64_round s r) = rnd r"
    unfolding f64_round_def Let_def by (cases "rnd r = 0"; simp)+
qed

lemma f64_finite_cases:
  assumes "f64_finite x"
  obtains (zero) s where "x = FZero s" | (num) r where "x = FNum r"
  using assms by (cases x) auto

lemma f64_add_fin [f64_simps]:
  "f64_finite x \<Longrightarrow> f64_finite y \<Longrightarrow>
     f64_add x y = f64_round (f64_sign x \<and> f64_sign y) (f64_val x + f64_val y)"
  by (cases x; cases y) (simp_all add: f64_add_def)

lemma f64_neg_fin [simp]:
  "f64_finite (f64_neg x) = f64_finite x" "f64_val (f64_neg x) = - f64_val x"
  by (cases x; simp)+

lemma f64_abs_fin [simp]:
  "f64_finite (f64_abs x) = f64_finite x" "f64_val (f64_abs x) = \<bar>f64_val x\<bar>"
  by (cases x; simp)+

lemma f64_sub_fin [f64_simps]:
  "f64_finite x \<Longrightarrow> f64_finite y \<Longrightarrow>
     f64_sub x y = f64_round (f64_sign x \<and> f64_sign (f64_neg y)) (f64_val x - f64_val y)"
  by (simp add: f64_sub_def f64_add_fin)

lemma f64_mul_fin [f64_simps]:
  "f64_finite x \<Longrightarrow> f64_finite y \<Longrightarrow>
     f64_mul x y = f64_round (f64_sign x \<noteq> f64_sign y) (f64_val x * f64_val y)"
  by (cases x; cases y) (simp_all add: f64_mul_def)

lemma f64_div_fin [f64_simps]:
  "f64_finite x \<Longrightarrow> f64_finite y \<Longrightarrow> f64_val y \<noteq> 0 \<Longrightarrow>
     f64_div x y = f64_round (f64_sign x \<noteq> f64_sign y) (f64_val x / f64_val y)"
  by (cases x; cases y) (simp_all add: f64_div_def)

lemma f64_le_fin [f64_simps]:
  "f64_finite x \<Longrightarrow> f64_finite y \<Longrightarrow> f64_le x y \<longleftrightarrow> f64_val x \<le> f64_val y"
  by (cases x; cases y) simp_all

lemma f64_lt_fin [f64_simps]:
  "f64_finite x \<Longrightarrow> f64_finite y \<Longrightarrow> f64_lt x y \<longleftrightarrow> f64_val x < f64_val y"
  by (auto simp: f64_lt_def f64_le_fin)

lemma f64_ge_fin [f64_simps]:
  "f64_finite x \<Longrightarrow> f64_finite y \<Longrightarrow> f64_ge x y \<longleftrightarrow> f64_val y \<le> f64_val x"
  by (simp add: f64_ge_def f64_le_fin)

lemma f64_eq_fin [f64_simps]:
  "f64_finite x \<Longrightarrow> f64_finite y \<Longrightarrow> f64_eq x y \<longleftrightarrow> f64_val x = f64_val y"
  by (auto simp: f64_eq_def f64_le_fin)

lemma f64_finite_not_nan [simp]: "f64_finite x \<Longrightarrow> x \<noteq> FNaN"
  by auto

lemma f64_max_fin:
  assumes "f64_finite x" and "f64_finite y"
  shows "f64_finite (f64_max x y)" and "f64_val (f64_max x y) = max (f64_val x) (f64_val y)"
  using assms by (auto simp: f64_max_def f64_lt_fin)

lemma f64_min_fin:
  assumes "f64_finite x" and "f64_finite y"
  shows "f64_finite (f64_min x y)" and "f64_val (f64_min x y) = min (f64_val x) (f64_val y)"
  using assms by (auto simp: f64_min_def f64_lt_fin)

text \<open>Integers: exact up to \<open>2 ^ 53\<close>, monotone and finite for every \<open>u64\<close>.\<close>

lemma of_nat_le_p2: "n \<le> 2 ^ j \<Longrightarrow> (of_nat n :: rat) \<le> 2 powi int j"
  unfolding power_int_of_nat using of_nat_le_iff [of n "2 ^ j", where ?'a = rat] by simp

lemma f64_of_nat_fin:
  assumes "n \<le> 2 ^ 64"
  shows "f64_finite (f64_of_nat n)" and "f64_val (f64_of_nat n) = rnd (of_nat n)"
  using f64_round_finite [of "of_nat n" 64 False] of_nat_le_p2 [OF assms]
  by (simp_all add: f64_of_nat_def)

lemma f64_of_nat_exact: "n \<le> 2 ^ 53 \<Longrightarrow> f64_val (f64_of_nat n) = of_nat n"
  using f64_of_nat_fin(2) [of n] by (simp add: rnd_of_nat)

lemma rnd_of_nat_le: "n \<le> 2 ^ j \<Longrightarrow> rnd (of_nat n) \<le> 2 powi int j"
  using rnd.fl_le_p2 [of "int j" "of_nat n"] of_nat_le_p2 [of n j] by simp

lemma rnd_of_nat_ge1: "1 \<le> n \<Longrightarrow> 1 \<le> rnd (of_nat n)"
  using rnd.fl_ge_p2 [of 0 "of_nat n"] by simp

subsection \<open>Powers of ten\<close>

text \<open>
  The square-and-multiply loop keeps finite values that are at least one: with base at most
  \<open>2 ^ p\<close>, accumulator at most \<open>2 ^ s\<close> and \<open>n < 2 ^ k\<close> iterations' bits left, the result is at
  most \<open>2 ^ (s + (2 ^ k - 1) p)\<close>.
\<close>

lemma f64_mul_bounded:
  assumes x: "f64_finite x" "1 \<le> f64_val x" "f64_val x \<le> 2 powi int p"
    and y: "f64_finite y" "1 \<le> f64_val y" "f64_val y \<le> 2 powi int q"
    and pq: "p + q \<le> 1023"
  shows "f64_finite (f64_mul x y)" and "1 \<le> f64_val (f64_mul x y)"
    and "f64_val (f64_mul x y) \<le> 2 powi int (p + q)"
proof -
  let ?r = "f64_val x * f64_val y"
  have r: "1 \<le> ?r" using mult_mono [of 1 "f64_val x" 1 "f64_val y"] x y by simp
  have "?r \<le> 2 powi int p * 2 powi int q" using x y by (intro mult_mono) simp_all
  then have hi: "?r \<le> 2 powi int (p + q)" by (simp add: p2_add)
  have abs: "\<bar>?r\<bar> \<le> 2 powi int (p + q)" using hi r by linarith
  have fin: "f64_finite (f64_mul x y)" "f64_val (f64_mul x y) = rnd ?r"
    unfolding f64_mul_fin [OF x(1) y(1)]
    using f64_round_finite [OF abs] pq by simp_all
  then show "f64_finite (f64_mul x y)" by simp
  show "1 \<le> f64_val (f64_mul x y)" using fin rnd.fl_ge_p2 [of 0 ?r] r by simp
  show "f64_val (f64_mul x y) \<le> 2 powi int (p + q)"
    unfolding fin(2) using hi by (intro rnd.fl_le_p2) simp_all
qed

lemma powi_loop_bounded:
  assumes "n < 2 ^ k" and "f64_finite a" "1 \<le> f64_val a" "f64_val a \<le> 2 powi int p"
    and "f64_finite r" "1 \<le> f64_val r" "f64_val r \<le> 2 powi int s"
    and "s + (2 ^ k - 1) * p \<le> 1023"
  shows "f64_finite (powi_loop n a r) \<and> 1 \<le> f64_val (powi_loop n a r) \<and>
    f64_val (powi_loop n a r) \<le> 2 powi int (s + (2 ^ k - 1) * p)"
  using assms
proof (induction k arbitrary: n a r p s)
  case 0
  then show ?case by (subst (1 2 3) powi_loop.simps) simp
next
  case (Suc k)
  have sz: "(2 ^ Suc k - 1) * p = p + (2 ^ k - 1) * (p + p)"
  proof -
    obtain m where "(2::nat) ^ k = Suc m" by (metis not0_implies_Suc power_not_zero zero_neq_numeral)
    then show ?thesis by simp
  qed
  have ps: "s + p \<le> 1023" using Suc.prems(8) unfolding sz by linarith
  define r' where "r' = (if odd n then f64_mul r a else r)"
  have r': "f64_finite r'" "1 \<le> f64_val r'" "f64_val r' \<le> 2 powi int (s + p)"
  proof -
    have "f64_val r \<le> 2 powi int (s + p)"
      using Suc.prems(7) p2_mono [of "int s" "int (s + p)"] by linarith
    then show "f64_finite r'" "1 \<le> f64_val r'" "f64_val r' \<le> 2 powi int (s + p)"
      using f64_mul_bounded [OF Suc.prems(5-7) Suc.prems(2-4) ps] Suc.prems(5,6)
      by (auto simp: r'_def simp del: power_int_of_nat)
  qed
  have mono: "s + p \<le> s + (2 ^ Suc k - 1) * p" unfolding sz by simp
  show ?case
  proof (cases "n div 2 = 0")
    case True
    have "f64_val r' \<le> 2 powi int (s + (2 ^ Suc k - 1) * p)"
      using r'(3) p2_mono [of "int (s + p)" "int (s + (2 ^ Suc k - 1) * p)"] mono by linarith
    then show ?thesis using r' True
      unfolding powi_loop.simps [of n] Let_def r'_def [symmetric] by simp
  next
    case False
    have k: "0 < k" using Suc.prems(1) False by (cases k) auto
    have pp: "p + p \<le> 1023"
    proof -
      have "(2::nat) ^ 1 \<le> 2 ^ k" using k by (intro power_increasing) simp_all
      then have "(1::nat) \<le> 2 ^ k - 1" by simp
      then have "p + p \<le> (2 ^ k - 1) * (p + p)" by (cases "2 ^ k - (1::nat)") simp_all
      then show ?thesis using Suc.prems(8) unfolding sz by linarith
    qed
    have "s + p + (2 ^ k - 1) * (p + p) \<le> 1023" using Suc.prems(8) unfolding sz by simp
    moreover have "n div 2 < 2 ^ k" using Suc.prems(1) by simp
    ultimately show ?thesis
      using Suc.IH [of "n div 2" "f64_mul a a" "p + p" r' "s + p"] False r'
        f64_mul_bounded [OF Suc.prems(2-4) Suc.prems(2-4) pp]
      unfolding powi_loop.simps [of n] Let_def r'_def [symmetric] sz
      by (simp add: add.assoc)
  qed
qed

lemma f64_round_int:
  assumes "n \<noteq> 0" and "\<bar>n\<bar> \<le> 2 ^ 53"
  shows "f64_round s (of_int n) = FNum (of_int n)"
proof -
  have "(of_int \<bar>n\<bar> :: rat) \<le> of_int (2 ^ 53)" using assms(2) by (simp only: of_int_le_iff)
  then have b: "\<bar>of_int n :: rat\<bar> \<le> 2 powi 53" by simp
  have "2 powi ilog2 \<bar>of_int n :: rat\<bar> \<le> (2::rat) powi 53"
    using ilog2_bounds(1) [of "\<bar>of_int n\<bar>"] assms(1) b by simp
  then have "ilog2 \<bar>of_int n :: rat\<bar> \<le> 53" by (simp only: p2_mono)
  then show ?thesis using assms by (simp add: f64_round_def rnd_of_int)
qed

lemma f64_round_numeral:
  "numeral n \<le> (2 ^ 53 :: int) \<Longrightarrow> f64_round s (numeral n) = FNum (numeral n)"
  using f64_round_int [of "numeral n" s] by simp

lemma f64_mul_numeral:
  "numeral m * numeral n \<le> (2 ^ 53 :: int) \<Longrightarrow>
     f64_mul (FNum (numeral m)) (FNum (numeral n)) = FNum (numeral m * numeral n)"
  using f64_round_numeral [of "m * n" False] by (simp add: f64_mul_def)

lemma f64_mul_one_numeral:
  "numeral n \<le> (2 ^ 53 :: int) \<Longrightarrow> f64_mul (FNum 1) (FNum (numeral n)) = FNum (numeral n)"
  using f64_round_numeral [of n False] by (simp add: f64_mul_def)

lemma f64_lit_10: "f64_lit 10 = FNum 10"
  by (simp add: f64_lit_def f64_round_numeral)

text \<open>
  \<open>10f64.powi(d)\<close> for a \<open>u8\<close> number of decimals: after three exact steps the base is \<open>10 ^ 8\<close>
  and five bits of the exponent are left.
\<close>

lemma powi10_bounded:
  assumes "d < 256"
  shows "f64_finite (f64_powi (f64_lit 10) d)" and "1 \<le> f64_val (f64_powi (f64_lit 10) d)"
    and "f64_val (f64_powi (f64_lit 10) d) \<le> 2 powi 861"
proof -
  let ?P = "\<lambda>v. f64_finite v \<and> 1 \<le> f64_val v \<and> f64_val v \<le> 2 powi 861"
  have small: "?P (FNum r)" if "1 \<le> r" "r \<le> 10000000" for r
    using that p2_mono [of 24 861] by (simp del: p2_mono)
  have tail: "?P (powi_loop n (FNum 100000000) (FNum r))" if "n < 2 ^ 5" "1 \<le> r" "r \<le> 10000000" for n r
    using powi_loop_bounded [OF that(1), of "FNum 100000000" 27 "FNum r" 24] that by simp
  note mul = f64_mul_numeral f64_mul_one_numeral
  have "?P (powi_loop d (FNum 10) (FNum 1))"
    using assms small tail
    by (subst (1 2 3) powi_loop.simps; subst (1 2 3) powi_loop.simps; subst (1 2 3) powi_loop.simps)
       (simp add: Let_def mul div_mult2_eq [symmetric])
  then show "f64_finite (f64_powi (f64_lit 10) d)" and "1 \<le> f64_val (f64_powi (f64_lit 10) d)"
    and "f64_val (f64_powi (f64_lit 10) d) \<le> 2 powi 861"
    by (simp_all add: f64_powi_def f64_lit_10)
qed

end
