(* ===== verification/Ohlcv.thy ===== *)
theory Ohlcv
  imports F64
begin

section \<open>Inferred trades and candles\<close>

text \<open>
  \<open>crates/ohlcv/src/lib.rs\<close>: prices are inferred from opposing token and wrapped-SOL deltas of
  one transaction and aggregated into candles.  Amounts are \<open>u64\<close>, times \<open>i64\<close>; all arithmetic
  on prices is the binary64 arithmetic of theory \<open>F64\<close>.
\<close>

definition WSOL_MINT :: string where
  "WSOL_MINT = ''So11111111111111111111111111111111111111112''"

definition DUST_THRESHOLD_SOL :: f64 where
  "DUST_THRESHOLD_SOL = f64_lit (5 / 10000)"

record token_delta =
  td_mint :: string
  td_pre_amount :: nat
  td_post_amount :: nat
  td_decimals :: u8

definition delta_ui :: "token_delta \<Rightarrow> f64" where
  "delta_ui d =
     f64_div (f64_sub (f64_of_nat (td_post_amount d)) (f64_of_nat (td_pre_amount d)))
             (f64_powi (f64_lit 10) (unat (td_decimals d)))"

record tx_snapshot =
  ts_signature :: string
  ts_block_time :: int
  ts_token_deltas :: "token_delta list"

record inferred_trade =
  it_signature :: string
  it_block_time :: int
  it_mint :: string
  it_price_in_sol :: f64
  it_volume_sol :: f64

subsection \<open>Trades\<close>

definition infer_trade :: "tx_snapshot \<Rightarrow> f64 \<Rightarrow> token_delta \<Rightarrow> inferred_trade option" where
  "infer_trade tx wsol_delta d =
     (if td_mint d = WSOL_MINT then None
      else let token_delta = delta_ui d
           in if f64_eq token_delta (f64_lit 0) then None
              else if f64_lt (f64_lit 0) token_delta = f64_lt (f64_lit 0) wsol_delta then None
              else let volume_sol = f64_abs wsol_delta
                   in if f64_lt volume_sol DUST_THRESHOLD_SOL then None
                      else Some \<lparr>it_signature = ts_signature tx,
                                 it_block_time = ts_block_time tx,
                                 it_mint = td_mint d,
                                 it_price_in_sol = f64_div volume_sol (f64_abs token_delta),
                                 it_volume_sol = volume_sol\<rparr>)"

definition infer_trades :: "tx_snapshot \<Rightarrow> inferred_trade list" where
  "infer_trades tx =
     (case find (\<lambda>d. td_mint d = WSOL_MINT) (ts_token_deltas tx) of
        None \<Rightarrow> []
      | Some wsol \<Rightarrow>
          if f64_eq (delta_ui wsol) (f64_lit 0) then []
          else List.map_filter (infer_trade tx (delta_ui wsol)) (ts_token_deltas tx))"

subsection \<open>Candles\<close>

record candle =
  cd_bucket_start :: int
  cd_open :: f64
  cd_high :: f64
  cd_low :: f64
  cd_close :: f64
  cd_volume :: f64

text \<open>
  \<open>div_euclid\<close> and the multiplication on \<open>i64\<close>; \<open>None\<close> is division by zero or a result outside
  \<open>i64\<close>.
\<close>

definition in_i64 :: "int \<Rightarrow> bool" where
  "in_i64 n \<longleftrightarrow> i64_min \<le> n \<and> n \<le> i64_max"

definition div_euclid :: "int \<Rightarrow> int \<Rightarrow> int option" where
  "div_euclid a b =
     (if b = 0 then None
      else let q = (if 0 < b then a div b else - (a div (- b)))
           in if in_i64 q then Some q else None)"

definition bucket_start :: "int \<Rightarrow> int \<Rightarrow> int option" where
  "bucket_start block_time interval_seconds =
     (case div_euclid block_time interval_seconds of
        None \<Rightarrow> None
      | Some q \<Rightarrow> let b = q * interval_seconds in if in_i64 b then Some b else None)"

fun fill_buckets ::
  "int \<Rightarrow> inferred_trade list \<Rightarrow> (int \<times> inferred_trade list) list \<Rightarrow>
     (int \<times> inferred_trade list) list option" where
  "fill_buckets iv [] buckets = Some buckets"
| "fill_buckets iv (t # ts) buckets =
     (case bucket_start (it_block_time t) iv of
        None \<Rightarrow> None
      | Some b \<Rightarrow> fill_buckets iv ts (hm_push b t buckets))"

text \<open>The candle of a bucket; an empty bucket would panic at \<open>prices[0]\<close>.\<close>

definition candle_of :: "int \<Rightarrow> inferred_trade list \<Rightarrow> candle option" where
  "candle_of b bt =
     (let prices = map it_price_in_sol bt
      in case prices of
           [] \<Rightarrow> None
         | p # _ \<Rightarrow>
             Some \<lparr>cd_bucket_start = b,
                   cd_open = p,
                   cd_high = fold (\<lambda>x m. f64_max m x) prices f64_MIN,
                   cd_low = fold (\<lambda>x m. f64_min m x) prices f64_MAX,
                   cd_close = last prices,
                   cd_volume = fold (\<lambda>x s. f64_add s x) (map it_volume_sol bt) (FZero True)\<rparr>)"

definition mint_candles :: "int \<Rightarrow> inferred_trade list \<Rightarrow> candle list option" where
  "mint_candles iv mtrades =
     (case fill_buckets iv (sort_key it_block_time mtrades) [] of
        None \<Rightarrow> None
      | Some buckets \<Rightarrow>
          those (map (\<lambda>b. Option.bind (map_of buckets b) (candle_of b)) (sort (map fst buckets))))"

fun insert_candles ::
  "int \<Rightarrow> (string \<times> inferred_trade list) list \<Rightarrow> (string \<rightharpoonup> candle list) \<Rightarrow>
     (string \<rightharpoonup> candle list) option" where
  "insert_candles iv [] result = Some result"
| "insert_candles iv ((mint, mtrades) # rest) result =
     (case mint_candles iv mtrades of
        None \<Rightarrow> None
      | Some cs \<Rightarrow> insert_candles iv rest (result(mint \<mapsto> cs)))"

definition build_candles :: "inferred_trade list \<Rightarrow> int \<Rightarrow> (string \<rightharpoonup> candle list) option" where
  "build_candles trades iv = insert_candles iv (group_by it_mint trades) Map.empty"

subsection \<open>Token deltas as floating-point numbers\<close>

lemma rnd_of_nat_int: "\<exists>k::int. rnd (of_nat n) = of_int k"
proof (cases "n \<le> 2 ^ 53")
  case True
  then show ?thesis by (intro exI [of _ "int n"]) (simp add: rnd_of_nat)
next
  case False
  then have "(of_nat (2 ^ 53) :: rat) < of_nat n" by (simp only: of_nat_less_iff not_le)
  then have "2 powi 53 < (of_nat n :: rat)" by simp
  then have "(2::rat) powi 53 < 2 powi (ilog2 (of_nat n) + 1)"
    using ilog2_bounds(2) [of "of_nat n"] by (rule_tac order.strict_trans) (use False in auto)
  then have "53 < ilog2 (of_nat n) + 1" by (simp only: p2_strict)
  then have "0 \<le> quantum (of_nat n)" by (simp add: quantum_def)
  then obtain q :: int where "(2::rat) powi quantum (of_nat n) = of_int q" using p2_int by blast
  then have "rnd (of_nat n) = of_int (rhe (of_nat n / 2 powi quantum (of_nat n)) * q)"
    using False by (simp add: rnd_def)
  then show ?thesis by blast
qed

lemma delta_ui_facts:
  assumes "td_pre_amount d < 2 ^ 64" and "td_post_amount d < 2 ^ 64"
  shows "f64_finite (delta_ui d)" and "\<bar>f64_val (delta_ui d)\<bar> \<le> 2 powi 64"
    and "f64_val (delta_ui d) \<noteq> 0 \<Longrightarrow> 2 powi (-861) \<le> \<bar>f64_val (delta_ui d)\<bar>"
    and "0 < f64_val (delta_ui d) \<Longrightarrow> td_pre_amount d < td_post_amount d"
    and "f64_val (delta_ui d) < 0 \<Longrightarrow> td_post_amount d < td_pre_amount d"
    and "f64_val (delta_ui d) =
      rnd (rnd (rnd (of_nat (td_post_amount d)) - rnd (of_nat (td_pre_amount d))) /
        f64_val (f64_powi (f64_lit 10) (unat (td_decimals d))))"
proof -
  let ?a = "rnd (of_nat (td_post_amount d)) :: rat" and ?b = "rnd (of_nat (td_pre_amount d)) :: rat"
  define X where "X = rnd (?a - ?b)"
  define D where "D = f64_powi (f64_lit 10) (unat (td_decimals d))"
  have "unat (td_decimals d) < 256" using unsigned_less [of "td_decimals d"] by simp
  note D = powi10_bounded [OF this, folded D_def]
  note fa = f64_of_nat_fin [OF less_imp_le [OF assms(2)]] and fb = f64_of_nat_fin [OF less_imp_le [OF assms(1)]]
  have ab: "0 \<le> ?a" "?a \<le> 2 powi 64" "0 \<le> ?b" "?b \<le> 2 powi 64"
    using rnd_of_nat_le [of _ 64] assms by (auto intro: rnd.fl_nonneg)
  then have diff: "\<bar>?a - ?b\<bar> \<le> 2 powi 64" by linarith
  then have X64: "\<bar>X\<bar> \<le> 2 powi 64" unfolding X_def by (intro rnd.fl_abs_le_p2) simp_all
  let ?sub = "f64_sub (f64_of_nat (td_post_amount d)) (f64_of_nat (td_pre_amount d))"
  have sub: "f64_finite ?sub" "f64_val ?sub = X"
    unfolding f64_sub_fin [OF fa(1) fb(1)] fa(2) fb(2) X_def
    using f64_round_finite [OF diff] by simp_all
  have quot: "\<bar>X / f64_val D\<bar> \<le> 2 powi 64"
  proof -
    have "\<bar>X / f64_val D\<bar> \<le> \<bar>X\<bar> / 1"
      unfolding abs_divide using D by (intro divide_left_mono) simp_all
    then show ?thesis using X64 by simp
  qed
  have D0: "f64_val D \<noteq> 0" using D by simp
  have del: "f64_finite (delta_ui d)" "f64_val (delta_ui d) = rnd (X / f64_val D)"
    unfolding delta_ui_def D_def [symmetric] f64_div_fin [OF sub(1) D(1) D0] sub(2)
    using f64_round_finite [OF quot] by simp_all
  show "f64_finite (delta_ui d)" by (rule del)
  show "\<bar>f64_val (delta_ui d)\<bar> \<le> 2 powi 64"
    unfolding del using quot by (intro rnd.fl_abs_le_p2) simp_all
  show "f64_val (delta_ui d) =
      rnd (rnd (rnd (of_nat (td_post_amount d)) - rnd (of_nat (td_pre_amount d))) /
        f64_val (f64_powi (f64_lit 10) (unat (td_decimals d))))"
    using del(2) by (simp add: X_def D_def)
  have X0: "f64_val (delta_ui d) = 0" if "X = 0" using that by (simp add: del)
  show "2 powi (-861) \<le> \<bar>f64_val (delta_ui d)\<bar>" if nz: "f64_val (delta_ui d) \<noteq> 0"
  proof -
    obtain i j :: int where ij: "?a = of_int i" "?b = of_int j" using rnd_of_nat_int by metis
    have "i \<noteq> j" using nz X0 ij by (auto simp: X_def)
    then have "1 \<le> \<bar>i - j\<bar>" by simp
    then have "(of_int 1 :: rat) \<le> of_int \<bar>i - j\<bar>" by (simp only: of_int_le_iff)
    then have "2 powi 0 \<le> \<bar>?a - ?b\<bar>" unfolding ij by simp
    then have "2 powi 0 \<le> \<bar>X\<bar>" unfolding X_def rnd.fl_abs by (intro rnd.fl_ge_p2) simp_all
    then have "1 / 2 powi 861 \<le> \<bar>X\<bar> / f64_val D"
      using D by (intro frac_le) (simp_all del: power_int_numeral)
    moreover have "\<bar>X / f64_val D\<bar> = \<bar>X\<bar> / f64_val D" using D(2) by (simp add: abs_divide)
    moreover have "(2::rat) powi (-861) = 1 / 2 powi 861" by (simp only: power_int_minus inverse_eq_divide)
    ultimately have "2 powi (-861) \<le> \<bar>X / f64_val D\<bar>" by (simp only:)
    then show ?thesis unfolding del rnd.fl_abs by (intro rnd.fl_ge_p2) simp_all
  qed
  have sign: "?b < ?a" if "0 < f64_val (delta_ui d)"
  proof (rule ccontr)
    assume "\<not> ?b < ?a"
    then have "X \<le> 0" unfolding X_def by (intro rnd.fl_nonpos) simp
    then have "X / f64_val D \<le> 0" using D by (simp add: divide_le_0_iff)
    then show False using that rnd.fl_nonpos [of "X / f64_val D"] by (simp add: del)
  qed
  have sign': "?a < ?b" if "f64_val (delta_ui d) < 0"
  proof (rule ccontr)
    assume "\<not> ?a < ?b"
    then have "0 \<le> X" unfolding X_def by (intro rnd.fl_nonneg) simp
    then have "0 \<le> X / f64_val D" using D by (simp add: zero_le_divide_iff)
    then show False using that rnd.fl_nonneg [of "X / f64_val D"] by (simp add: del)
  qed
  show "td_pre_amount d < td_post_amount d" if "0 < f64_val (delta_ui d)"
    using sign [OF that] rnd_mono [of "of_nat (td_post_amount d)" "of_nat (td_pre_amount d)"]
    by (rule_tac ccontr) (simp add: not_less)
  show "td_post_amount d < td_pre_amount d" if "f64_val (delta_ui d) < 0"
    using sign' [OF that] rnd_mono [of "of_nat (td_pre_amount d)" "of_nat (td_post_amount d)"]
    by (rule_tac ccontr) (simp add: not_less)
qed


subsection \<open>Soundness of the inferred trades\<close>

definition amounts_ok :: "token_delta \<Rightarrow> bool" where
  "amounts_ok d \<longleftrightarrow> td_pre_amount d < 2 ^ 64 \<and> td_post_amount d < 2 ^ 64"

definition opposite_legs :: "token_delta \<Rightarrow> token_delta \<Rightarrow> bool" where
  "opposite_legs d w \<longleftrightarrow>
     td_pre_amount w < td_post_amount w \<and> td_post_amount d < td_pre_amount d \<or>
     td_post_amount w < td_pre_amount w \<and> td_pre_amount d < td_post_amount d"

definition trade_ok :: "inferred_trade \<Rightarrow> bool" where
  "trade_ok t \<longleftrightarrow>
     f64_finite (it_price_in_sol t) \<and> 2 powi (-75) \<le> f64_val (it_price_in_sol t) \<and>
     f64_val (it_price_in_sol t) \<le> 2 powi 925 \<and>
     f64_finite (it_volume_sol t) \<and> f64_val DUST_THRESHOLD_SOL \<le> f64_val (it_volume_sol t) \<and>
     f64_val (it_volume_sol t) \<le> 2 powi 64"

lemmas amounts_facts = delta_ui_facts [folded amounts_ok_def]

lemma dust_finite: "f64_finite DUST_THRESHOLD_SOL"
  by code_simp

lemma dust_lower: "2 powi (-11) \<le> f64_val DUST_THRESHOLD_SOL"
  by code_simp

lemma f64_lit_0: "f64_lit 0 = FZero False"
  by code_simp

lemma delta_ui_finite: "amounts_ok d \<Longrightarrow> f64_finite (delta_ui d)"
  by (simp add: amounts_ok_def delta_ui_facts)

lemma delta_ui_le: "amounts_ok d \<Longrightarrow> \<bar>f64_val (delta_ui d)\<bar> \<le> 2 powi 64"
  unfolding amounts_ok_def by (rule delta_ui_facts) simp_all

lemma delta_ui_ge: "amounts_ok d \<Longrightarrow> f64_val (delta_ui d) \<noteq> 0 \<Longrightarrow> 2 powi (-861) \<le> \<bar>f64_val (delta_ui d)\<bar>"
  unfolding amounts_ok_def by (rule delta_ui_facts) simp_all

lemma delta_ui_pos: "amounts_ok d \<Longrightarrow> 0 < f64_val (delta_ui d) \<Longrightarrow> td_pre_amount d < td_post_amount d"
  unfolding amounts_ok_def by (rule delta_ui_facts) simp_all

lemma delta_ui_neg: "amounts_ok d \<Longrightarrow> f64_val (delta_ui d) < 0 \<Longrightarrow> td_post_amount d < td_pre_amount d"
  unfolding amounts_ok_def by (rule delta_ui_facts) simp_all

lemma price_bounds:
  assumes v: "f64_finite v" "2 powi (-11) \<le> f64_val v" "f64_val v \<le> 2 powi 64"
    and k: "f64_finite k" "2 powi (-861) \<le> f64_val k" "f64_val k \<le> 2 powi 64"
  shows "f64_finite (f64_div v k)" and "2 powi (-75) \<le> f64_val (f64_div v k)"
    and "f64_val (f64_div v k) \<le> 2 powi 925"
proof -
  have k0: "0 < f64_val k" by (rule less_le_trans [OF p2_pos k(2)])
  have v0: "0 < f64_val v" by (rule less_le_trans [OF p2_pos v(2)])
  have "f64_val v / f64_val k \<le> 2 powi 64 / 2 powi (-861)"
    using v0 v k by (intro frac_le) (simp_all only: p2_pos less_imp_le)
  also have "\<dots> = 2 powi (64 - (-861))" by (rule power_int_diff [symmetric]) simp
  finally have up: "f64_val v / f64_val k \<le> 2 powi 925" by simp
  have "2 powi (-75) = (2::rat) powi (-11 - 64)" by simp
  also have "\<dots> = 2 powi (-11) / 2 powi 64" by (rule power_int_diff) simp
  also have "\<dots> \<le> f64_val v / f64_val k"
    using v0 v k k0 by (intro frac_le) (simp_all only: p2_pos less_imp_le)
  finally have lo: "2 powi (-75) \<le> f64_val v / f64_val k" .
  have "0 < f64_val v / f64_val k" using v0 k0 by simp
  then have "\<bar>f64_val v / f64_val k\<bar> \<le> 2 powi 925" using up by (simp only: abs_of_pos)
  note fin = f64_round_finite [OF this]
  show "f64_finite (f64_div v k)"
    unfolding f64_div_fin [OF v(1) k(1) less_imp_neq [OF k0, symmetric]] by (rule fin) simp_all
  have val: "f64_val (f64_div v k) = rnd (f64_val v / f64_val k)"
    unfolding f64_div_fin [OF v(1) k(1) less_imp_neq [OF k0, symmetric]] by (rule fin) simp_all
  show "2 powi (-75) \<le> f64_val (f64_div v k)" unfolding val using lo by (intro rnd.fl_ge_p2) simp_all
  show "f64_val (f64_div v k) \<le> 2 powi 925" unfolding val using up by (intro rnd.fl_le_p2) simp_all
qed

lemma infer_trade_sound:
  assumes "amounts_ok d" and "amounts_ok w" and "f64_val (delta_ui w) \<noteq> 0"
    and "infer_trade tx (delta_ui w) d = Some t"
  shows "td_mint d \<noteq> WSOL_MINT" and "opposite_legs d w" and "trade_ok t"
    and "it_mint t = td_mint d" and "it_signature t = ts_signature tx" and "it_block_time t = ts_block_time tx"
proof -
  note fw = delta_ui_finite [OF assms(2)] and fd = delta_ui_finite [OF assms(1)]
  have f: "f64_finite (FZero False)" by simp
  note T = assms(4) [unfolded infer_trade_def Let_def f64_lit_0 f64_lt_fin [OF f fd] f64_lt_fin [OF f fw]
      f64_eq_fin [OF fd f]]
  from T have m: "td_mint d \<noteq> WSOL_MINT" and nz: "f64_val (delta_ui d) \<noteq> 0"
    and opp: "(0 < f64_val (delta_ui d)) \<noteq> (0 < f64_val (delta_ui w))"
    and dust: "\<not> f64_lt (f64_abs (delta_ui w)) DUST_THRESHOLD_SOL"
    and t: "t = \<lparr>it_signature = ts_signature tx, it_block_time = ts_block_time tx, it_mint = td_mint d,
        it_price_in_sol = f64_div (f64_abs (delta_ui w)) (f64_abs (delta_ui d)),
        it_volume_sol = f64_abs (delta_ui w)\<rparr>"
    by (auto split: if_splits)
  show "td_mint d \<noteq> WSOL_MINT" by (rule m)
  show "it_mint t = td_mint d" and "it_signature t = ts_signature tx" and "it_block_time t = ts_block_time tx"
    by (simp_all add: t)
  show "opposite_legs d w"
    using opp nz assms delta_ui_pos delta_ui_neg unfolding opposite_legs_def by (meson linorder_neqE)
  have fa: "f64_finite (f64_abs (delta_ui w))" using fw by simp
  have vol: "f64_val DUST_THRESHOLD_SOL \<le> f64_val (f64_abs (delta_ui w))"
    using dust unfolding f64_lt_fin [OF fa dust_finite] by (simp only: not_less)
  have v11: "2 powi (-11) \<le> f64_val (f64_abs (delta_ui w))" by (rule order_trans [OF dust_lower vol])
  have v64: "f64_val (f64_abs (delta_ui w)) \<le> 2 powi 64" unfolding f64_abs_fin(2) by (rule delta_ui_le [OF assms(2)])
  have k: "f64_finite (f64_abs (delta_ui d))" "2 powi (-861) \<le> f64_val (f64_abs (delta_ui d))"
    "f64_val (f64_abs (delta_ui d)) \<le> 2 powi 64"
    by (simp_all only: f64_abs_fin fd delta_ui_ge [OF assms(1) nz] delta_ui_le [OF assms(1)])
  show "trade_ok t"
    unfolding trade_ok_def t inferred_trade.simps
    using price_bounds [OF fa v11 v64 k] fa vol v64 by (intro conjI)
qed

lemma map_filter_mem: "t \<in> set (List.map_filter f xs) \<longleftrightarrow> (\<exists>x\<in>set xs. f x = Some t)"
  by (force simp: List.map_filter_def)


lemma infer_trades_mem:
  "t \<in> set (infer_trades tx) \<longleftrightarrow>
     (\<exists>w. find (\<lambda>d. td_mint d = WSOL_MINT) (ts_token_deltas tx) = Some w \<and>
        \<not> f64_eq (delta_ui w) (f64_lit 0) \<and>
        (\<exists>d\<in>set (ts_token_deltas tx). infer_trade tx (delta_ui w) d = Some t))"
  by (cases "find (\<lambda>d. td_mint d = WSOL_MINT) (ts_token_deltas tx)")
    (simp_all add: infer_trades_def map_filter_mem)

lemma f64_eq_0: "f64_finite x \<Longrightarrow> f64_eq x (f64_lit 0) \<longleftrightarrow> f64_val x = 0"
  by (simp add: f64_lit_0 f64_eq_fin)

lemma infer_trades_facts:
  assumes "\<forall>d\<in>set (ts_token_deltas tx). amounts_ok d" and "t \<in> set (infer_trades tx)"
  shows "trade_ok t \<and> it_signature t = ts_signature tx \<and> it_block_time t = ts_block_time tx \<and>
    (\<exists>w d. find (\<lambda>d. td_mint d = WSOL_MINT) (ts_token_deltas tx) = Some w \<and>
       d \<in> set (ts_token_deltas tx) \<and> td_mint d = it_mint t \<and> td_mint d \<noteq> WSOL_MINT \<and> opposite_legs d w)"
proof -
  obtain w d where w: "find (\<lambda>d. td_mint d = WSOL_MINT) (ts_token_deltas tx) = Some w"
    and nz: "\<not> f64_eq (delta_ui w) (f64_lit 0)"
    and d: "d \<in> set (ts_token_deltas tx)" "infer_trade tx (delta_ui w) d = Some t"
    using assms(2) unfolding infer_trades_mem by blast
  have "w \<in> set (ts_token_deltas tx)" using w by (auto simp: find_Some_iff)
  then have ok: "amounts_ok d" "amounts_ok w" using assms(1) d(1) by auto
  have "f64_val (delta_ui w) \<noteq> 0" using nz f64_eq_0 [OF delta_ui_finite [OF ok(2)]] by simp
  note infer_trade_sound [OF ok this d(2)]
  then show ?thesis using w d(1) by auto
qed

text \<open>
  C24. Soundness of price inference, on any amounts of 64 bits and any decimals: a trade is
  reported only for a mint that is not wrapped SOL and whose raw balance moved against the raw
  balance of the transaction's first wrapped-SOL leg; its volume is a finite number of at least the
  dust threshold, and its price is a finite positive number, never an infinity, a zero or a NaN,
  between 2^-75 and 2^925.
\<close>

theorem infer_trades_sound:
  assumes "\<forall>d\<in>set (ts_token_deltas tx). amounts_ok d" and "t \<in> set (infer_trades tx)"
  shows "trade_ok t \<and> it_signature t = ts_signature tx \<and> it_block_time t = ts_block_time tx \<and>
    (\<exists>w d. find (\<lambda>d. td_mint d = WSOL_MINT) (ts_token_deltas tx) = Some w \<and>
       d \<in> set (ts_token_deltas tx) \<and> td_mint d = it_mint t \<and> td_mint d \<noteq> WSOL_MINT \<and> opposite_legs d w)"
  using assms by (rule infer_trades_facts)

lemma f64_of_nat_numeral: "numeral n \<le> (2 ^ 53 :: int) \<Longrightarrow> f64_of_nat (numeral n) = FNum (numeral n)"
  by (simp add: f64_of_nat_def f64_round_numeral)

lemma f64_of_nat_0: "f64_of_nat 0 = FZero False"
  by (simp add: f64_of_nat_def f64_round_def rnd_def)

lemma delta_ui_eq:
  "f64_of_nat (td_pre_amount d) = p \<Longrightarrow> f64_of_nat (td_post_amount d) = q \<Longrightarrow> unat (td_decimals d) = k \<Longrightarrow>
     delta_ui d = f64_div (f64_sub q p) (f64_powi (f64_lit 10) k)"
  by (simp add: delta_ui_def)

text \<open>A swap of one SOL against half a token.\<close>

definition swap_token :: token_delta where
  "swap_token = \<lparr>td_mint = ''TOKEN_A'', td_pre_amount = 0, td_post_amount = 500000, td_decimals = 6\<rparr>"

definition swap_sol :: token_delta where
  "swap_sol = \<lparr>td_mint = WSOL_MINT, td_pre_amount = 1000000000, td_post_amount = 0, td_decimals = 9\<rparr>"

definition swap_tx :: tx_snapshot where
  "swap_tx = \<lparr>ts_signature = ''s1'', ts_block_time = 100, ts_token_deltas = [swap_token, swap_sol]\<rparr>"

lemma swap_delta: "delta_ui swap_token = FNum (1 / 2)" "delta_ui swap_sol = FNum (- 1)"
proof -
  have "delta_ui swap_token = f64_div (f64_sub (FNum 500000) (FZero False)) (f64_powi (f64_lit 10) 6)"
    by (rule delta_ui_eq; simp add: swap_token_def f64_of_nat_numeral f64_of_nat_0)
  also have "\<dots> = FNum (1 / 2)" by code_simp
  finally show "delta_ui swap_token = FNum (1 / 2)" .
  have "delta_ui swap_sol = f64_div (f64_sub (FZero False) (FNum 1000000000)) (f64_powi (f64_lit 10) 9)"
    by (rule delta_ui_eq) (simp_all add: swap_sol_def f64_of_nat_numeral f64_of_nat_0)
  also have "\<dots> = FNum (- 1)" by code_simp
  finally show "delta_ui swap_sol = FNum (- 1)" .
qed

lemma swap_trades:
  "infer_trades swap_tx = [\<lparr>it_signature = ''s1'', it_block_time = 100, it_mint = ''TOKEN_A'',
      it_price_in_sol = FNum 2, it_volume_sol = FNum 1\<rparr>]"
proof -
  have "f64_lt (f64_lit 0) (FNum (1 / 2))" "\<not> f64_lt (f64_lit 0) (FNum (- 1))"
    "\<not> f64_eq (FNum (1 / 2)) (f64_lit 0)" "\<not> f64_eq (FNum (- 1)) (f64_lit 0)"
    "\<not> f64_lt (FNum 1) DUST_THRESHOLD_SOL" "f64_div (FNum 1) (FNum (1 / 2)) = FNum 2"
    by code_simp+
  moreover have "td_mint swap_token = ''TOKEN_A''" "td_mint swap_sol = WSOL_MINT" "''TOKEN_A'' \<noteq> WSOL_MINT"
    by (simp_all add: swap_token_def swap_sol_def WSOL_MINT_def)
  ultimately show ?thesis
    by (simp add: infer_trades_def infer_trade_def swap_tx_def swap_delta map_filter_simps)
qed

lemma swap_amounts: "\<forall>d\<in>set (ts_token_deltas swap_tx). amounts_ok d"
  by (simp add: swap_tx_def swap_token_def swap_sol_def amounts_ok_def)

theorem infer_trades_sound_witness:
  "\<exists>t. infer_trades swap_tx = [t] \<and> trade_ok t \<and> it_price_in_sol t = FNum 2"
proof -
  have m: "hd (infer_trades swap_tx) \<in> set (infer_trades swap_tx)" by (simp add: swap_trades)
  from infer_trades_sound [OF swap_amounts m] have "trade_ok (hd (infer_trades swap_tx))" by (rule conjunct1)
  then show ?thesis by (simp add: swap_trades)
qed

subsection \<open>Exactness on canonical deltas\<close>

text \<open>
  The block reader nets every balance change, so one of the two amounts of a delta is zero
  (theory \<open>Rpc_Client\<close>).  On such deltas the floating-point tests decide the integer questions.
\<close>

definition canonical_delta :: "token_delta \<Rightarrow> bool" where
  "canonical_delta d \<longleftrightarrow> td_pre_amount d = 0 \<or> td_post_amount d = 0"

definition net_amount :: "token_delta \<Rightarrow> int" where
  "net_amount d = int (td_post_amount d) - int (td_pre_amount d)"


lemma canonical_rnd:
  assumes "canonical_delta d"
  shows "rnd (rnd (of_nat (td_post_amount d)) - rnd (of_nat (td_pre_amount d))) = rnd (of_int (net_amount d))"
  using assms by (auto simp: canonical_delta_def net_amount_def rnd_idem rnd_neg)

lemma canonical_val:
  assumes "amounts_ok d" and "canonical_delta d"
  shows "f64_val (delta_ui d) =
    rnd (rnd (of_int (net_amount d)) / f64_val (f64_powi (f64_lit 10) (unat (td_decimals d))))"
  using assms delta_ui_facts(6) [of d] by (simp add: amounts_ok_def canonical_rnd)

lemma canonical_sign_pos:
  assumes "amounts_ok d" and "canonical_delta d" and "0 < net_amount d"
  shows "0 < f64_val (delta_ui d)"
proof -
  define D where "D = f64_val (f64_powi (f64_lit 10) (unat (td_decimals d)))"
  have "unat (td_decimals d) < 256" using unsigned_less [of "td_decimals d"] by simp
  note D = powi10_bounded [OF this, folded D_def]
  have "1 \<le> rnd (of_nat (nat (net_amount d)))" by (rule rnd_of_nat_ge1) (use assms(3) in simp)
  then have r: "1 \<le> rnd (of_int (net_amount d))" using assms(3) by simp
  have "1 / 2 powi 861 \<le> rnd (of_int (net_amount d)) / D"
    using r D by (intro frac_le) (simp_all del: power_int_numeral)
  moreover have "(2::rat) powi (-861) = 1 / 2 powi 861" by (simp only: power_int_minus inverse_eq_divide)
  ultimately have "2 powi (-861) \<le> rnd (of_int (net_amount d)) / D" by (simp only:)
  then have "2 powi (-861) \<le> f64_val (delta_ui d)"
    unfolding canonical_val [OF assms(1,2), folded D_def] by (intro rnd.fl_ge_p2) simp_all
  then show ?thesis by (rule less_le_trans [OF p2_pos])
qed

lemma canonical_flip:
  assumes "amounts_ok d" and "canonical_delta d"
  defines "d' \<equiv> d\<lparr>td_pre_amount := td_post_amount d, td_post_amount := td_pre_amount d\<rparr>"
  shows "amounts_ok d'" "canonical_delta d'" "net_amount d' = - net_amount d"
    and "f64_val (delta_ui d') = - f64_val (delta_ui d)"
proof -
  show *: "amounts_ok d'" "canonical_delta d'" "net_amount d' = - net_amount d"
    using assms by (auto simp: amounts_ok_def canonical_delta_def net_amount_def)
  show "f64_val (delta_ui d') = - f64_val (delta_ui d)"
    unfolding canonical_val [OF *(1,2)] canonical_val [OF assms(1,2)] *(3)
    by (simp add: d'_def rnd_neg)
qed

lemma canonical_sign:
  assumes "amounts_ok d" and "canonical_delta d"
  shows "0 < f64_val (delta_ui d) \<longleftrightarrow> 0 < net_amount d"
    and "f64_val (delta_ui d) = 0 \<longleftrightarrow> net_amount d = 0"
proof -
  have neg: "f64_val (delta_ui d) < 0" if "net_amount d < 0"
    using canonical_sign_pos [OF canonical_flip(1,2) [OF assms]] canonical_flip(3,4) [OF assms] that by simp
  have zero: "f64_val (delta_ui d) = 0" if "net_amount d = 0"
    using canonical_val [OF assms] that by simp
  show "0 < f64_val (delta_ui d) \<longleftrightarrow> 0 < net_amount d"
    using canonical_sign_pos [OF assms] neg zero by (cases "net_amount d" "0 :: int" rule: linorder_cases) auto
  show "f64_val (delta_ui d) = 0 \<longleftrightarrow> net_amount d = 0"
    using canonical_sign_pos [OF assms] neg zero by (cases "net_amount d" "0 :: int" rule: linorder_cases) auto
qed


lemma powi_10_9: "f64_powi (f64_lit 10) 9 = FNum 1000000000"
  by code_simp

lemma dust_lamports: "f64_val DUST_THRESHOLD_SOL = rnd (500000 / 1000000000)"
  by code_simp

lemma dust_strict: "rnd (499999 / 1000000000) < f64_val DUST_THRESHOLD_SOL"
  by code_simp

lemma canonical_dust:
  assumes "amounts_ok w" and "canonical_delta w" and "td_decimals w = 9"
  shows "f64_lt (f64_abs (delta_ui w)) DUST_THRESHOLD_SOL \<longleftrightarrow> \<bar>net_amount w\<bar> < 500000"
proof -
  let ?n = "\<bar>net_amount w\<bar>"
  have fa: "f64_finite (f64_abs (delta_ui w))" using delta_ui_finite [OF assms(1)] by simp
  have "unat (td_decimals w) = 9" by (simp add: assms(3))
  then have val: "f64_val (f64_abs (delta_ui w)) = rnd (rnd (of_int ?n) / 1000000000)"
    unfolding f64_abs_fin(2) canonical_val [OF assms(1,2)]
    by (simp add: powi_10_9 rnd.fl_abs abs_divide)
  have "f64_val (f64_abs (delta_ui w)) < f64_val DUST_THRESHOLD_SOL" if "?n < 500000"
  proof -
    have "rnd (of_int ?n) = of_int ?n" by (rule rnd_of_int) (use that in simp)
    moreover have "(of_int ?n :: rat) \<le> of_int 499999" by (simp only: of_int_le_iff) (use that in simp)
    ultimately have "rnd (of_int ?n) / 1000000000 \<le> 499999 / 1000000000" by (simp add: divide_right_mono)
    from rnd_mono [OF this] dust_strict show ?thesis unfolding val by (rule le_less_trans)
  qed
  moreover have "f64_val DUST_THRESHOLD_SOL \<le> f64_val (f64_abs (delta_ui w))" if "500000 \<le> ?n"
  proof -
    have "(of_int 500000 :: rat) \<le> of_int ?n" by (simp only: of_int_le_iff) (use that in simp)
    from rnd_mono [OF this] have "500000 \<le> rnd (of_int ?n)" using rnd_of_int [of 500000] by simp
    then have "500000 / 1000000000 \<le> rnd (of_int ?n) / 1000000000" by (simp add: divide_right_mono)
    from rnd_mono [OF this] show ?thesis unfolding val dust_lamports .
  qed
  ultimately show ?thesis unfolding f64_lt_fin [OF fa dust_finite] by linarith
qed

lemma infer_trade_canonical:
  assumes "amounts_ok d" "canonical_delta d" and w: "amounts_ok w" "canonical_delta w" "td_decimals w = 9"
  shows "map_option it_mint (infer_trade tx (delta_ui w) d) =
    (if td_mint d \<noteq> WSOL_MINT \<and> net_amount d \<noteq> 0 \<and> (0 < net_amount d) \<noteq> (0 < net_amount w) \<and>
        500000 \<le> \<bar>net_amount w\<bar> then Some (td_mint d) else None)"
proof -
  note f = delta_ui_finite [OF assms(1)] delta_ui_finite [OF w(1)]
  have pos: "f64_lt (f64_lit 0) (delta_ui d) \<longleftrightarrow> 0 < net_amount d"
    "f64_lt (f64_lit 0) (delta_ui w) \<longleftrightarrow> 0 < net_amount w"
    using canonical_sign(1) [OF assms(1,2)] canonical_sign(1) [OF w(1,2)] f by (simp_all add: f64_lit_0 f64_lt_fin)
  show ?thesis
    by (simp add: infer_trade_def Let_def pos f64_eq_0 [OF f(1)] canonical_sign(2) [OF assms(1,2)]
        canonical_dust [OF w] linorder_not_less [of "\<bar>net_amount w\<bar>" 500000])
qed

lemma map_map_filter_if:
  assumes "\<And>x. x \<in> set xs \<Longrightarrow> map_option g (f x) = (if P x then Some (h x) else None)"
  shows "map g (List.map_filter f xs) = map h (filter P xs)"
  using assms
proof (induction xs)
  case (Cons x xs)
  from Cons.IH Cons.prems have "map g (List.map_filter f xs) = map h (filter P xs)" by simp
  with Cons.prems [of x] show ?case
    by (cases "f x"; cases "P x") (simp_all add: map_filter_simps)
qed (simp add: map_filter_simps)

text \<open>
  C8. Completeness of price inference on the deltas the block reader produces (each netted to one
  side, wrapped SOL with its nine decimals): the mints that trade are exactly those whose net raw
  change is non-zero and opposite to the wrapped-SOL change, in their order, and there is none when
  the wrapped-SOL change is below 500000 lamports.  No rounding moves a transaction across the dust
  threshold or loses a trade.
\<close>

theorem infer_trades_complete:
  assumes "\<forall>d\<in>set (ts_token_deltas tx). amounts_ok d \<and> canonical_delta d"
    and "find (\<lambda>d. td_mint d = WSOL_MINT) (ts_token_deltas tx) = Some w" and "td_decimals w = 9"
  shows "map it_mint (infer_trades tx) =
    (if \<bar>net_amount w\<bar> < 500000 then []
     else map td_mint (filter (\<lambda>d. td_mint d \<noteq> WSOL_MINT \<and> net_amount d \<noteq> 0 \<and>
            (0 < net_amount d) \<noteq> (0 < net_amount w)) (ts_token_deltas tx)))"
proof -
  have "w \<in> set (ts_token_deltas tx)" using assms(2) by (auto simp: find_Some_iff)
  then have w: "amounts_ok w" "canonical_delta w" using assms(1) by auto
  have zero: "f64_eq (delta_ui w) (f64_lit 0) \<longleftrightarrow> net_amount w = 0"
    using f64_eq_0 [OF delta_ui_finite [OF w(1)]] canonical_sign(2) [OF w] by simp
  have "map it_mint (List.map_filter (infer_trade tx (delta_ui w)) (ts_token_deltas tx)) =
      map td_mint (filter (\<lambda>d. td_mint d \<noteq> WSOL_MINT \<and> net_amount d \<noteq> 0 \<and>
        (0 < net_amount d) \<noteq> (0 < net_amount w) \<and> 500000 \<le> \<bar>net_amount w\<bar>) (ts_token_deltas tx))"
    using assms(1) by (intro map_map_filter_if) (simp add: infer_trade_canonical [OF _ _ w assms(3)])
  then show ?thesis
    by (auto simp: infer_trades_def assms(2) zero not_less intro!: filter_cong)
qed

theorem infer_trades_complete_witness: "map it_mint (infer_trades swap_tx) = [''TOKEN_A'']"
proof -
  have "\<forall>d\<in>set (ts_token_deltas swap_tx). amounts_ok d \<and> canonical_delta d"
    by (simp add: swap_tx_def swap_token_def swap_sol_def amounts_ok_def canonical_delta_def)
  from infer_trades_complete [OF this, of swap_sol] show ?thesis
    by (simp add: swap_tx_def swap_token_def swap_sol_def WSOL_MINT_def net_amount_def)
qed


subsection \<open>The candle of a bucket\<close>

lemma fold_f64_max:
  assumes "\<forall>x\<in>set xs. f64_finite x" and "f64_finite m"
  shows "f64_finite (fold (\<lambda>x m. f64_max m x) xs m) \<and>
    f64_val (fold (\<lambda>x m. f64_max m x) xs m) = fold max (map f64_val xs) (f64_val m)"
  using assms by (induction xs arbitrary: m) (simp_all add: f64_max_fin max.commute)

lemma fold_f64_min:
  assumes "\<forall>x\<in>set xs. f64_finite x" and "f64_finite m"
  shows "f64_finite (fold (\<lambda>x m. f64_min m x) xs m) \<and>
    f64_val (fold (\<lambda>x m. f64_min m x) xs m) = fold min (map f64_val xs) (f64_val m)"
  using assms by (induction xs arbitrary: m) (simp_all add: f64_min_fin min.commute)

lemma f64_extremes: "f64_finite f64_MAX" "f64_finite f64_MIN" "2 powi 925 \<le> f64_val f64_MAX" "f64_val f64_MIN < 0"
  by (simp_all add: f64_MAX_def f64_MIN_def)

lemma fold_max_Max: "xs \<noteq> [] \<Longrightarrow> \<forall>x\<in>set xs. m \<le> x \<Longrightarrow> fold max xs m = Max (set xs)"
  for xs :: "'a :: linorder list"
  using Max.set_eq_fold [of m xs] by (simp add: max_absorb2)

lemma fold_min_Min: "xs \<noteq> [] \<Longrightarrow> \<forall>x\<in>set xs. x \<le> m \<Longrightarrow> fold min xs m = Min (set xs)"
  for xs :: "'a :: linorder list"
  using Min.set_eq_fold [of m xs] by (simp add: min_absorb2)

lemma sum_volumes_bounded:
  assumes "\<forall>v\<in>set vs. f64_finite v \<and> 0 \<le> f64_val v \<and> f64_val v \<le> 2 powi 64"
    and "f64_finite s" "0 \<le> f64_val s" "f64_val s \<le> of_nat n * 2 powi 64" and "n + length vs \<le> 2 ^ 53"
  shows "f64_finite (fold (\<lambda>x s. f64_add s x) vs s) \<and> 0 \<le> f64_val (fold (\<lambda>x s. f64_add s x) vs s) \<and>
    f64_val (fold (\<lambda>x s. f64_add s x) vs s) \<le> of_nat (n + length vs) * 2 powi 64"
  using assms
proof (induction vs arbitrary: s n)
  case (Cons v vs)
  have v: "f64_finite v" "0 \<le> f64_val v" "f64_val v \<le> 2 powi 64" using Cons.prems(1) by auto
  have sum: "f64_val s + f64_val v \<le> of_nat (Suc n) * 2 powi 64"
    using Cons.prems(4) v(3) unfolding of_nat_Suc distrib_right mult_1 by linarith
  have n: "Suc n \<le> 2 ^ 53" using Cons.prems(5) by simp
  have "(of_nat (Suc n) :: rat) \<le> 2 powi 53" using of_nat_le_p2 [OF n] by simp
  then have "of_nat (Suc n) * 2 powi 64 \<le> (2::rat) powi 53 * 2 powi 64" by (intro mult_right_mono) simp_all
  also have "\<dots> = 2 powi (53 + 64)" by (rule power_int_add [symmetric]) simp
  finally have "\<bar>f64_val s + f64_val v\<bar> \<le> 2 powi 117"
    using sum v(2) Cons.prems(3) by simp
  note fin = f64_round_finite [OF this, of "f64_sign s \<and> f64_sign v"]
  have f1: "f64_finite (f64_add s v)" and f2: "f64_val (f64_add s v) = rnd (f64_val s + f64_val v)"
    unfolding f64_add_fin [OF Cons.prems(2) v(1)] using fin by simp_all
  have f3: "0 \<le> f64_val (f64_add s v)" unfolding f2 by (intro rnd.fl_nonneg) (use Cons.prems(3) v(2) in simp)
  have "rnd (of_nat (Suc n) * 2 powi 64) = of_nat (Suc n) * 2 powi 64"
    by (rule rnd_small [where n = "int (Suc n)" and k = 64]) (use n in simp_all)
  then have f4: "f64_val (f64_add s v) \<le> of_nat (Suc n) * 2 powi 64"
    unfolding f2 using rnd_mono [OF sum] by simp
  from Cons.IH [OF _ f1 f3 f4] show ?case using Cons.prems(1,5) by simp
qed simp

lemma candle_of_Some: "bt \<noteq> [] \<Longrightarrow> \<exists>c. candle_of b bt = Some c"
  by (cases bt) (simp_all add: candle_of_def Let_def)

lemma candle_of_facts:
  assumes "candle_of b bt = Some c"
  shows "bt \<noteq> []" and "cd_bucket_start c = b" and "cd_open c = it_price_in_sol (hd bt)"
    and "cd_close c = it_price_in_sol (last bt)"
    and "cd_high c = fold (\<lambda>x m. f64_max m x) (map it_price_in_sol bt) f64_MIN"
    and "cd_low c = fold (\<lambda>x m. f64_min m x) (map it_price_in_sol bt) f64_MAX"
    and "cd_volume c = fold (\<lambda>x s. f64_add s x) (map it_volume_sol bt) (FZero True)"
  using assms by (cases bt; auto simp: candle_of_def Let_def last_map)+

definition prices_of :: "inferred_trade list \<Rightarrow> rat set" where
  "prices_of bt = (\<lambda>t. f64_val (it_price_in_sol t)) ` set bt"

lemma candle_extremes:
  assumes "\<forall>t\<in>set bt. trade_ok t" and c: "candle_of b bt = Some c"
  shows "f64_finite (cd_high c)" and "f64_val (cd_high c) = Max (prices_of bt)"
    and "f64_finite (cd_low c)" and "f64_val (cd_low c) = Min (prices_of bt)"
    and "0 < Max (prices_of bt)" and "0 < Min (prices_of bt)"
proof -
  note F = candle_of_facts [OF c]
  let ?ps = "map it_price_in_sol bt"
  have fin: "\<forall>x\<in>set ?ps. f64_finite x" using assms(1) by (auto simp: trade_ok_def)
  have pos: "\<forall>x\<in>prices_of bt. 0 < x"
    using assms(1) less_le_trans [OF p2_pos [of "-75"]] unfolding prices_of_def trade_ok_def by auto
  have le: "\<forall>x\<in>prices_of bt. x \<le> f64_val f64_MAX"
    using assms(1) order_trans [OF _ f64_extremes(3)] unfolding prices_of_def trade_ok_def by blast
  have ne: "prices_of bt \<noteq> {}" and fs: "finite (prices_of bt)" using F(1) by (simp_all add: prices_of_def)
  have set: "set (map f64_val ?ps) = prices_of bt" by (simp add: prices_of_def image_image)
  have "\<forall>x\<in>set (map f64_val ?ps). f64_val f64_MIN \<le> x"
    unfolding set using pos f64_extremes(4) by (meson less_imp_le less_trans)
  then show "f64_finite (cd_high c)" "f64_val (cd_high c) = Max (prices_of bt)"
    using fold_f64_max [OF fin f64_extremes(2)] fold_max_Max [of "map f64_val ?ps"] F(1)
    unfolding F(5) set by simp_all
  show "f64_finite (cd_low c)" "f64_val (cd_low c) = Min (prices_of bt)"
    using fold_f64_min [OF fin f64_extremes(1)] fold_min_Min [of "map f64_val ?ps"] le F(1)
    unfolding F(6) set by simp_all
  show "0 < Max (prices_of bt)" "0 < Min (prices_of bt)" using pos fs ne by simp_all
qed

text \<open>
  C27. The candle of a bucket of inferred trades, in time order: it opens at the first price and
  closes at the last, its high and low are the greatest and least price of the bucket, all four are
  finite and positive with low at most open and close and these at most high, and its volume does
  not overflow (for up to 2^53 trades).
\<close>

theorem candle_of_ohlc:
  assumes "\<forall>t\<in>set bt. trade_ok t" and "bt \<noteq> []" and "length bt \<le> 2 ^ 53"
  shows "\<exists>c. candle_of b bt = Some c \<and> cd_bucket_start c = b \<and>
    cd_open c = it_price_in_sol (hd bt) \<and> cd_close c = it_price_in_sol (last bt) \<and>
    f64_finite (cd_high c) \<and> f64_val (cd_high c) = Max (prices_of bt) \<and>
    f64_finite (cd_low c) \<and> f64_val (cd_low c) = Min (prices_of bt) \<and> 0 < f64_val (cd_low c) \<and>
    f64_val (cd_low c) \<le> f64_val (cd_open c) \<and> f64_val (cd_open c) \<le> f64_val (cd_high c) \<and>
    f64_val (cd_low c) \<le> f64_val (cd_close c) \<and> f64_val (cd_close c) \<le> f64_val (cd_high c) \<and>
    f64_finite (cd_volume c) \<and> 0 \<le> f64_val (cd_volume c)"
proof -
  obtain c where c: "candle_of b bt = Some c" using candle_of_Some [OF assms(2)] by blast
  note F = candle_of_facts [OF c]
  let ?vs = "map it_volume_sol bt"
  note E = candle_extremes [OF assms(1) c]
  have ne: "prices_of bt \<noteq> {}" and fs: "finite (prices_of bt)" using assms(2) by (simp_all add: prices_of_def)
  have "\<forall>v\<in>set ?vs. f64_finite v \<and> 0 \<le> f64_val v \<and> f64_val v \<le> 2 powi 64"
    using assms(1) less_imp_le [OF less_le_trans [OF p2_pos dust_lower]] unfolding trade_ok_def
    by (auto intro: order_trans)
  from sum_volumes_bounded [OF this, of "FZero True" 0]
  have vol: "f64_finite (cd_volume c)" "0 \<le> f64_val (cd_volume c)" unfolding F(7) using assms(3) by auto
  have mem: "f64_val (cd_open c) \<in> prices_of bt" "f64_val (cd_close c) \<in> prices_of bt"
    unfolding F(3,4) prices_of_def using assms(2) by simp_all
  then show ?thesis
    using c F(2-4) E vol Max_ge [OF fs] Min_le [OF fs] by auto
qed


subsection \<open>The candle series\<close>

text \<open>The window of a time, and the trades of a mint in a window, in time order.\<close>

definition window :: "int \<Rightarrow> int \<Rightarrow> int" where
  "window iv t = t div iv * iv"

definition window_trades :: "inferred_trade list \<Rightarrow> int \<Rightarrow> string \<Rightarrow> int \<Rightarrow> inferred_trade list" where
  "window_trades trades iv mint b =
     sort_key it_block_time (filter (\<lambda>t. it_mint t = mint \<and> window iv (it_block_time t) = b) trades)"

definition mint_windows :: "inferred_trade list \<Rightarrow> int \<Rightarrow> string \<Rightarrow> int list" where
  "mint_windows trades iv mint =
     sorted_list_of_set ((\<lambda>t. window iv (it_block_time t)) ` {t \<in> set trades. it_mint t = mint})"

definition times_ok :: "int \<Rightarrow> inferred_trade list \<Rightarrow> bool" where
  "times_ok iv ts \<longleftrightarrow> 0 < iv \<and> iv \<le> i64_max \<and> (\<forall>t\<in>set ts. i64_min + iv \<le> it_block_time t \<and> it_block_time t \<le> i64_max)"

lemma window_bounds: "0 < iv \<Longrightarrow> window iv t \<le> t \<and> t < window iv t + iv"
  using pos_mod_bound [of iv t] pos_mod_sign [of iv t] by (simp add: window_def minus_mod_eq_div_mult [symmetric])

lemma bucket_start_window:
  assumes "0 < iv" and "i64_min + iv \<le> t" and "t \<le> i64_max"
  shows "bucket_start t iv = Some (window iv t)"
proof -
  have r: "in_i64 (window iv t)" using window_bounds [OF assms(1), of t] assms by (simp add: in_i64_def)
  have "t div iv \<le> i64_max"
  proof (cases "0 \<le> t")
    case True
    then have "0 \<le> t div iv" using assms(1) by (simp add: pos_imp_zdiv_nonneg_iff)
    then have "t div iv \<le> window iv t" using assms(1) mult_left_mono [of 1 iv "t div iv"] by (simp add: window_def)
    then show ?thesis using r by (simp add: in_i64_def)
  next
    case False
    then have "t div iv < 0" using assms(1) by (simp add: div_neg_pos_less0)
    then show ?thesis by simp
  qed
  moreover have "i64_min \<le> t div iv"
  proof (cases "0 \<le> t")
    case True
    then have "0 \<le> t div iv" using assms(1) by (simp add: pos_imp_zdiv_nonneg_iff)
    then show ?thesis by simp
  next
    case False
    then have q: "t div iv < 0" using assms(1) by (simp add: div_neg_pos_less0)
    have "window iv t \<le> t div iv" using q assms(1) mult_left_mono_neg [of 1 iv "t div iv"] by (simp add: window_def)
    then show ?thesis using r by (simp add: in_i64_def)
  qed
  ultimately have "in_i64 (t div iv)" by (simp add: in_i64_def)
  then show ?thesis using r assms(1) by (simp add: bucket_start_def div_euclid_def window_def Let_def)
qed

lemma fill_buckets_eq:
  "times_ok iv ts \<Longrightarrow>
     fill_buckets iv ts m = Some (fold (\<lambda>t. hm_push (window iv (it_block_time t)) t) ts m)"
  by (induction iv ts m rule: fill_buckets.induct) (simp_all add: times_ok_def bucket_start_window)

lemma those_map_Some: "(\<And>x. x \<in> set xs \<Longrightarrow> f x = Some (g x)) \<Longrightarrow> those (map f xs) = Some (map g xs)"
  by (induction xs) simp_all

lemma sort_distinct_set: "distinct xs \<Longrightarrow> sort xs = sorted_list_of_set (set xs)"
  by (simp add: sorted_list_of_set_sort_remdups distinct_remdups_id)

lemma mint_candles_eq:
  assumes "times_ok iv ts"
  shows "mint_candles iv ts =
    Some (map (\<lambda>b. the (candle_of b (sort_key it_block_time (filter (\<lambda>t. window iv (it_block_time t) = b) ts))))
      (sorted_list_of_set ((\<lambda>t. window iv (it_block_time t)) ` set ts)))"
proof -
  let ?w = "\<lambda>t. window iv (it_block_time t)"
  let ?ts = "sort_key it_block_time ts"
  have "times_ok iv ?ts" using assms by (simp add: times_ok_def)
  from fill_buckets_eq [OF this] have fill: "fill_buckets iv ?ts [] = Some (group_by ?w ?ts)"
    by (simp add: group_by_def)
  have keys: "sort (map fst (group_by ?w ?ts)) = sorted_list_of_set (?w ` set ts)"
    unfolding sort_distinct_set [OF distinct_group_by] set_map group_by_keys by simp
  have "Option.bind (map_of (group_by ?w ?ts) b) (candle_of b) =
      Some (the (candle_of b (sort_key it_block_time (filter (\<lambda>t. ?w t = b) ts))))"
    if "b \<in> set (sorted_list_of_set (?w ` set ts))" for b
  proof -
    have b: "b \<in> ?w ` set ts" using that by simp
    then obtain t where t: "t \<in> set ts" "?w t = b" by blast
    then have "filter (\<lambda>t. ?w t = b) ?ts \<noteq> []" by (auto simp: filter_empty_conv)
    then obtain c where "candle_of b (filter (\<lambda>t. ?w t = b) ?ts) = Some c" using candle_of_Some by blast
    then show ?thesis using b by (simp add: group_by_lookup filter_sort)
  qed
  note those_map_Some [of _ _ "\<lambda>b. the (candle_of b (sort_key it_block_time (filter (\<lambda>t. ?w t = b) ts)))", OF this]
  then show ?thesis unfolding mint_candles_def fill option.case keys .
qed

lemma insert_candles_eq:
  assumes "\<forall>(mint, ts)\<in>set gs. mint_candles iv ts = Some (f mint)" and "distinct (map fst gs)"
  shows "insert_candles iv gs m = Some (\<lambda>mint. if mint \<in> fst ` set gs then Some (f mint) else m mint)"
  using assms by (induction iv gs m rule: insert_candles.induct) (auto simp: fun_eq_iff)

lemma build_candles_eq:
  assumes "times_ok iv trades"
  shows "build_candles trades iv = Some (\<lambda>mint.
    if mint \<in> it_mint ` set trades
    then Some (map (\<lambda>b. the (candle_of b (window_trades trades iv mint b))) (mint_windows trades iv mint))
    else None)"
proof -
  let ?f = "\<lambda>mint. map (\<lambda>b. the (candle_of b (window_trades trades iv mint b))) (mint_windows trades iv mint)"
  have "mint_candles iv ts = Some (?f mint)" if "(mint, ts) \<in> set (group_by it_mint trades)" for mint ts
  proof -
    have "map_of (group_by it_mint trades) mint = Some ts"
      using that by (simp add: map_of_eq_Some_iff distinct_group_by)
    then have ts: "ts = filter (\<lambda>t. it_mint t = mint) trades" by (auto simp: group_by_lookup split: if_splits)
    have ok: "times_ok iv ts" using assms by (auto simp: times_ok_def ts)
    show ?thesis unfolding mint_candles_eq [OF ok] by (simp add: ts window_trades_def mint_windows_def conj_commute)
  qed
  then have "\<forall>(mint, ts)\<in>set (group_by it_mint trades). mint_candles iv ts = Some (?f mint)" by auto
  from insert_candles_eq [OF this distinct_group_by] show ?thesis
    by (simp add: build_candles_def group_by_keys)
qed

text \<open>
  C25. The aggregation is exactly this: each traded mint gets one candle per window that holds one
  of its trades, in ascending window order, and no other; the candle is that of the mint's trades
  of the window in time order.  It never panics or overflows for a positive interval and times that
  leave room for one interval above the least \<open>i64\<close>.
\<close>

theorem build_candles_spec:
  assumes "times_ok iv trades"
  shows "build_candles trades iv = Some (\<lambda>mint.
    if mint \<in> it_mint ` set trades
    then Some (map (\<lambda>b. the (candle_of b (window_trades trades iv mint b))) (mint_windows trades iv mint))
    else None)"
  using assms by (rule build_candles_eq)


text \<open>Two trades of one block share its time; the example has a price of 2 and one of 10.\<close>

definition price_2 :: inferred_trade where
  "price_2 = \<lparr>it_signature = ''s1'', it_block_time = 100, it_mint = ''A'', it_price_in_sol = FNum 2,
     it_volume_sol = FNum 1\<rparr>"

definition price_10 :: inferred_trade where
  "price_10 = \<lparr>it_signature = ''s2'', it_block_time = 100, it_mint = ''A'', it_price_in_sol = FNum 10,
     it_volume_sol = FNum 1\<rparr>"

lemma example_times: "times_ok 60 [price_2, price_10]"
  by (simp add: times_ok_def price_2_def price_10_def)

lemma example_fields [simp]:
  "it_mint price_2 = ''A''" "it_mint price_10 = ''A''" "it_block_time price_2 = 100" "it_block_time price_10 = 100"
  "it_price_in_sol price_2 = FNum 2" "it_price_in_sol price_10 = FNum 10"
  by (simp_all add: price_2_def price_10_def)

lemma example_windows:
  assumes "set ts = {price_2, price_10}"
  shows "mint_windows ts 60 ''A'' = [60]"
proof -
  have "{t \<in> set ts. it_mint t = ''A''} = {price_2, price_10}" by (auto simp: assms)
  then show ?thesis by (simp add: mint_windows_def window_def)
qed

lemma example_window_trades:
  "window_trades [price_2, price_10] 60 ''A'' 60 = [price_2, price_10]"
  "window_trades [price_10, price_2] 60 ''A'' 60 = [price_10, price_2]"
  by (simp_all add: window_trades_def window_def)

theorem build_candles_spec_witness:
  "\<exists>r. build_candles [price_2, price_10] 60 = Some r \<and> (\<exists>c. r ''A'' = Some [c] \<and> cd_bucket_start c = 60)"
  using build_candles_spec [OF example_times]
  by (simp add: example_windows example_window_trades candle_of_def Let_def)

lemma mset_partition:
  "distinct bs \<Longrightarrow> f ` set xs \<subseteq> set bs \<Longrightarrow>
     mset (concat (map (\<lambda>b. filter (\<lambda>x. f x = b) xs) bs)) = mset xs"
proof (induction bs arbitrary: xs)
  case (Cons b bs)
  let ?ys = "filter (\<lambda>x. f x \<noteq> b) xs"
  have "mset (concat (map (\<lambda>c. filter (\<lambda>x. f x = c) ?ys) bs)) = mset ?ys"
    using Cons.prems by (intro Cons.IH) auto
  moreover have "map (\<lambda>c. filter (\<lambda>x. f x = c) ?ys) bs = map (\<lambda>c. filter (\<lambda>x. f x = c) xs) bs"
    using Cons.prems(1) by (auto intro!: filter_cong)
  ultimately have "mset (concat (map (\<lambda>c. filter (\<lambda>x. f x = c) xs) bs)) = mset ?ys" by (simp only:)
  then show ?case using mset_filter_split [of "\<lambda>x. f x = b" xs] by simp
qed simp

lemma candles_partition:
  assumes "times_ok iv trades" and "build_candles trades iv = Some r" and "r mint = Some cs"
  shows "sorted_wrt (<) (map cd_bucket_start cs) \<and>
    (\<forall>c\<in>set cs. iv dvd cd_bucket_start c \<and> window_trades trades iv mint (cd_bucket_start c) \<noteq> [] \<and>
       candle_of (cd_bucket_start c) (window_trades trades iv mint (cd_bucket_start c)) = Some c \<and>
       (\<forall>t\<in>set (window_trades trades iv mint (cd_bucket_start c)).
          cd_bucket_start c \<le> it_block_time t \<and> it_block_time t < cd_bucket_start c + iv)) \<and>
    mset (concat (map (\<lambda>c. window_trades trades iv mint (cd_bucket_start c)) cs)) =
      mset (filter (\<lambda>t. it_mint t = mint) trades)"
proof -
  let ?w = "\<lambda>t. window iv (it_block_time t)" and ?ts = "filter (\<lambda>t. it_mint t = mint) trades"
  let ?bs = "mint_windows trades iv mint" and ?c = "\<lambda>b. the (candle_of b (window_trades trades iv mint b))"
  have iv: "0 < iv" using assms(1) by (simp add: times_ok_def)
  have cs: "cs = map ?c ?bs" using assms(2,3) unfolding build_candles_eq [OF assms(1)] by (auto split: if_splits)
  have bs: "set ?bs = ?w ` set ?ts" "sorted_wrt (<) ?bs" "distinct ?bs" by (auto simp: mint_windows_def)
  have ne: "window_trades trades iv mint b \<noteq> []" if b: "b \<in> set ?bs" for b
  proof -
    obtain t where "t \<in> set ?ts" "?w t = b" using b unfolding bs(1) by blast
    then have "t \<in> set (window_trades trades iv mint b)" by (simp add: window_trades_def)
    then show ?thesis by auto
  qed
  have cand: "candle_of b (window_trades trades iv mint b) = Some (?c b)" if "b \<in> set ?bs" for b
    using candle_of_Some [OF ne [OF that]] by fastforce
  have start: "cd_bucket_start (?c b) = b" if "b \<in> set ?bs" for b
    by (rule candle_of_facts(2) [OF cand [OF that]])
  have starts: "map cd_bucket_start cs = ?bs" unfolding cs by (simp add: start map_idI)
  have "mset (concat (map (\<lambda>b. window_trades trades iv mint b) ?bs)) =
      mset (concat (map (\<lambda>b. filter (\<lambda>t. ?w t = b) ?ts) ?bs))"
    by (simp add: mset_concat comp_def window_trades_def conj_commute)
  also have "\<dots> = mset ?ts" using bs by (intro mset_partition) simp_all
  finally have part: "mset (concat (map (\<lambda>c. window_trades trades iv mint (cd_bucket_start c)) cs)) = mset ?ts"
    unfolding starts [symmetric] by (simp add: comp_def)
  have "iv dvd b" if "b \<in> set ?bs" for b using that unfolding bs(1) by (auto simp: window_def)
  moreover have "b \<le> it_block_time t \<and> it_block_time t < b + iv" if "t \<in> set (window_trades trades iv mint b)" for b t
    using that window_bounds [OF iv, of "it_block_time t"] by (auto simp: window_trades_def)
  ultimately have "\<forall>c\<in>set cs. iv dvd cd_bucket_start c \<and> window_trades trades iv mint (cd_bucket_start c) \<noteq> [] \<and>
       candle_of (cd_bucket_start c) (window_trades trades iv mint (cd_bucket_start c)) = Some c \<and>
       (\<forall>t\<in>set (window_trades trades iv mint (cd_bucket_start c)).
          cd_bucket_start c \<le> it_block_time t \<and> it_block_time t < cd_bucket_start c + iv)"
    unfolding cs using ne cand start by simp
  then show ?thesis using bs(2) part starts by simp
qed

text \<open>
  C26. Every inferred trade of a mint is counted in exactly one candle of its series: the windows
  of the candles ascend strictly, start at multiples of the interval, are never empty, and the
  trades they gather are together the mint's trades, each once and in a window that contains its
  block time.
\<close>

theorem build_candles_partition:
  assumes "times_ok iv trades" and "build_candles trades iv = Some r" and "r mint = Some cs"
  shows "sorted_wrt (<) (map cd_bucket_start cs) \<and>
    (\<forall>c\<in>set cs. iv dvd cd_bucket_start c \<and> window_trades trades iv mint (cd_bucket_start c) \<noteq> [] \<and>
       candle_of (cd_bucket_start c) (window_trades trades iv mint (cd_bucket_start c)) = Some c \<and>
       (\<forall>t\<in>set (window_trades trades iv mint (cd_bucket_start c)).
          cd_bucket_start c \<le> it_block_time t \<and> it_block_time t < cd_bucket_start c + iv)) \<and>
    mset (concat (map (\<lambda>c. window_trades trades iv mint (cd_bucket_start c)) cs)) =
      mset (filter (\<lambda>t. it_mint t = mint) trades)"
  using assms by (rule candles_partition)

text \<open>The trades of a window keep their order if no two of them have the same time.\<close>

lemma window_trades_permuted:
  assumes "mset trades' = mset trades"
    and "\<forall>t\<in>set (window_trades trades iv mint b). \<forall>u\<in>set (window_trades trades iv mint b).
      it_block_time t = it_block_time u \<longrightarrow> t = u"
  shows "window_trades trades' iv mint b = window_trades trades iv mint b"
  unfolding window_trades_def
proof (rule sort_key_inj_key_eq)
  let ?P = "\<lambda>t. it_mint t = mint \<and> window iv (it_block_time t) = b"
  have set: "set trades' = set trades" using assms(1) by (metis set_mset_mset)
  show "mset (filter ?P trades') = mset (sort_key it_block_time (filter ?P trades))" using assms(1) by simp
  show "inj_on it_block_time (set (filter ?P trades'))"
    using assms(2) set by (auto simp: inj_on_def window_trades_def)
qed simp

text \<open>
  C28. The candles depend only on the set of trades, not on the order in which the storage or the
  signature map returns them, provided that no two different trades of a mint have the same block
  time.
\<close>

theorem build_candles_order_independent:
  assumes "times_ok iv trades" and "mset trades' = mset trades"
    and "\<forall>t\<in>set trades. \<forall>u\<in>set trades. it_mint t = it_mint u \<and> it_block_time t = it_block_time u \<longrightarrow> t = u"
  shows "build_candles trades' iv = build_candles trades iv"
proof -
  have set: "set trades' = set trades" using assms(2) by (metis set_mset_mset)
  have ok: "times_ok iv trades'" using assms(1) by (simp add: times_ok_def set)
  have W: "window_trades trades' iv = window_trades trades iv"
    using assms(3) by (intro ext window_trades_permuted [OF assms(2)]) (auto simp: window_trades_def)
  have M: "mint_windows trades' iv = mint_windows trades iv" by (simp add: mint_windows_def set fun_eq_iff)
  show ?thesis unfolding build_candles_eq [OF assms(1)] build_candles_eq [OF ok] W M set ..
qed

text \<open>
  The proviso is necessary: all the trades of a block have its time, and for two of them the order
  of arrival decides which price is the open and which the close.
\<close>

lemma same_time_order_matters:
  "map_option (\<lambda>r. map_option (map (\<lambda>c. (cd_open c, cd_close c))) (r ''A'')) (build_candles [price_2, price_10] 60) =
     Some (Some [(FNum 2, FNum 10)])"
  "map_option (\<lambda>r. map_option (map (\<lambda>c. (cd_open c, cd_close c))) (r ''A'')) (build_candles [price_10, price_2] 60) =
     Some (Some [(FNum 10, FNum 2)])"
proof -
  have t: "times_ok 60 [price_10, price_2]" by (simp add: times_ok_def)
  note spec = build_candles_eq [OF example_times] build_candles_eq [OF t]
  show "map_option (\<lambda>r. map_option (map (\<lambda>c. (cd_open c, cd_close c))) (r ''A'')) (build_candles [price_2, price_10] 60) =
     Some (Some [(FNum 2, FNum 10)])"
    "map_option (\<lambda>r. map_option (map (\<lambda>c. (cd_open c, cd_close c))) (r ''A'')) (build_candles [price_10, price_2] 60) =
     Some (Some [(FNum 10, FNum 2)])"
    unfolding spec
    by (simp_all add: example_windows example_window_trades candle_of_def Let_def insert_commute)
qed


theorem candle_of_ohlc_witness:
  "\<exists>c. candle_of 60 [price_2, price_10] = Some c \<and> f64_val (cd_high c) = 10 \<and> f64_val (cd_low c) = 2"
proof -
  have "2 powi (-75) \<le> (2 :: rat)" "(10 :: rat) \<le> 2 powi 925" "(2 :: rat) \<le> 2 powi 925" "2 powi (-75) \<le> (10 :: rat)"
    "(1 :: rat) \<le> 2 powi 64" by (simp_all add: power_int_minus)
  moreover have "f64_val DUST_THRESHOLD_SOL \<le> 1" by code_simp
  ultimately have "\<forall>t\<in>set [price_2, price_10]. trade_ok t" by (simp add: trade_ok_def price_2_def price_10_def)
  from candle_of_ohlc [OF this, of 60] show ?thesis by (auto simp: prices_of_def)
qed

theorem build_candles_partition_witness:
  "\<exists>r cs. build_candles [price_2, price_10] 60 = Some r \<and> r ''A'' = Some cs \<and>
     mset (concat (map (\<lambda>c. window_trades [price_2, price_10] 60 ''A'' (cd_bucket_start c)) cs)) =
       {#price_2, price_10#}"
proof -
  obtain r cs where r: "build_candles [price_2, price_10] 60 = Some r" "r ''A'' = Some cs"
    using build_candles_eq [OF example_times] by simp
  from build_candles_partition [OF example_times r] show ?thesis using r by auto
qed

theorem build_candles_order_independent_witness:
  "build_candles [price_10\<lparr>it_block_time := 101\<rparr>, price_2] 60 = build_candles [price_2, price_10\<lparr>it_block_time := 101\<rparr>] 60"
  by (rule build_candles_order_independent) (simp_all add: times_ok_def)

end
