(* ===== verification/Retry.thy ===== *)
theory Retry
  imports F64
begin

section \<open>Retry with exponential backoff\<close>

text \<open>
  \<open>crates/ingest-core/src/retry.rs\<close>.  The asynchronous operation, the random generator and the
  timer act on a world of type \<open>'s\<close>; the loop threads it through.  \<open>gen_range\<close> belongs to the
  \<open>rand\<close> crate and is a parameter; it may panic, which is \<open>None\<close>, and then so does the loop.  A \<open>Duration\<close> is its
  number of nanoseconds.
\<close>

definition as_millis :: "nat \<Rightarrow> nat" where
  "as_millis d = d div 1000000"

record retry_config =
  max_retries :: u32
  base_delay :: nat
  max_delay :: nat
  jitter_factor :: f64

definition default_retry_config :: retry_config where
  "default_retry_config =
     \<lparr>max_retries = 5, base_delay = 250 * 1000000, max_delay = 10 * 1000000000,
      jitter_factor = f64_lit (2 / 10)\<rparr>"

record ('s, 'e, 'a) retry_env =
  re_op :: "'s \<Rightarrow> ('e + 'a) \<times> 's"
  re_should_retry :: "'e \<Rightarrow> bool"
  re_gen_range :: "f64 \<Rightarrow> f64 \<Rightarrow> 's \<Rightarrow> (f64 \<times> 's) option"
  re_sleep :: "nat \<Rightarrow> 's \<Rightarrow> 's"

text \<open>\<open>powi\<close> with an \<open>i32\<close> exponent, a cast of the \<open>u32\<close> attempt.\<close>

definition powi_i32 :: "f64 \<Rightarrow> 32 word \<Rightarrow> f64" where
  "powi_i32 a n =
     (if sint n < 0 then f64_div (f64_lit 1) (f64_powi a (nat (- sint n)))
      else f64_powi a (nat (sint n)))"

definition capped_delay :: "retry_config \<Rightarrow> u32 \<Rightarrow> f64" where
  "capped_delay cfg attempt =
     (let exp_delay = f64_mul (f64_of_nat (as_millis (base_delay cfg))) (powi_i32 (f64_lit 2) attempt)
      in f64_min exp_delay (f64_of_nat (as_millis (max_delay cfg))))"

definition jitter_range :: "retry_config \<Rightarrow> u32 \<Rightarrow> f64" where
  "jitter_range cfg attempt = f64_mul (capped_delay cfg attempt) (jitter_factor cfg)"

definition delay_ms :: "retry_config \<Rightarrow> u32 \<Rightarrow> f64 \<Rightarrow> nat" where
  "delay_ms cfg attempt jitter = f64_to_u64 (f64_max (f64_add (capped_delay cfg attempt) jitter) (f64_lit 0))"

definition draw_delay :: "retry_config \<Rightarrow> ('s, 'e, 'a) retry_env \<Rightarrow> u32 \<Rightarrow> 's \<Rightarrow> (nat \<times> 's) option" where
  "draw_delay cfg env attempt s =
     (let r = jitter_range cfg attempt
      in case re_gen_range env (f64_neg r) r s of
           None \<Rightarrow> None
         | Some (jitter, s') \<Rightarrow> Some (delay_ms cfg attempt jitter, s'))"

definition backoff :: "retry_config \<Rightarrow> ('s, 'e, 'a) retry_env \<Rightarrow> u32 \<Rightarrow> 's \<Rightarrow> 's option" where
  "backoff cfg env attempt s =
     (case draw_delay cfg env attempt s of None \<Rightarrow> None | Some (d, s') \<Rightarrow> Some (re_sleep env d s'))"

lemma u32_suc:
  fixes a m :: u32
  assumes "\<not> m \<le> a"
  shows "unat (a + 1) = Suc (unat a)" and "unat a < unat m"
proof -
  show m: "unat a < unat m" using assms by (simp add: word_le_nat_alt)
  moreover have "unat m < 2 ^ LENGTH(32)" by (rule unsigned_less)
  ultimately have "unat a + 1 < 2 ^ LENGTH(32)" by linarith
  then show "unat (a + 1) = Suc (unat a)" by (simp add: unat_word_ariths)
qed

function retry_loop :: "retry_config \<Rightarrow> ('s, 'e, 'a) retry_env \<Rightarrow> u32 \<Rightarrow> 's \<Rightarrow> (('e + 'a) \<times> 's) option" where
  "retry_loop cfg env attempt s =
     (case re_op env s of
        (Inr v, s1) \<Rightarrow> Some (Inr v, s1)
      | (Inl e, s1) \<Rightarrow>
          if max_retries cfg \<le> attempt \<or> \<not> re_should_retry env e then Some (Inl e, s1)
          else case backoff cfg env attempt s1 of
                 None \<Rightarrow> None
               | Some s2 \<Rightarrow> retry_loop cfg env (attempt + 1) s2)"
  by pat_completeness auto

termination
  by (relation "measure (\<lambda>(cfg, env, attempt, s). unat (max_retries cfg) - unat attempt)") (auto simp: u32_suc diff_less_mono2)

declare retry_loop.simps [simp del]

definition retry_with_backoff :: "retry_config \<Rightarrow> ('s, 'e, 'a) retry_env \<Rightarrow> 's \<Rightarrow> (('e + 'a) \<times> 's) option" where
  "retry_with_backoff cfg env s = retry_loop cfg env 0 s"

subsection \<open>Which attempt decides\<close>

text \<open>
  The world before the \<open>n\<close>-th attempt when all earlier ones are retried (\<open>None\<close> when a pause before it panicked), and
  whether the loop stops there.
\<close>

fun attempt_world :: "retry_config \<Rightarrow> ('s, 'e, 'a) retry_env \<Rightarrow> 's \<Rightarrow> nat \<Rightarrow> 's option" where
  "attempt_world cfg env s 0 = Some s"
| "attempt_world cfg env s (Suc n) =
     (case attempt_world cfg env s n of
        None \<Rightarrow> None
      | Some w \<Rightarrow> backoff cfg env (of_nat n) (snd (re_op env w)))"

definition stops_at :: "retry_config \<Rightarrow> ('s, 'e, 'a) retry_env \<Rightarrow> 's \<Rightarrow> nat \<Rightarrow> bool" where
  "stops_at cfg env s n \<longleftrightarrow>
     (case attempt_world cfg env s n of
        None \<Rightarrow> True
      | Some w \<Rightarrow>
          (case fst (re_op env w) of
             Inr _ \<Rightarrow> True
           | Inl e \<Rightarrow> unat (max_retries cfg) \<le> n \<or> \<not> re_should_retry env e))"

lemma retry_loop_step:
  assumes "attempt_world cfg env s (unat a) = Some w"
  shows "retry_loop cfg env a w =
     (if stops_at cfg env s (unat a) then Some (re_op env w)
      else case attempt_world cfg env s (unat (a + 1)) of None \<Rightarrow> None | Some w' \<Rightarrow> retry_loop cfg env (a + 1) w')"
proof (cases "re_op env w")
  case (Pair r s1)
  show ?thesis
  proof (cases r)
    case (Inl e)
    show ?thesis
    proof (cases "max_retries cfg \<le> a \<or> \<not> re_should_retry env e")
      case True
      then show ?thesis
        using Pair Inl assms by (subst retry_loop.simps) (auto simp: stops_at_def word_le_nat_alt)
    next
      case False
      then have "unat (a + 1) = Suc (unat a)" by (intro u32_suc(1) [of "max_retries cfg"]) simp
      with False show ?thesis
        using Pair Inl assms by (subst retry_loop.simps) (auto simp: stops_at_def word_le_nat_alt)
    qed
  qed (use Pair assms in \<open>subst retry_loop.simps, simp add: stops_at_def\<close>)
qed

lemma retry_loop_first_stop:
  assumes "attempt_world cfg env s (unat a) = Some w"
  shows "\<exists>k. unat a \<le> k \<and> k \<le> max (unat a) (unat (max_retries cfg)) \<and>
     retry_loop cfg env a w = map_option (re_op env) (attempt_world cfg env s k) \<and>
     stops_at cfg env s k \<and> (\<forall>i. unat a \<le> i \<and> i < k \<longrightarrow> \<not> stops_at cfg env s i)"
  using assms
proof (induction "unat (max_retries cfg) - unat a" arbitrary: a w rule: less_induct)
  case less
  note w = less.prems
  show ?case
  proof (cases "stops_at cfg env s (unat a)")
    case True
    then show ?thesis using retry_loop_step [OF w] w by (intro exI [of _ "unat a"]) auto
  next
    case False
    then have "\<not> max_retries cfg \<le> a"
      using w by (auto simp: stops_at_def word_le_nat_alt split: sum.splits)
    note suc = u32_suc [OF this]
    show ?thesis
    proof (cases "attempt_world cfg env s (unat (a + 1))")
      case None
      then have "stops_at cfg env s (unat (a + 1))" by (simp add: stops_at_def)
      moreover have "retry_loop cfg env a w = None" using retry_loop_step [OF w] False None by simp
      moreover have "\<not> stops_at cfg env s i" if "unat a \<le> i" "i < unat (a + 1)" for i
        using that False suc by (cases "i = unat a") auto
      ultimately show ?thesis using None suc by (intro exI [of _ "unat (a + 1)"]) auto
    next
      case (Some w')
      from suc have "unat (max_retries cfg) - unat (a + 1) < unat (max_retries cfg) - unat a" by simp
      from less.hyps [OF this Some] obtain k where k: "unat (a + 1) \<le> k" "k \<le> max (unat (a + 1)) (unat (max_retries cfg))"
        "retry_loop cfg env (a + 1) w' = map_option (re_op env) (attempt_world cfg env s k)"
        "stops_at cfg env s k" "\<forall>i. unat (a + 1) \<le> i \<and> i < k \<longrightarrow> \<not> stops_at cfg env s i" by blast
      have "\<not> stops_at cfg env s i" if "unat a \<le> i" "i < k" for i
        using that k(5) False suc by (cases "i = unat a") auto
      then show ?thesis
        using k(1-4) False suc Some retry_loop_step [OF w] by (intro exI [of _ k]) auto
    qed
  qed
qed

lemma retry_with_backoff_stop:
  obtains k where "k \<le> unat (max_retries cfg)"
    and "retry_with_backoff cfg env s = map_option (re_op env) (attempt_world cfg env s k)"
    and "stops_at cfg env s k" and "\<forall>i < k. \<not> stops_at cfg env s i"
  using retry_loop_first_stop [of cfg env s 0 s] by (auto simp: retry_with_backoff_def)

lemma not_stopsE:
  assumes "\<not> stops_at cfg env s i"
  obtains v e where "attempt_world cfg env s i = Some v" "fst (re_op env v) = Inl e" "re_should_retry env e"
    "i < unat (max_retries cfg)"
proof (cases "attempt_world cfg env s i")
  case (Some v)
  then show thesis using assms that by (cases "fst (re_op env v)") (auto simp: stops_at_def)
qed (use assms in \<open>simp add: stops_at_def\<close>)

text \<open>
  What \<open>gen_range(lo..=hi)\<close> promises: a value of the range, when the range is not empty and its bounds and width are
  finite.
\<close>

definition range_ok :: "f64 \<Rightarrow> f64 \<Rightarrow> bool" where
  "range_ok lo hi \<longleftrightarrow> f64_finite lo \<and> f64_finite hi \<and> f64_finite (f64_sub hi lo) \<and> f64_val lo \<le> f64_val hi"

definition gen_range_ok :: "(f64 \<Rightarrow> f64 \<Rightarrow> 's \<Rightarrow> (f64 \<times> 's) option) \<Rightarrow> bool" where
  "gen_range_ok g \<longleftrightarrow> (\<forall>lo hi s. range_ok lo hi \<longrightarrow>
     (\<exists>x s'. g lo hi s = Some (x, s') \<and> f64_finite x \<and> f64_val lo \<le> f64_val x \<and> f64_val x \<le> f64_val hi))"

text \<open>A configuration all of whose pauses ask for such a range.\<close>

definition jitter_ok :: "retry_config \<Rightarrow> bool" where
  "jitter_ok cfg \<longleftrightarrow> (\<forall>n < unat (max_retries cfg).
     range_ok (f64_neg (jitter_range cfg (of_nat n))) (jitter_range cfg (of_nat n)))"

lemma backoff_no_panic:
  assumes "gen_range_ok (re_gen_range env)" and "jitter_ok cfg" and "n < unat (max_retries cfg)"
  obtains s' where "backoff cfg env (of_nat n) s = Some s'"
proof -
  have "range_ok (f64_neg (jitter_range cfg (of_nat n))) (jitter_range cfg (of_nat n))"
    using assms(2,3) by (simp add: jitter_ok_def)
  then obtain x s' where "re_gen_range env (f64_neg (jitter_range cfg (of_nat n))) (jitter_range cfg (of_nat n)) s = Some (x, s')"
    using assms(1) unfolding gen_range_ok_def by blast
  then show thesis using that by (simp add: backoff_def draw_delay_def)
qed

lemma attempt_world_no_panic:
  assumes "gen_range_ok (re_gen_range env)" and "jitter_ok cfg" and "n \<le> unat (max_retries cfg)"
  obtains w where "attempt_world cfg env s n = Some w"
proof -
  have "\<exists>w. attempt_world cfg env s n = Some w"
    using assms(3)
  proof (induction n)
    case (Suc n)
    then obtain w where "attempt_world cfg env s n = Some w" by auto
    moreover obtain s' where "backoff cfg env (of_nat n) (snd (re_op env w)) = Some s'"
      by (rule backoff_no_panic [OF assms(1,2), of n]) (use Suc.prems in simp)
    ultimately show ?case by simp
  qed simp
  then show thesis using that by blast
qed

text \<open>
  C33. The retry loop ends after at most \<open>max_retries + 1\<close> calls, whatever the operation, the configuration and the
  generator: every call before the last failed with a transient error and was followed by a pause, and then either the
  last call succeeded, failed with an error not worth retrying, or is the last one allowed, and its result is returned, or
  the generator panicked in the pause after it.  When every pause asks for a non-empty finite range, nothing panics and
  a result is returned.
\<close>

theorem retry_first_stop:
  "(\<exists>k \<le> unat (max_retries cfg). \<exists>w. attempt_world cfg env s k = Some w \<and>
     (\<forall>i < k. \<exists>v e. attempt_world cfg env s i = Some v \<and> fst (re_op env v) = Inl e \<and> re_should_retry env e) \<and>
     (if (\<exists>e. fst (re_op env w) = Inl e \<and> re_should_retry env e) \<and> k < unat (max_retries cfg)
      then backoff cfg env (of_nat k) (snd (re_op env w)) = None \<and> retry_with_backoff cfg env s = None
      else retry_with_backoff cfg env s = Some (re_op env w))) \<and>
   (gen_range_ok (re_gen_range env) \<and> jitter_ok cfg \<longrightarrow> retry_with_backoff cfg env s \<noteq> None)"
proof (rule retry_with_backoff_stop [of cfg env s])
  fix k
  assume k: "k \<le> unat (max_retries cfg)" "retry_with_backoff cfg env s = map_option (re_op env) (attempt_world cfg env s k)"
    "stops_at cfg env s k" "\<forall>i < k. \<not> stops_at cfg env s i"
  have before: "\<exists>v e. attempt_world cfg env s i = Some v \<and> fst (re_op env v) = Inl e \<and> re_should_retry env e" if "i < k" for i
    by (rule not_stopsE [of cfg env s i]) (use k(4) that in blast)+
  have "\<exists>k \<le> unat (max_retries cfg). \<exists>w. attempt_world cfg env s k = Some w \<and>
     (\<forall>i < k. \<exists>v e. attempt_world cfg env s i = Some v \<and> fst (re_op env v) = Inl e \<and> re_should_retry env e) \<and>
     (if (\<exists>e. fst (re_op env w) = Inl e \<and> re_should_retry env e) \<and> k < unat (max_retries cfg)
      then backoff cfg env (of_nat k) (snd (re_op env w)) = None \<and> retry_with_backoff cfg env s = None
      else retry_with_backoff cfg env s = Some (re_op env w))"
  proof (cases "attempt_world cfg env s k")
    case (Some w)
    then have "\<not> (\<exists>e. fst (re_op env w) = Inl e \<and> re_should_retry env e \<and> k < unat (max_retries cfg))"
      using k(3) by (auto simp: stops_at_def)
    then show ?thesis using Some k(1,2) before by (intro exI [of _ k] conjI exI [of _ w]) auto
  next
    case None
    then obtain j where j: "k = Suc j" by (cases k) auto
    obtain v e where v: "attempt_world cfg env s j = Some v" "fst (re_op env v) = Inl e" "re_should_retry env e"
      using before [of j] j by auto
    have "backoff cfg env (of_nat j) (snd (re_op env v)) = None" using None v(1) by (simp add: j)
    then show ?thesis using k(1,2) None v before by (intro exI [of _ j] conjI exI [of _ v]) (auto simp: j)
  qed
  moreover have "retry_with_backoff cfg env s \<noteq> None" if "gen_range_ok (re_gen_range env)" "jitter_ok cfg"
    by (rule attempt_world_no_panic [OF that k(1), of s]) (simp add: k(2))
  ultimately show ?thesis by blast
qed

definition low_jitter_env :: "(nat, string, nat) retry_env" where
  "low_jitter_env =
     \<lparr>re_op = \<lambda>n. (if n < 2 then Inl ''timeout'' else Inr n, n + 1), re_should_retry = \<lambda>_. True,
      re_gen_range = \<lambda>lo hi n. if range_ok lo hi then Some (lo, n) else None, re_sleep = \<lambda>d n. n\<rparr>"

lemma low_jitter_op: "re_op low_jitter_env n = (if n < 2 then Inl ''timeout'' else Inr n, n + 1)"
  by (simp add: low_jitter_env_def)

lemma low_jitter_gen: "gen_range_ok (re_gen_range low_jitter_env)"
  by (simp add: gen_range_ok_def low_jitter_env_def range_ok_def)

lemma default_delays:
  "n < 5 \<Longrightarrow> capped_delay default_retry_config (of_nat n) = FNum (of_nat (250 * 2 ^ n)) \<and>
     jitter_range default_retry_config (of_nat n) = FNum (of_nat (50 * 2 ^ n))"
proof -
  have ms: "f64_of_nat 250 = FNum 250" "f64_of_nat 10000 = FNum 10000"
    by (simp_all add: f64_of_nat_def f64_round_numeral)
  have two: "f64_lit 2 = FNum 2" by code_simp
  have cap: "capped_delay default_retry_config (of_nat n) =
      f64_min (f64_mul (FNum 250) (powi_i32 (FNum 2) (of_nat n))) (FNum 10000)" for n
    by (simp add: capped_delay_def default_retry_config_def as_millis_def ms two Let_def)
  have p: "powi_i32 (FNum 2) 0 = FNum 1" "powi_i32 (FNum 2) 1 = FNum 2" "powi_i32 (FNum 2) 2 = FNum 4"
    "powi_i32 (FNum 2) 3 = FNum 8" "powi_i32 (FNum 2) 4 = FNum 16"
    unfolding powi_i32_def by (simp_all, code_simp+)
  have q: "f64_min (f64_mul (FNum 250) (FNum 1)) (FNum 10000) = FNum 250"
    "f64_min (f64_mul (FNum 250) (FNum 2)) (FNum 10000) = FNum 500"
    "f64_min (f64_mul (FNum 250) (FNum 4)) (FNum 10000) = FNum 1000"
    "f64_min (f64_mul (FNum 250) (FNum 8)) (FNum 10000) = FNum 2000"
    "f64_min (f64_mul (FNum 250) (FNum 16)) (FNum 10000) = FNum 4000"
    "f64_mul (FNum 250) (f64_lit (1 / 5)) = FNum 50"
    "f64_mul (FNum 500) (f64_lit (1 / 5)) = FNum 100"
    "f64_mul (FNum 1000) (f64_lit (1 / 5)) = FNum 200"
    "f64_mul (FNum 2000) (f64_lit (1 / 5)) = FNum 400"
    "f64_mul (FNum 4000) (f64_lit (1 / 5)) = FNum 800"
    by code_simp+
  have j: "jitter_factor default_retry_config = f64_lit (1 / 5)" by (simp add: default_retry_config_def)
  assume "n < 5"
  then have "n = 0 \<or> n = 1 \<or> n = 2 \<or> n = 3 \<or> n = 4" by linarith
  then show ?thesis unfolding jitter_range_def cap j by (auto simp: p q)
qed

lemma default_retries: "unat (max_retries default_retry_config) = 5"
  by (simp add: default_retry_config_def)

lemma default_jitter_ok: "jitter_ok default_retry_config"
proof -
  have "range_ok (f64_neg (FNum (of_nat (50 * 2 ^ n)))) (FNum (of_nat (50 * 2 ^ n)))" if "n < 5" for n
  proof -
    have n: "n = 0 \<or> n = 1 \<or> n = 2 \<or> n = 3 \<or> n = 4" using that by linarith
    have w: "f64_finite (f64_sub (FNum 50) (FNum (- 50)))" "f64_finite (f64_sub (FNum 100) (FNum (- 100)))"
      "f64_finite (f64_sub (FNum 200) (FNum (- 200)))" "f64_finite (f64_sub (FNum 400) (FNum (- 400)))"
      "f64_finite (f64_sub (FNum 800) (FNum (- 800)))" by code_simp+
    from n show ?thesis by (elim disjE) (simp_all add: range_ok_def w)
  qed
  then show ?thesis using default_delays by (simp add: jitter_ok_def default_retries)
qed

lemma low_jitter_world:
  "n \<le> 5 \<Longrightarrow> attempt_world default_retry_config low_jitter_env s n = Some (s + n)"
proof (induction n)
  case (Suc n)
  obtain s' where "backoff default_retry_config low_jitter_env (of_nat n) (s + n + 1) = Some s'"
    by (rule backoff_no_panic [OF low_jitter_gen default_jitter_ok, of n]) (use Suc.prems in \<open>simp add: default_retry_config_def\<close>)
  moreover have "s' = s + n + 1" using calculation
    by (auto simp: backoff_def draw_delay_def low_jitter_env_def Let_def split: if_splits)
  ultimately show ?case using Suc by (simp add: low_jitter_op)
qed simp

theorem retry_first_stop_witness:
  "retry_with_backoff default_retry_config low_jitter_env 0 = Some (Inr 2, 3)"
proof -
  let ?w = "attempt_world default_retry_config low_jitter_env 0"
  note five = default_retries
  have should: "re_should_retry low_jitter_env e" for e by (simp add: low_jitter_env_def)
  note T = retry_first_stop [of default_retry_config low_jitter_env 0, unfolded five]
  obtain k w where kw: "k \<le> 5" "?w k = Some w"
    "\<forall>i<k. \<exists>v e. ?w i = Some v \<and> fst (re_op low_jitter_env v) = Inl e \<and> re_should_retry low_jitter_env e"
    "if (\<exists>e. fst (re_op low_jitter_env w) = Inl e \<and> re_should_retry low_jitter_env e) \<and> k < 5
     then backoff default_retry_config low_jitter_env (of_nat k) (snd (re_op low_jitter_env w)) = None \<and>
       retry_with_backoff default_retry_config low_jitter_env 0 = None
     else retry_with_backoff default_retry_config low_jitter_env 0 = Some (re_op low_jitter_env w)"
    using T by blast
  have total: "retry_with_backoff default_retry_config low_jitter_env 0 \<noteq> None"
    using T low_jitter_gen default_jitter_ok by blast
  have w: "w = k" using kw(1,2) low_jitter_world [of k 0] by simp
  have "\<not> 2 < k"
  proof
    assume "2 < k"
    then obtain v e where "?w 2 = Some v" "fst (re_op low_jitter_env v) = Inl e" using kw(3) by blast
    then show False using low_jitter_world [of 2 0] by (auto simp: low_jitter_op)
  qed
  moreover have "\<not> k < 2" using kw(4) total by (auto simp: w low_jitter_op should)
  ultimately have "k = 2" by simp
  then show ?thesis using kw(4) by (simp add: w low_jitter_op)
qed

text \<open>A negative jitter factor makes the range empty: the first transient error is a panic, not a retry.\<close>

lemma negative_jitter_panics:
  "retry_with_backoff (default_retry_config\<lparr>jitter_factor := FNum (- 1)\<rparr>) low_jitter_env 0 = None"
proof -
  let ?cfg = "default_retry_config\<lparr>jitter_factor := FNum (- 1)\<rparr>"
  have c: "capped_delay ?cfg 0 = FNum 250"
    using default_delays [of 0] by (simp add: capped_delay_def default_retry_config_def)
  have "f64_mul (FNum 250) (FNum (- 1)) = FNum (- 250)" by code_simp
  then have "\<not> range_ok (f64_neg (jitter_range ?cfg 0)) (jitter_range ?cfg 0)"
    by (simp add: jitter_range_def c range_ok_def)
  then have "backoff ?cfg low_jitter_env 0 1 = None" by (simp add: backoff_def draw_delay_def low_jitter_env_def Let_def)
  then show ?thesis
    unfolding retry_with_backoff_def
    by (subst retry_loop.simps) (simp add: low_jitter_op, simp add: low_jitter_env_def default_retry_config_def)
qed

subsection \<open>Pauses\<close>


lemma delay_ms_bounds:
  assumes "capped_delay cfg a = FNum (of_nat c)" and "jitter_range cfg a = FNum (of_nat r)"
    and "r < c" and "c + r \<le> 2 ^ 53"
    and "f64_finite x" and "- of_nat r \<le> f64_val x" and "f64_val x \<le> of_nat r"
  shows "c - r \<le> delay_ms cfg a x" and "delay_ms cfg a x \<le> c + r"
proof -
  have lo: "of_nat (c - r) \<le> of_nat c + f64_val x" using assms(3,6) by simp
  have hi: "of_nat c + f64_val x \<le> of_nat (c + r)" using assms(7) by simp
  have lo': "of_nat (c - r) \<le> rnd (of_nat c + f64_val x)"
    using rnd_mono [OF lo] rnd_of_nat [of "c - r"] assms(4) by simp
  have hi': "rnd (of_nat c + f64_val x) \<le> of_nat (c + r)"
    using rnd_mono [OF hi] rnd_of_nat [of "c + r"] assms(4) by simp
  have pos: "(0 :: rat) < of_nat (c - r)" using assms(3) by simp
  have "(of_nat (c + r) :: rat) \<le> 2 powi 53" using of_nat_le_p2 [OF assms(4)] by simp
  then have "\<bar>of_nat c + f64_val x\<bar> \<le> 2 powi 53" using lo hi pos by linarith
  note fin = f64_round_finite [OF this]
  let ?y = "f64_add (FNum (of_nat c)) x"
  have y: "f64_finite ?y" "f64_val ?y = rnd (of_nat c + f64_val x)"
    using fin by (simp_all add: f64_add_fin assms(5))
  have z: "f64_lit 0 = FZero False" by code_simp
  have "f64_val ?y > 0" using y lo' pos by linarith
  then obtain q where q: "?y = FNum q" "0 < q" using y(1) by (cases ?y) auto
  have qv: "q = rnd (of_nat c + f64_val x)" using y(2) q(1) by simp
  have m: "f64_max ?y (f64_lit 0) = FNum q" using q by (simp add: z f64_max_def f64_lt_def)
  have fl: "int (c - r) \<le> \<lfloor>q\<rfloor>" "\<lfloor>q\<rfloor> \<le> int (c + r)"
    using lo' hi' unfolding qv [symmetric] by (simp_all add: le_floor_iff floor_le_iff)
  have d: "delay_ms cfg a x = min (nat \<lfloor>q\<rfloor>) (2 ^ 64 - 1)"
    using q(2) by (simp add: delay_ms_def assms(1) m f64_to_u64_def)
  show "c - r \<le> delay_ms cfg a x" and "delay_ms cfg a x \<le> c + r"
    unfolding d using fl assms(4) by (simp_all add: le_nat_iff nat_le_iff)
qed

lemma default_draw:
  assumes "gen_range_ok (re_gen_range env)" and "n < 5"
  obtains d s' where "draw_delay default_retry_config env (of_nat n) s = Some (d, s')" "200 * 2 ^ n \<le> d" "d \<le> 300 * 2 ^ n"
proof -
  note D = default_delays [OF assms(2), THEN conjunct1] default_delays [OF assms(2), THEN conjunct2]
  have "range_ok (f64_neg (FNum (of_nat (50 * 2 ^ n)))) (FNum (of_nat (50 * 2 ^ n)))"
    using default_jitter_ok assms(2) unfolding jitter_ok_def default_retries D(2) [symmetric] by blast
  then obtain x s' where g: "re_gen_range env (f64_neg (FNum (of_nat (50 * 2 ^ n)))) (FNum (of_nat (50 * 2 ^ n))) s = Some (x, s')"
    "f64_finite x" "f64_val (f64_neg (FNum (of_nat (50 * 2 ^ n)))) \<le> f64_val x" "f64_val x \<le> f64_val (FNum (of_nat (50 * 2 ^ n)))"
    using assms(1) unfolding gen_range_ok_def by blast
  have "(2 :: nat) ^ n \<le> 2 ^ 5" using assms(2) by (intro power_increasing) simp_all
  then have "250 * 2 ^ n + 50 * 2 ^ n \<le> (2 :: nat) ^ 53" by simp
  from delay_ms_bounds [OF D _ this g(2)] g(3,4)
  show thesis using that g(1) by (simp add: draw_delay_def D Let_def)
qed

text \<open>
  C34. With the configuration the fetcher uses, the pause after the n-th attempt (n < 5) is between
  200 and 300 milliseconds times 2^n, whatever the random generator returns within the requested
  range; the requested range is never empty, so the generator does not panic, and the five pauses
  of an exhausted request last at most 9.3 seconds together.
\<close>

theorem default_delay_bounds:
  assumes "gen_range_ok (re_gen_range env)" and "n < 5"
  shows "f64_val (f64_neg (jitter_range default_retry_config (of_nat n))) \<le> f64_val (jitter_range default_retry_config (of_nat n)) \<and>
    (\<exists>d s'. draw_delay default_retry_config env (of_nat n) s = Some (d, s') \<and> 200 * 2 ^ n \<le> d \<and> d \<le> 300 * 2 ^ n) \<and>
    (\<Sum>i<5. fst (the (draw_delay default_retry_config env (of_nat i) (w i)))) \<le> 9300"
proof -
  have one: "\<exists>d s'. draw_delay default_retry_config env (of_nat n) s = Some (d, s') \<and> 200 * 2 ^ n \<le> d \<and> d \<le> 300 * 2 ^ n"
    if "n < 5" for n s
    by (rule default_draw [OF assms(1) that]) blast
  have "fst (the (draw_delay default_retry_config env (of_nat i) (w i))) \<le> 300 * 2 ^ i" if "i < 5" for i
    using one [OF that, of "w i"] by auto
  then have "(\<Sum>i<5. fst (the (draw_delay default_retry_config env (of_nat i) (w i)))) \<le> (\<Sum>i<5. 300 * 2 ^ i)"
    by (intro sum_mono) simp
  also have "\<dots> = (\<Sum>i\<in>{0, 1, 2, 3, 4 :: nat}. 300 * 2 ^ i)" by (rule sum.cong) auto
  also have "\<dots> = (9300 :: nat)" by simp
  finally show ?thesis
    using one [OF assms(2), of s] default_delays [OF assms(2)] by simp
qed

theorem default_delay_bounds_witness:
  "\<exists>d s'. draw_delay default_retry_config low_jitter_env 2 0 = Some (d, s') \<and> 800 \<le> d"
  using default_delay_bounds [OF low_jitter_gen, of 2 0 "\<lambda>_. 0"] by auto

text \<open>The jitter is added after the cap, so a pause can exceed \<open>max_delay\<close>.\<close>

lemma jitter_exceeds_max_delay:
  "delay_ms (default_retry_config\<lparr>base_delay := 10 * 1000000000\<rparr>) 0 (FNum 2000) = 12000"
proof -
  have "f64_of_nat 10000 = FNum 10000" by (simp add: f64_of_nat_def f64_round_numeral)
  moreover have "powi_i32 (f64_lit 2) 0 = FNum 1" unfolding powi_i32_def by (simp, code_simp)
  moreover have "f64_min (f64_mul (FNum 10000) (FNum 1)) (FNum 10000) = FNum 10000" by code_simp
  moreover have "f64_max (f64_add (FNum 10000) (FNum 2000)) (f64_lit 0) = FNum 12000" by code_simp
  ultimately show ?thesis
    by (simp add: delay_ms_def capped_delay_def default_retry_config_def as_millis_def f64_to_u64_def)
qed

end
