(* ===== verification/Rate_Limiter.thy ===== *)
theory Rate_Limiter
  imports F64
begin

section \<open>Token-bucket rate limiter\<close>

text \<open>
  \<open>crates/ingest-core/src/rate_limiter.rs\<close>.  Instants and durations are nanoseconds; the critical
  section of \<open>acquire\<close> is one step on the shared bucket, in the order in which the mutex admits
  the clients.  The clock and the timer act on a world of type \<open>'s\<close>.
\<close>

definition as_secs_f64 :: "nat \<Rightarrow> f64" where
  "as_secs_f64 d =
     f64_add (f64_of_nat (d div 1000000000)) (f64_div (f64_of_nat (d mod 1000000000)) (f64_lit 1000000000))"

text \<open>\<open>Duration::from_secs_f64\<close> panics on NaN, negative and too large values.\<close>

definition from_secs_f64 :: "f64 \<Rightarrow> nat option" where
  "from_secs_f64 x =
     (case x of
        FZero _ \<Rightarrow> Some 0
      | FNum r \<Rightarrow>
          (let n = rhe (r * 1000000000) in if r < 0 \<or> 2 ^ 64 \<le> n div 1000000000 then None else Some (nat n))
      | _ \<Rightarrow> None)"

record bucket =
  tokens :: f64
  last_refill :: nat

record limiter =
  capacity :: f64
  refill_per_sec :: f64

definition new_limiter :: "f64 \<Rightarrow> f64 \<Rightarrow> nat \<Rightarrow> limiter \<times> bucket" where
  "new_limiter rate_per_sec burst now =
     (\<lparr>capacity = burst, refill_per_sec = rate_per_sec\<rparr>, \<lparr>tokens = burst, last_refill = now\<rparr>)"

definition refill :: "limiter \<Rightarrow> nat \<Rightarrow> bucket \<Rightarrow> bucket" where
  "refill cfg now b =
     (let elapsed = as_secs_f64 (now - last_refill b)
      in b\<lparr>tokens := f64_min (f64_add (tokens b) (f64_mul elapsed (refill_per_sec cfg))) (capacity cfg),
           last_refill := now\<rparr>)"

text \<open>One critical section: a token is taken, or the time to wait is computed; \<open>None\<close> is a panic.\<close>

definition acquire_attempt :: "limiter \<Rightarrow> nat \<Rightarrow> bucket \<Rightarrow> (bucket \<times> nat option) option" where
  "acquire_attempt cfg now b =
     (let b1 = refill cfg now b
      in if f64_ge (tokens b1) (f64_lit 1)
         then Some (b1\<lparr>tokens := f64_sub (tokens b1) (f64_lit 1)\<rparr>, None)
         else let deficit = f64_sub (f64_lit 1) (tokens b1)
              in case from_secs_f64 (f64_div deficit (refill_per_sec cfg)) of
                   None \<Rightarrow> None
                 | Some d \<Rightarrow> Some (b1, Some d))"

text \<open>The loop of one client that has the bucket to itself; the inner \<open>None\<close> is a panic.\<close>

partial_function (option) acquire ::
  "limiter \<Rightarrow> ('s \<Rightarrow> nat) \<Rightarrow> (nat \<Rightarrow> 's \<Rightarrow> 's) \<Rightarrow> bucket \<Rightarrow> 's \<Rightarrow> (bucket \<times> 's) option option" where
  "acquire cfg now sleep b s =
     (case acquire_attempt cfg (now s) b of
        None \<Rightarrow> Some None
      | Some (b', None) \<Rightarrow> Some (Some (b', s))
      | Some (b', Some d) \<Rightarrow> acquire cfg now sleep b' (sleep d s))"

text \<open>The critical sections of all clients, at the given instants.\<close>

fun run_attempts :: "limiter \<Rightarrow> bucket \<Rightarrow> nat list \<Rightarrow> (bucket \<times> nat option list) option" where
  "run_attempts cfg b [] = Some (b, [])"
| "run_attempts cfg b (t # ts) =
     (case acquire_attempt cfg t b of
        None \<Rightarrow> None
      | Some (b', w) \<Rightarrow> map_option (apsnd ((#) w)) (run_attempts cfg b' ts))"

subsection \<open>Rounding errors\<close>

definition ulp :: rat where
  "ulp = 2 powi (-53)"

lemma ulp_small: "0 < ulp" "ulp < 1"
  by (simp_all add: ulp_def power_int_minus)

lemma rnd_err_rel:
  assumes "2 powi (-1022) \<le> x"
  shows "\<bar>rnd x - x\<bar> \<le> x * ulp"
proof -
  have x: "0 < x" using less_le_trans [OF p2_pos assms] .
  have "(2::rat) powi (-1022) < 2 powi (ilog2 x + 1)" using ilog2_bounds(2) [OF x] assms by linarith
  then have "-1022 < ilog2 x + 1" by (simp only: p2_strict)
  then have q: "quantum x = ilog2 x - 52" using x by (simp add: quantum_def)
  have "\<bar>rnd x - x\<bar> \<le> 2 powi (ilog2 x + (-53))" using rnd_err [of x] by (simp add: q)
  also have "\<dots> = 2 powi ilog2 x * ulp" unfolding ulp_def by (rule p2_add)
  also have "\<dots> \<le> x * ulp" using ilog2_bounds(1) [OF x] ulp_small by (intro mult_right_mono) simp_all
  finally show ?thesis .
qed

lemma rnd_err_abs:
  assumes "0 \<le> x"
  shows "\<bar>rnd x - x\<bar> \<le> x * ulp + 2 powi (-1075)"
proof (cases "2 powi (-1022) \<le> x")
  case True
  then show ?thesis using rnd_err_rel [OF True] p2_pos [of "-1075"] by linarith
next
  case False
  have "quantum x - 1 = -1075" if "0 < x"
  proof -
    have "(2::rat) powi ilog2 x < 2 powi (-1022)" using ilog2_bounds(1) [OF that] False by linarith
    then have "ilog2 x < -1022" by (simp only: p2_strict)
    then show ?thesis using that by (simp add: quantum_def)
  qed
  then have "\<bar>rnd x - x\<bar> \<le> 2 powi (-1075)" if "0 < x" using rnd_err [of x] that by (simp only:)
  moreover have "rnd 0 = 0" using rnd_of_nat [of 0] by simp
  ultimately have "\<bar>rnd x - x\<bar> \<le> 2 powi (-1075)" using assms by (cases "x = 0") (simp_all del: power_int_numeral)
  moreover have "0 \<le> x * ulp" using assms ulp_small by simp
  ultimately show ?thesis by linarith
qed


text \<open>\<open>approx k y x\<close>: \<open>y\<close> is \<open>x\<close> up to \<open>k\<close> roundings.\<close>

definition approx :: "nat \<Rightarrow> rat \<Rightarrow> rat \<Rightarrow> bool" where
  "approx k y x \<longleftrightarrow> x * (1 - ulp) ^ k \<le> y \<and> y \<le> x * (1 + ulp) ^ k"

lemma approx_refl: "approx 0 x x"
  by (simp add: approx_def)

lemma approx_nonneg: "approx k y x \<Longrightarrow> 0 \<le> x \<Longrightarrow> 0 \<le> y"
  using ulp_small unfolding approx_def by (meson diff_ge_0_iff_ge less_imp_le mult_nonneg_nonneg order_trans zero_le_power)

lemma approx_add:
  assumes "approx k a x" and "approx k b y"
  shows "approx k (a + b) (x + y)"
  using assms by (auto simp: approx_def distrib_right intro: add_mono)

lemma approx_scale:
  assumes "approx k a x" and "0 \<le> r"
  shows "approx k (a * r) (x * r)"
proof -
  have "x * (1 - ulp) ^ k * r \<le> a * r" "a * r \<le> x * (1 + ulp) ^ k * r"
    using assms unfolding approx_def by (simp_all add: mult_right_mono)
  then show ?thesis unfolding approx_def by (simp add: mult.assoc mult.commute [of r])
qed

lemma approx_mono:
  assumes "approx j y x" and "j \<le> k" and "0 \<le> x"
  shows "approx k y x"
proof -
  have "x * (1 - ulp) ^ k \<le> x * (1 - ulp) ^ j"
    using assms ulp_small by (intro mult_left_mono power_decreasing) simp_all
  moreover have "x * (1 + ulp) ^ j \<le> x * (1 + ulp) ^ k"
    using assms ulp_small by (intro mult_left_mono power_increasing) simp_all
  ultimately show ?thesis using assms(1) unfolding approx_def by linarith
qed

lemma half_le_power: "k \<le> 9 \<Longrightarrow> 1 / 2 \<le> (1 - ulp) ^ k"
proof -
  assume "k \<le> 9"
  then have "(1 - ulp) ^ 9 \<le> (1 - ulp) ^ k" using ulp_small by (intro power_decreasing) simp_all
  moreover have "1 / 2 \<le> (1 - ulp) ^ 9" by (simp add: ulp_def power_int_minus power_divide)
  ultimately show ?thesis by linarith
qed

lemma approx_rnd:
  assumes "approx k y x" and "x = 0 \<or> 2 powi (-1000) \<le> x" and "k \<le> 9"
  shows "approx (Suc k) (rnd y) x"
proof (cases "x = 0")
  case True
  then have "y = 0" using assms(1) by (simp add: approx_def)
  then show ?thesis using True by (simp add: approx_def rnd_def)
next
  case False
  then have x: "2 powi (-1000) \<le> x" using assms(2) by simp
  then have x0: "0 < x" by (rule less_le_trans [OF p2_pos])
  have "x * (1 / 2) \<le> x * (1 - ulp) ^ k" using half_le_power [OF assms(3)] x0 by (intro mult_left_mono) simp_all
  then have "x * (1 / 2) \<le> y" using assms(1) unfolding approx_def by linarith
  moreover have "(2::rat) powi (-1000) * (1 / 2) \<le> x * (1 / 2)" using x by (intro mult_right_mono) simp_all
  moreover have "(2::rat) powi (-1000) * (1 / 2) = 2 powi (-1001)" using p2_add [of "-1000" "-1"] by (simp add: power_int_minus)
  moreover have "(2::rat) powi (-1022) \<le> 2 powi (-1001)" by (simp only: p2_mono)
  ultimately have "2 powi (-1022) \<le> y" by linarith
  note err = rnd_err_rel [OF this]
  have "rnd y \<le> y * (1 + ulp)" using err unfolding distrib_left by linarith
  also have "\<dots> \<le> x * (1 + ulp) ^ k * (1 + ulp)"
    using assms(1) ulp_small unfolding approx_def by (intro mult_right_mono) simp_all
  finally have up: "rnd y \<le> x * (1 + ulp) ^ Suc k" by (simp only: power_Suc2 mult.assoc)
  have "x * (1 - ulp) ^ k * (1 - ulp) \<le> y * (1 - ulp)"
    using assms(1) ulp_small unfolding approx_def by (intro mult_right_mono) simp_all
  also have "\<dots> \<le> rnd y" using err unfolding right_diff_distrib by linarith
  finally show ?thesis using up unfolding approx_def by (simp only: power_Suc2 mult.assoc)
qed

subsection \<open>Refilling\<close>

definition secs :: "nat \<Rightarrow> rat" where
  "secs d = of_nat d / 1000000000"

definition limiter_ok :: "limiter \<Rightarrow> bool" where
  "limiter_ok cfg \<longleftrightarrow>
     f64_finite (capacity cfg) \<and> 1 \<le> f64_val (capacity cfg) \<and> f64_val (capacity cfg) \<le> 2 ^ 20 \<and>
     rnd (f64_val (capacity cfg)) = f64_val (capacity cfg) \<and>
     f64_finite (refill_per_sec cfg) \<and> 1 / 2 ^ 10 \<le> f64_val (refill_per_sec cfg) \<and>
     f64_val (refill_per_sec cfg) \<le> 2 ^ 20"

definition bucket_ok :: "limiter \<Rightarrow> bucket \<Rightarrow> bool" where
  "bucket_ok cfg b \<longleftrightarrow>
     f64_finite (tokens b) \<and> 0 \<le> f64_val (tokens b) \<and> f64_val (tokens b) \<le> f64_val (capacity cfg)"

abbreviation (input) MAX_GAP :: nat where "MAX_GAP \<equiv> 2 ^ 50 * 1000000000"

lemma f64_lit_1e9: "f64_lit 1000000000 = FNum 1000000000"
  by (simp add: f64_lit_def f64_round_numeral)

lemma as_secs_approx:
  assumes "d < MAX_GAP"
  shows "f64_finite (as_secs_f64 d)" and "approx 2 (f64_val (as_secs_f64 d)) (secs d)"
proof -
  define q r where "q = d div 1000000000" and "r = d mod 1000000000"
  have r: "r < 1000000000" by (simp add: r_def)
  have q: "q < 2 ^ 50" unfolding q_def using assms by (intro less_mult_imp_div_less) simp
  have d: "secs d = of_nat q + of_nat r / 1000000000"
  proof -
    have "d = q * 1000000000 + r" by (simp add: q_def r_def)
    then have "(of_nat d :: rat) = of_nat q * 1000000000 + of_nat r" by simp
    then show ?thesis by (simp add: secs_def add_divide_distrib)
  qed
  have fq: "f64_finite (f64_of_nat q)" "f64_val (f64_of_nat q) = of_nat q"
    using q f64_of_nat_fin(1) [of q] f64_of_nat_exact [of q] by simp_all
  have fr: "f64_finite (f64_of_nat r)" "f64_val (f64_of_nat r) = of_nat r"
    using r f64_of_nat_fin(1) [of r] f64_of_nat_exact [of r] by simp_all
  define R where "R = f64_div (f64_of_nat r) (f64_lit 1000000000)"
  have "(of_nat r :: rat) < of_nat 1000000000" using r by (simp only: of_nat_less_iff)
  then have "\<bar>of_nat r / 1000000000 :: rat\<bar> \<le> 2 powi 0" by simp
  note fin = f64_round_finite [OF this]
  have R: "f64_finite R" "f64_val R = rnd (of_nat r / 1000000000)"
    unfolding R_def f64_lit_1e9 using fin fr by (simp_all add: f64_div_fin)
  have pr: "(of_nat r / 1000000000 :: rat) = 0 \<or> 2 powi (-1000) \<le> (of_nat r / 1000000000 :: rat)"
  proof (cases "r = 0")
    case False
    then have "(of_nat 1 :: rat) \<le> of_nat r" by (simp only: of_nat_le_iff)
    then have "1 / 1000000000 \<le> (of_nat r / 1000000000 :: rat)" by (simp add: divide_right_mono)
    moreover have "(2::rat) powi (-1000) \<le> 2 powi (-30)" by (simp only: p2_mono)
    moreover have "(2::rat) powi (-30) \<le> 1 / 1000000000" by (simp add: power_int_minus)
    ultimately show ?thesis by linarith
  qed simp
  have aR: "approx 1 (f64_val R) (of_nat r / 1000000000)"
    unfolding R using approx_rnd [OF approx_refl pr] by simp
  have aq: "approx 1 (of_nat q) (of_nat q)" by (rule approx_mono [OF approx_refl]) simp_all
  have sum: "approx 1 (of_nat q + f64_val R) (secs d)" unfolding d by (rule approx_add [OF aq aR])
  have "(of_nat q + of_nat r / 1000000000 :: rat) = 0 \<or> 2 powi (-1000) \<le> (of_nat q + of_nat r / 1000000000 :: rat)"
  proof (cases "q = 0")
    case False
    then have "(of_nat 1 :: rat) \<le> of_nat q" by (simp only: of_nat_le_iff)
    moreover have "(0 :: rat) \<le> of_nat r / 1000000000" by simp
    moreover have "(2::rat) powi (-1000) \<le> 2 powi 0" by (simp only: p2_mono)
    ultimately show ?thesis by (simp del: power_int_numeral) 
  qed (use pr in simp)
  then have a2: "approx 2 (rnd (of_nat q + f64_val R)) (secs d)"
    using approx_rnd [OF sum] unfolding d by (simp only: numeral_2_eq_2) simp
  have R1: "0 \<le> f64_val R" "f64_val R \<le> 2 powi 0"
    using R rnd.fl_nonneg [of "of_nat r / 1000000000"] rnd.fl_le_p2 [of 0 "of_nat r / 1000000000"]
      \<open>\<bar>of_nat r / 1000000000\<bar> \<le> 2 powi 0\<close> by simp_all
  have "(of_nat q :: rat) \<le> 2 powi 50" using of_nat_le_p2 [OF less_imp_le [OF q]] by simp
  then have "\<bar>of_nat q + f64_val R\<bar> \<le> 2 powi 51" using R1 by simp
  note fin = f64_round_finite [OF this]
  show "f64_finite (as_secs_f64 d)" and "approx 2 (f64_val (as_secs_f64 d)) (secs d)"
    unfolding as_secs_f64_def q_def [symmetric] r_def [symmetric] R_def [symmetric] f64_add_fin [OF fq(1) R(1)] fq(2)
    using fin a2 by simp_all
qed


lemma gap_secs: "d < MAX_GAP \<Longrightarrow> 0 \<le> secs d \<and> secs d \<le> 2 ^ 50 \<and> (secs d = 0 \<or> 1 / 1000000000 \<le> secs d)"
proof -
  assume "d < MAX_GAP"
  then have "(of_nat d :: rat) \<le> of_nat MAX_GAP" by (simp only: of_nat_le_iff less_imp_le)
  moreover have "d = 0 \<or> (of_nat 1 :: rat) \<le> of_nat d" by (simp only: of_nat_le_iff) auto
  ultimately show ?thesis by (auto simp: secs_def divide_right_mono)
qed

definition earned :: "limiter \<Rightarrow> bucket \<Rightarrow> nat \<Rightarrow> f64" where
  "earned cfg b now = f64_mul (as_secs_f64 (now - last_refill b)) (refill_per_sec cfg)"

lemma earned_approx:
  assumes "limiter_ok cfg" and "now - last_refill b < MAX_GAP"
  defines "x \<equiv> f64_val (earned cfg b now)" and "e \<equiv> secs (now - last_refill b) * f64_val (refill_per_sec cfg)"
  shows "f64_finite (earned cfg b now)" and "approx 3 x e" and "0 \<le> e" and "0 \<le> x" and "x \<le> 2 powi 71"
proof -
  let ?d = "now - last_refill b" and ?r = "f64_val (refill_per_sec cfg)"
  note A = as_secs_approx [OF assms(2)]
  have r: "f64_finite (refill_per_sec cfg)" "1 / 2 ^ 10 \<le> ?r" "?r \<le> 2 ^ 20" using assms(1) by (simp_all add: limiter_ok_def)
  then have r0: "0 < ?r" using less_le_trans [of 0 "1 / 2 ^ 10 :: rat" ?r] by simp
  note s = gap_secs [OF assms(2)]
  show e0: "0 \<le> e" unfolding e_def using s r0 by simp
  have low: "e = 0 \<or> 2 powi (-1000) \<le> e"
  proof (cases "secs ?d = 0")
    case False
    then have "1 / 1000000000 \<le> secs ?d" using s by blast
    then have "1 / 1000000000 * (1 / 2 ^ 10) \<le> e" unfolding e_def using r r0 by (intro mult_mono) simp_all
    moreover have "(2::rat) powi (-1000) \<le> 2 powi (-40)" by (simp only: p2_mono)
    moreover have "(2::rat) powi (-40) \<le> 1 / 1000000000 * (1 / 2 ^ 10)" by (simp add: power_int_minus)
    ultimately show ?thesis by linarith
  qed (simp add: e_def)
  have prod: "approx 2 (f64_val (as_secs_f64 ?d) * ?r) e" unfolding e_def using approx_scale [OF A(2)] r0 by simp
  have e70: "e \<le> 2 ^ 50 * 2 ^ 20" unfolding e_def using s r r0 by (intro mult_mono) simp_all
  have "(1 + ulp) ^ 2 \<le> 2" by (simp add: ulp_def power_int_minus power2_eq_square)
  then have "e * (1 + ulp) ^ 2 \<le> 2 ^ 50 * 2 ^ 20 * 2" using e70 e0 by (intro mult_mono) simp_all
  then have le: "f64_val (as_secs_f64 ?d) * ?r \<le> 2 powi 71" using prod unfolding approx_def by simp
  moreover have ge: "0 \<le> f64_val (as_secs_f64 ?d) * ?r" by (rule approx_nonneg [OF prod e0])
  ultimately have "\<bar>f64_val (as_secs_f64 ?d) * ?r\<bar> \<le> 2 powi 71" by simp
  note fin = f64_round_finite [OF this]
  have v: "x = rnd (f64_val (as_secs_f64 ?d) * ?r)"
    unfolding x_def earned_def f64_mul_fin [OF A(1) r(1)] using fin by simp
  show "f64_finite (earned cfg b now)" unfolding earned_def f64_mul_fin [OF A(1) r(1)] using fin by simp
  show "approx 3 x e" unfolding v using approx_rnd [OF prod low] by (simp add: numeral_3_eq_3 numeral_2_eq_2)
  show "0 \<le> x" unfolding v by (rule rnd.fl_nonneg [OF ge])
  show "x \<le> 2 powi 71" unfolding v by (rule rnd.fl_le_p2 [OF _ le]) simp
qed

lemma refill_tokens:
  assumes "limiter_ok cfg" and "bucket_ok cfg b" and "now - last_refill b < MAX_GAP"
  shows "f64_finite (tokens (refill cfg now b))"
    and "f64_val (tokens (refill cfg now b)) =
      min (rnd (f64_val (tokens b) + f64_val (earned cfg b now))) (f64_val (capacity cfg))"
    and "bucket_ok cfg (refill cfg now b)" and "last_refill (refill cfg now b) = now"
proof -
  note E = earned_approx [OF assms(1,3)]
  let ?v = "f64_val (tokens b)" and ?x = "f64_val (earned cfg b now)"
  have b: "f64_finite (tokens b)" "0 \<le> ?v" "?v \<le> 2 ^ 20" using assms(1,2) by (auto simp: bucket_ok_def limiter_ok_def)
  have c: "f64_finite (capacity cfg)" "1 \<le> f64_val (capacity cfg)" using assms(1) by (simp_all add: limiter_ok_def)
  have "\<bar>?v + ?x\<bar> \<le> 2 powi 72" using b E(4,5) by simp
  note fin = f64_round_finite [OF this]
  have s: "f64_finite (f64_add (tokens b) (earned cfg b now))" "f64_val (f64_add (tokens b) (earned cfg b now)) = rnd (?v + ?x)"
    unfolding f64_add_fin [OF b(1) E(1)] using fin by simp_all
  have t: "tokens (refill cfg now b) = f64_min (f64_add (tokens b) (earned cfg b now)) (capacity cfg)"
    by (simp add: refill_def earned_def Let_def)
  show f: "f64_finite (tokens (refill cfg now b))" unfolding t using f64_min_fin [OF s(1) c(1)] by simp
  show v: "f64_val (tokens (refill cfg now b)) = min (rnd (?v + ?x)) (f64_val (capacity cfg))"
    unfolding t using f64_min_fin [OF s(1) c(1)] s(2) by simp
  have "0 \<le> rnd (?v + ?x)" using b(2) E(4) by (intro rnd.fl_nonneg) simp
  then show "bucket_ok cfg (refill cfg now b)" unfolding bucket_ok_def v using f c by simp
  show "last_refill (refill cfg now b) = now" by (simp add: refill_def Let_def)
qed

text \<open>With room for the four roundings of a refill, the refilled bucket gains no more than the elapsed time earns.\<close>

lemma refill_gain:
  assumes "limiter_ok cfg" and "bucket_ok cfg b" and "now - last_refill b < MAX_GAP"
  shows "f64_val (tokens (refill cfg now b)) \<le> f64_val (tokens b) +
    secs (now - last_refill b) * f64_val (refill_per_sec cfg) * (1 + 4 * ulp) + f64_val (capacity cfg) * (2 * ulp)"
proof -
  note E = earned_approx [OF assms(1,3)]
  let ?v = "f64_val (tokens b)" and ?x = "f64_val (earned cfg b now)" and ?c = "f64_val (capacity cfg)"
    and ?e = "secs (now - last_refill b) * f64_val (refill_per_sec cfg)"
  have c: "1 \<le> ?c" using assms(1) by (simp add: limiter_ok_def)
  have v: "0 \<le> ?v" using assms(2) by (simp add: bucket_ok_def)
  have "(1 + ulp) ^ 3 \<le> 1 + 4 * ulp" by (simp add: ulp_def power_int_minus power3_eq_cube)
  then have x: "?x \<le> ?e * (1 + 4 * ulp)"
    using E(2,3) unfolding approx_def by (meson mult_left_mono order_trans)
  show ?thesis
  proof (cases "?c \<le> ?v + ?x")
    case True
    have "f64_val (tokens (refill cfg now b)) \<le> ?c" unfolding refill_tokens(2) [OF assms] by simp
    also have "\<dots> \<le> ?v + ?e * (1 + 4 * ulp)" using True x by linarith
    finally show ?thesis using c ulp_small by (simp add: add_increasing2)
  next
    case False
    have "rnd (?v + ?x) \<le> (?v + ?x) + ((?v + ?x) * ulp + 2 powi (-1075))"
      using rnd_err_abs [of "?v + ?x"] v E(4) by linarith
    moreover have "(?v + ?x) * ulp \<le> ?c * ulp" using False ulp_small by (intro mult_right_mono) simp_all
    moreover have "(2::rat) powi (-1075) \<le> ulp" unfolding ulp_def by (simp only: p2_mono)
    moreover have "ulp \<le> ?c * ulp" using c ulp_small by simp
    moreover have "?c * (2 * ulp) = ?c * ulp + ?c * ulp" by simp
    ultimately have "rnd (?v + ?x) \<le> ?v + ?e * (1 + 4 * ulp) + ?c * (2 * ulp)" using x by linarith
    then show ?thesis unfolding refill_tokens(2) [OF assms] by linarith
  qed
qed


subsection \<open>One critical section\<close>

lemma f64_lit_1: "f64_lit 1 = FNum 1"
  by (simp add: f64_lit_def f64_round_int [of 1, simplified])

lemma token_taken:
  assumes "f64_finite t" and "1 \<le> f64_val t" and "f64_val t \<le> c" and "c \<le> 2 ^ 20" and "rnd c = c"
  defines "t' \<equiv> f64_sub t (f64_lit 1)"
  shows "f64_finite t'" and "0 \<le> f64_val t'" and "f64_val t' \<le> c"
    and "f64_val t' + 1 \<le> f64_val t + c * (2 * ulp)"
proof -
  let ?y = "f64_val t - 1"
  have y: "0 \<le> ?y" "?y \<le> c" using assms(2,3) by simp_all
  have "\<bar>?y\<bar> \<le> 2 powi 20" using y assms(4) by simp
  note fin = f64_round_finite [OF this]
  have "f64_finite (f64_lit 1)" by (simp add: f64_lit_1)
  note sub = f64_sub_fin [OF assms(1) this]
  show "f64_finite t'" unfolding t'_def sub by (simp add: f64_lit_1 fin)
  have v: "f64_val t' = rnd ?y" unfolding t'_def sub by (simp add: f64_lit_1 fin)
  show "0 \<le> f64_val t'" unfolding v by (rule rnd.fl_nonneg [OF y(1)])
  show "f64_val t' \<le> c" unfolding v using rnd_mono [OF y(2)] assms(5) by simp
  have "rnd ?y \<le> ?y + (?y * ulp + 2 powi (-1075))" using rnd_err_abs [OF y(1)] by linarith
  moreover have "?y * ulp \<le> c * ulp" using y ulp_small by (intro mult_right_mono) simp_all
  moreover have "(2::rat) powi (-1075) \<le> ulp" unfolding ulp_def by (simp only: p2_mono)
  moreover have "ulp \<le> c * ulp" using assms(2,3) ulp_small by simp
  moreover have "c * (2 * ulp) = c * ulp + c * ulp" by simp
  ultimately show "f64_val t' + 1 \<le> f64_val t + c * (2 * ulp)" unfolding v by linarith
qed

lemma attempt_granted:
  assumes "limiter_ok cfg" and "bucket_ok cfg b" and "now - last_refill b < MAX_GAP"
    and "1 \<le> f64_val (tokens (refill cfg now b))"
  obtains b' where "acquire_attempt cfg now b = Some (b', None)" and "bucket_ok cfg b'" and "last_refill b' = now"
    and "f64_val (tokens b') + 1 \<le> f64_val (tokens (refill cfg now b)) + f64_val (capacity cfg) * (2 * ulp)"
proof -
  note R = refill_tokens [OF assms(1-3)]
  let ?t = "tokens (refill cfg now b)"
  let ?b = "(refill cfg now b)\<lparr>tokens := f64_sub ?t (f64_lit 1)\<rparr>"
  have f1: "f64_finite (f64_lit 1)" by (simp add: f64_lit_1)
  have "f64_ge ?t (f64_lit 1)" unfolding f64_ge_fin [OF R(1) f1] using assms(4) by (simp add: f64_lit_1)
  then have a: "acquire_attempt cfg now b = Some (?b, None)" by (simp add: acquire_attempt_def Let_def)
  have c: "f64_val ?t \<le> f64_val (capacity cfg)" "f64_val (capacity cfg) \<le> 2 ^ 20" "rnd (f64_val (capacity cfg)) = f64_val (capacity cfg)"
    using R(3) assms(1) by (simp_all add: bucket_ok_def limiter_ok_def)
  note T = token_taken [OF R(1) assms(4) c]
  show thesis by (rule that [OF a]) (use T R(4) in \<open>simp_all add: bucket_ok_def\<close>)
qed

lemma from_secs_finite:
  assumes "f64_finite x" and "0 \<le> f64_val x" and "f64_val x \<le> 2 powi 40"
  obtains d where "from_secs_f64 x = Some d" and "f64_val x - 1 / 2000000000 \<le> secs d"
    and "secs d \<le> f64_val x + 1 / 2000000000"
proof (cases x)
  case (FZero s)
  then show thesis using that [of 0] by (simp add: from_secs_f64_def secs_def)
next
  case (FNum r)
  let ?n = "rhe (r * 1000000000)"
  have r: "0 \<le> r" "r \<le> 2 powi 40" using assms FNum by simp_all
  have err: "\<bar>of_int ?n - r * 1000000000\<bar> \<le> 1 / 2" by (rule rhe_err)
  have n0: "0 \<le> ?n" using rhe_mono [of 0 "r * 1000000000"] r(1) rhe_int [of 0] by simp
  have "r * 1000000000 \<le> of_int (2 ^ 40 * 1000000000)" using r(2) by simp
  then have "?n \<le> 2 ^ 40 * 1000000000" using rhe_mono rhe_int by metis
  then have "?n div 1000000000 \<le> 2 ^ 40" using zdiv_mono1 [of ?n "2 ^ 40 * 1000000000" 1000000000] by simp
  then have "?n div 1000000000 < 2 ^ 64" by (rule le_less_trans) simp
  then have "\<not> 2 ^ 64 \<le> ?n div 1000000000" by (simp only: not_le)
  then have f: "from_secs_f64 x = Some (nat ?n)" using FNum r(1) by (simp add: from_secs_f64_def Let_def)
  have s: "secs (nat ?n) = of_int ?n / 1000000000" using n0 by (simp add: secs_def)
  have "r - 1 / 2000000000 \<le> secs (nat ?n)" "secs (nat ?n) \<le> r + 1 / 2000000000" unfolding s using err by linarith+
  then show thesis using that [OF f] FNum by simp
qed (use assms in simp_all)

text \<open>A refused attempt returns a wait that covers the missing fraction of a token, up to rounding.\<close>

lemma attempt_refused:
  assumes "limiter_ok cfg" and "bucket_ok cfg b" and "now - last_refill b < MAX_GAP"
    and "f64_val (tokens (refill cfg now b)) < 1"
  defines "q \<equiv> 1 - f64_val (tokens (refill cfg now b))"
  obtains d where "acquire_attempt cfg now b = Some (refill cfg now b, Some d)"
    and "q - 4 * ulp \<le> (secs d + 1 / 2000000000) * f64_val (refill_per_sec cfg)"
    and "secs d \<le> 2 ^ 11"
proof -
  note R = refill_tokens [OF assms(1-3)]
  let ?t = "tokens (refill cfg now b)" and ?r = "f64_val (refill_per_sec cfg)"
  have r: "f64_finite (refill_per_sec cfg)" "1 / 2 ^ 10 \<le> ?r" "?r \<le> 2 ^ 20" using assms(1) by (simp_all add: limiter_ok_def)
  then have r0: "0 < ?r" using less_le_trans [of 0 "1 / 2 ^ 10 :: rat" ?r] by simp
  have q: "0 < q" "q \<le> 1" using assms(4) R(3) by (simp_all add: q_def bucket_ok_def)
  have f1: "f64_finite (f64_lit 1)" by (simp add: f64_lit_1)
  have "\<not> f64_ge ?t (f64_lit 1)" unfolding f64_ge_fin [OF R(1) f1] using assms(4) by (simp add: f64_lit_1)
  then have a: "acquire_attempt cfg now b =
      (case from_secs_f64 (f64_div (f64_sub (f64_lit 1) ?t) (refill_per_sec cfg)) of
         None \<Rightarrow> None | Some d \<Rightarrow> Some (refill cfg now b, Some d))"
    by (simp add: acquire_attempt_def Let_def)
  define D where "D = f64_sub (f64_lit 1) ?t"
  have "\<bar>q\<bar> \<le> 2 powi 0" using q by simp
  note fin = f64_round_finite [OF this]
  have D: "f64_finite D" "f64_val D = rnd q"
    unfolding D_def f64_sub_fin [OF f1 R(1)] using fin by (simp_all add: f64_lit_1 q_def)
  have rq0: "0 \<le> rnd q" by (rule rnd.fl_nonneg) (use q in simp)
  have "rnd q \<le> 2 powi 0" by (rule rnd.fl_le_p2) (use q in simp_all)
  then have rq: "0 \<le> rnd q" "rnd q \<le> 1" using rq0 by simp_all
  have errq: "q - (q * ulp + 2 powi (-1075)) \<le> rnd q" using rnd_err_abs [of q] q by linarith
  define W where "W = f64_div D (refill_per_sec cfg)"
  have w0: "0 \<le> rnd q / ?r" using rq r0 by simp
  have w: "rnd q / ?r \<le> 1 / (1 / 2 ^ 10)" using rq r by (intro frac_le) simp_all
  then have "\<bar>rnd q / ?r\<bar> \<le> 2 powi 10" using w0 by simp
  note fin = f64_round_finite [OF this]
  have W: "f64_finite W" "f64_val W = rnd (rnd q / ?r)"
    unfolding W_def f64_div_fin [OF D(1) r(1) less_imp_neq [OF r0, symmetric]] D(2) using fin by simp_all
  have "rnd q / ?r \<le> 2 powi 10" using w by simp
  from rnd.fl_le_p2 [OF _ this] rnd.fl_nonneg [OF w0]
  have W10: "f64_val W \<le> 2 powi 10" "0 \<le> f64_val W" unfolding W by simp_all
  have "(2::rat) powi 10 \<le> 2 powi 40" by (simp only: p2_mono)
  then have "f64_val W \<le> 2 powi 40" using W10 by linarith
  from from_secs_finite [OF W(1) W10(2) this] obtain d where d: "from_secs_f64 W = Some d"
    "f64_val W - 1 / 2000000000 \<le> secs d" "secs d \<le> f64_val W + 1 / 2000000000" by blast
  have "rnd q / ?r - (rnd q / ?r * ulp + 2 powi (-1075)) \<le> f64_val W" unfolding W using rnd_err_abs [OF w0] by linarith
  then have "rnd q / ?r * (1 - ulp) - 2 powi (-1075) \<le> secs d + 1 / 2000000000"
    using d(2) unfolding right_diff_distrib by linarith
  from mult_right_mono [OF this less_imp_le [OF r0]]
  have step: "rnd q * (1 - ulp) - 2 powi (-1075) * ?r \<le> (secs d + 1 / 2000000000) * ?r"
    unfolding left_diff_distrib using r0 by simp
  have e: "(2::rat) powi (-1075) \<le> ulp" unfolding ulp_def by (simp only: p2_mono)
  have "(2::rat) powi (-1075) * ?r \<le> 2 powi (-1075) * 2 powi 20" using r by (intro mult_left_mono) simp_all
  also have "\<dots> = 2 powi (-1075 + 20)" by (rule p2_add [symmetric])
  also have "\<dots> \<le> ulp" unfolding ulp_def by (simp only: p2_mono)
  finally have er: "2 powi (-1075) * ?r \<le> ulp" .
  have "q * ulp \<le> 1 * ulp" and "rnd q * ulp \<le> 1 * ulp" using q rq ulp_small by (auto intro: mult_right_mono)
  then have "q - 4 * ulp \<le> rnd q * (1 - ulp) - 2 powi (-1075) * ?r"
    using errq e er unfolding right_diff_distrib by linarith
  then have fin: "q - 4 * ulp \<le> (secs d + 1 / 2000000000) * ?r" using step by linarith
  have "secs d \<le> 2 ^ 11" using d(3) W10(1) by simp
  then show thesis using that [OF _ fin] a d(1) unfolding D_def [symmetric] W_def [symmetric] by simp
qed


text \<open>Time that earns the missing fraction, with a margin for four roundings, fills the bucket up to a token.\<close>

lemma rate_positive:
  assumes "limiter_ok cfg"
  shows "1 / 2 ^ 10 \<le> f64_val (refill_per_sec cfg)" and "0 < f64_val (refill_per_sec cfg)"
proof -
  show r: "1 / 2 ^ 10 \<le> f64_val (refill_per_sec cfg)" using assms by (simp add: limiter_ok_def)
  show "0 < f64_val (refill_per_sec cfg)" by (rule less_le_trans [OF _ r]) simp
qed

lemma refill_covers:
  assumes "limiter_ok cfg" and "bucket_ok cfg b" and "now - last_refill b < MAX_GAP" and "f64_val (tokens b) \<le> 1"
    and A: "1 - f64_val (tokens b) + 4 * ulp \<le> secs (now - last_refill b) * f64_val (refill_per_sec cfg)"
  shows "1 \<le> f64_val (tokens (refill cfg now b))"
proof -
  note E = earned_approx [OF assms(1,3)]
  define q where "q = 1 - f64_val (tokens b)"
  let ?A = "secs (now - last_refill b) * f64_val (refill_per_sec cfg)"
  have q: "0 \<le> q" "q \<le> 1" using assms(2,4) by (simp_all add: bucket_ok_def q_def)
  have c3: "1 - 3 * ulp \<le> (1 - ulp) ^ 3" by (simp add: ulp_def power_int_minus power3_eq_cube)
  have ul: "3 * ulp < 1" by (simp add: ulp_def power_int_minus)
  have "(q + 4 * ulp) * (1 - 3 * ulp) \<le> ?A * (1 - ulp) ^ 3"
    using A [folded q_def] c3 ul q ulp_small E(3) by (intro mult_mono) simp_all
  moreover have "q \<le> (q + 4 * ulp) * (1 - 3 * ulp)"
  proof -
    have "q * (3 * ulp) \<le> 1 * (3 * ulp)" using q ulp_small by (intro mult_right_mono) simp_all
    moreover have "4 * ulp * (3 * ulp) \<le> ulp" by (simp add: ulp_def power_int_minus)
    ultimately show ?thesis unfolding distrib_right right_diff_distrib by linarith
  qed
  ultimately have "q \<le> f64_val (earned cfg b now)" using E(2) unfolding approx_def by linarith
  then have "1 \<le> f64_val (tokens b) + f64_val (earned cfg b now)" by (simp add: q_def)
  from rnd_mono [OF this] have "1 \<le> rnd (f64_val (tokens b) + f64_val (earned cfg b now))"
    using rnd_of_nat [of 1] by simp
  then show ?thesis unfolding refill_tokens(2) [OF assms(1-3)] using assms(1) by (simp add: limiter_ok_def)
qed

text \<open>A bucket that is still short of a token has gained what the time has earned, up to eleven roundings.\<close>

lemma refill_short:
  assumes "limiter_ok cfg" and "bucket_ok cfg b" and "now - last_refill b < MAX_GAP" and "f64_val (tokens b) \<le> 1"
    and short: "f64_val (tokens (refill cfg now b)) < 1"
  shows "1 - f64_val (tokens (refill cfg now b)) \<le>
    1 - f64_val (tokens b) - secs (now - last_refill b) * f64_val (refill_per_sec cfg) + 15 * ulp"
proof -
  note E = earned_approx [OF assms(1,3)]
  let ?v = "f64_val (tokens b)" and ?x = "f64_val (earned cfg b now)"
    and ?A = "secs (now - last_refill b) * f64_val (refill_per_sec cfg)"
  have v: "0 \<le> ?v" using assms(2) by (simp add: bucket_ok_def)
  have u: "4 * ulp \<le> 1" "(1 + ulp) ^ 3 \<le> 2" "1 - 3 * ulp \<le> (1 - ulp) ^ 3" "0 < ulp"
    by (simp_all add: ulp_def power_int_minus power3_eq_cube)
  have A2: "?A \<le> 2" using refill_covers [OF assms(1-4)] short v u(1) by linarith
  have "?A * (3 * ulp) \<le> 2 * (3 * ulp)" using A2 u(4) by (intro mult_right_mono) simp_all
  moreover have "?A * (1 - 3 * ulp) \<le> ?A * (1 - ulp) ^ 3" using u(3) E(3) by (intro mult_left_mono)
  ultimately have x: "?A - 6 * ulp \<le> ?x" using E(2) unfolding approx_def right_diff_distrib by linarith
  have "?A * (1 + ulp) ^ 3 \<le> 2 * 2" using A2 u(2) E(3) u(4) by (intro mult_mono) simp_all
  then have "?v + ?x \<le> 5" using E(2) assms(4) unfolding approx_def by linarith
  then have "(?v + ?x) * ulp \<le> 5 * ulp" using u(4) by (intro mult_right_mono) simp_all
  moreover have "(2::rat) powi (-1075) \<le> ulp" unfolding ulp_def by (simp only: p2_mono)
  moreover have "?v + ?x - ((?v + ?x) * ulp + 2 powi (-1075)) \<le> rnd (?v + ?x)"
    using rnd_err_abs [of "?v + ?x"] v E(4) by linarith
  ultimately have "?v + ?A - 15 * ulp \<le> rnd (?v + ?x)" using x u(4) by linarith
  moreover have "f64_val (tokens (refill cfg now b)) = rnd (?v + ?x)"
    using short assms(1) unfolding refill_tokens(2) [OF assms(1-3)] by (auto simp: limiter_ok_def min_def split: if_splits)
  ultimately show ?thesis by linarith
qed

lemma attempt_refused':
  assumes "limiter_ok cfg" and "bucket_ok cfg b" and "now - last_refill b < MAX_GAP"
    and "f64_val (tokens (refill cfg now b)) < 1"
  obtains d where "acquire_attempt cfg now b = Some (refill cfg now b, Some d)" and "d < 2 ^ 50"
    and "1 - f64_val (tokens (refill cfg now b)) - 4 * ulp \<le> (secs d + 1 / 2000000000) * f64_val (refill_per_sec cfg)"
proof (rule attempt_refused [OF assms])
  fix d assume a: "acquire_attempt cfg now b = Some (refill cfg now b, Some d)"
    "1 - f64_val (tokens (refill cfg now b)) - 4 * ulp \<le> (secs d + 1 / 2000000000) * f64_val (refill_per_sec cfg)" "secs d \<le> 2 ^ 11"
  have "(of_nat d :: rat) \<le> of_nat (2 ^ 11 * 1000000000)" using a(3) by (simp add: secs_def)
  then have "d \<le> 2 ^ 11 * 1000000000" by (simp only: of_nat_le_iff)
  then have "d < 2 ^ 50" by simp
  then show thesis using that a by blast
qed

text \<open>
  A client that is refused twice and finds the bucket untouched each time it returns has waited so long that less than
  what one nanosecond earns is missing: it is granted its token at the third attempt.
\<close>

lemma third_attempt_granted:
  assumes "limiter_ok cfg" and "bucket_ok cfg b" and "t0 - last_refill b < MAX_GAP"
  defines "b1 \<equiv> refill cfg t0 b"
  assumes first: "f64_val (tokens b1) < 1" "acquire_attempt cfg t0 b = Some (b1, Some d)"
    and t1: "t0 + d \<le> t1" "t1 - t0 < MAX_GAP" and t2: "t1 < t2" "t2 - t1 < MAX_GAP"
    and second: "f64_val (tokens (refill cfg t1 b1)) < 1"
  shows "1 \<le> f64_val (tokens (refill cfg t2 (refill cfg t1 b1)))"
proof -
  let ?r = "f64_val (refill_per_sec cfg)" and ?b2 = "refill cfg t1 b1"
  note r = rate_positive [OF assms(1)]
  note R1 = refill_tokens [OF assms(1-3), folded b1_def]
  have g1: "t1 - last_refill b1 < MAX_GAP" using R1(4) t1(2) by simp
  note R2 = refill_tokens [OF assms(1) R1(3) g1]
  have "1 - f64_val (tokens b1) - 4 * ulp \<le> (secs d + 1 / 2000000000) * ?r"
    by (rule attempt_refused' [OF assms(1-3) first(1) [unfolded b1_def]]) (use first(2) in \<open>simp add: b1_def\<close>)
  moreover have "secs d * ?r \<le> secs (t1 - t0) * ?r"
    using t1(1) r(2) by (intro mult_right_mono) (simp_all add: secs_def divide_right_mono)
  moreover have "1 - f64_val (tokens ?b2) \<le> 1 - f64_val (tokens b1) - secs (t1 - t0) * ?r + 15 * ulp"
    using refill_short [OF assms(1) R1(3) g1 less_imp_le [OF first(1)] second] R1(4) by simp
  ultimately have q: "1 - f64_val (tokens ?b2) \<le> 1 / 2000000000 * ?r + 19 * ulp" unfolding distrib_right by linarith
  have "(of_nat 1 :: rat) \<le> of_nat (t2 - t1)" using t2(1) by (simp only: of_nat_le_iff)
  then have "1 / 1000000000 \<le> secs (t2 - t1)" by (simp add: secs_def divide_right_mono)
  then have A: "1 / 1000000000 * ?r \<le> secs (t2 - t1) * ?r" using r(2) by (intro mult_right_mono) simp_all
  have "1 / 2000000000 * (1 / 2 ^ 10) \<le> 1 / 2000000000 * ?r" using r(1) by (intro mult_left_mono) simp_all
  moreover have "23 * ulp \<le> 1 / 2000000000 * (1 / 2 ^ 10)" by (simp add: ulp_def power_int_minus)
  ultimately have "1 - f64_val (tokens ?b2) + 4 * ulp \<le> secs (t2 - last_refill ?b2) * ?r" unfolding R2(4) using q A by linarith
  then show ?thesis using t2(2) R2(4) second by (intro refill_covers [OF assms(1) R2(3)]) simp_all
qed

subsection \<open>The cap on the request rate\<close>

definition grants :: "nat option list \<Rightarrow> nat" where
  "grants ws = length (filter (\<lambda>w. w = None) ws)"

lemma secs_add: "secs (a + b) = secs a + secs b"
  by (simp add: secs_def add_divide_distrib)

lemma attempt_step:
  assumes "limiter_ok cfg" and "bucket_ok cfg b" and "now - last_refill b < MAX_GAP"
  obtains b' w where "acquire_attempt cfg now b = Some (b', w)" and "bucket_ok cfg b'" and "last_refill b' = now"
    and "of_nat (grants [w]) + f64_val (tokens b') \<le> f64_val (tokens b) +
      secs (now - last_refill b) * f64_val (refill_per_sec cfg) * (1 + 4 * ulp) + f64_val (capacity cfg) * (4 * ulp)"
proof (cases "1 \<le> f64_val (tokens (refill cfg now b))")
  case True
  from attempt_granted [OF assms True] obtain b' where b': "acquire_attempt cfg now b = Some (b', None)"
    "bucket_ok cfg b'" "last_refill b' = now"
    "f64_val (tokens b') + 1 \<le> f64_val (tokens (refill cfg now b)) + f64_val (capacity cfg) * (2 * ulp)" .
  moreover have "f64_val (capacity cfg) * (4 * ulp) = f64_val (capacity cfg) * (2 * ulp) + f64_val (capacity cfg) * (2 * ulp)"
    by simp
  ultimately show thesis using that [OF b'(1-3)] refill_gain [OF assms] by (simp add: grants_def)
next
  case False
  then obtain d where a: "acquire_attempt cfg now b = Some (refill cfg now b, Some d)"
    using attempt_refused [OF assms] by (metis not_le)
  have "0 \<le> f64_val (capacity cfg) * (2 * ulp)" using assms(1) ulp_small by (simp add: limiter_ok_def)
  moreover have "f64_val (capacity cfg) * (4 * ulp) = f64_val (capacity cfg) * (2 * ulp) + f64_val (capacity cfg) * (2 * ulp)"
    by simp
  ultimately have "f64_val (tokens (refill cfg now b)) \<le> f64_val (tokens b) +
      secs (now - last_refill b) * f64_val (refill_per_sec cfg) * (1 + 4 * ulp) + f64_val (capacity cfg) * (4 * ulp)"
    using refill_gain [OF assms] by linarith
  then show thesis using that [OF a refill_tokens(3,4) [OF assms]] by (simp add: grants_def)
qed

lemma run_attempts_bound:
  assumes "limiter_ok cfg" and "bucket_ok cfg b" and "sorted (last_refill b # ts)"
    and "last (last_refill b # ts) - last_refill b < MAX_GAP"
  shows "\<exists>b' ws. run_attempts cfg b ts = Some (b', ws) \<and> bucket_ok cfg b' \<and> length ws = length ts \<and>
    of_nat (grants ws) + f64_val (tokens b') \<le> f64_val (tokens b) +
      secs (last (last_refill b # ts) - last_refill b) * f64_val (refill_per_sec cfg) * (1 + 4 * ulp) +
      of_nat (length ts) * f64_val (capacity cfg) * (4 * ulp)"
  using assms(2-)
proof (induction ts arbitrary: b)
  case Nil
  then show ?case by (simp add: grants_def secs_def)
next
  case (Cons t ts)
  let ?R = "f64_val (refill_per_sec cfg) * (1 + 4 * ulp)" and ?c = "f64_val (capacity cfg) * (4 * ulp)"
  define l where "l = last (t # ts)"
  have le: "last_refill b \<le> t" "sorted (t # ts)" using Cons.prems(2) by simp_all
  have "t \<le> l" using le(2) unfolding l_def by (cases ts rule: rev_cases) (auto simp: sorted_append)
  have gap: "t - last_refill b < MAX_GAP" "l - t < MAX_GAP"
    using Cons.prems(3) \<open>t \<le> l\<close> le(1) by (auto simp: l_def)
  obtain b1 w where s: "acquire_attempt cfg t b = Some (b1, w)" "bucket_ok cfg b1" "last_refill b1 = t"
    "of_nat (grants [w]) + f64_val (tokens b1) \<le> f64_val (tokens b) +
      secs (t - last_refill b) * f64_val (refill_per_sec cfg) * (1 + 4 * ulp) + ?c"
    by (rule attempt_step [OF assms(1) Cons.prems(1) gap(1)])
  have "sorted (last_refill b1 # ts)" "last (last_refill b1 # ts) - last_refill b1 < MAX_GAP"
    using le(2) gap(2) s(3) by (simp_all add: l_def)
  from Cons.IH [OF s(2) this] obtain b2 ws where r: "run_attempts cfg b1 ts = Some (b2, ws)" "bucket_ok cfg b2"
    "length ws = length ts" "of_nat (grants ws) + f64_val (tokens b2) \<le> f64_val (tokens b1) +
      secs (l - t) * f64_val (refill_per_sec cfg) * (1 + 4 * ulp) + of_nat (length ts) * f64_val (capacity cfg) * (4 * ulp)"
    unfolding l_def s(3) by blast
  have split: "secs (l - last_refill b) = secs (t - last_refill b) + secs (l - t)"
    using le(1) \<open>t \<le> l\<close> by (simp add: secs_add [symmetric])
  have g: "grants (w # ws) = grants [w] + grants ws" by (simp add: grants_def)
  have "of_nat (grants (w # ws)) + f64_val (tokens b2) \<le> f64_val (tokens b) +
      secs (l - last_refill b) * f64_val (refill_per_sec cfg) * (1 + 4 * ulp) +
      of_nat (length (t # ts)) * f64_val (capacity cfg) * (4 * ulp)"
    using s(4) r(4) unfolding g split by (simp add: distrib_right mult.assoc)
  then show ?case using s(1) r(1-3) by (simp add: l_def)
qed

text \<open>
  C29. The limiter enforces its rate however many clients share it and however their critical
  sections interleave: over any sequence of attempts starting at the creation of the limiter, the
  number of granted requests is at most the burst plus the rate times the elapsed seconds, up to a
  relative error of 2^-51 (one part in 10^15) and 2^-51 of the burst for each attempt.  No attempt panics.
\<close>

theorem limiter_enforces_rate:
  assumes "limiter_ok (fst (new_limiter rate burst t0))" and "sorted (t0 # ts)" and "last (t0 # ts) - t0 < MAX_GAP"
  shows "\<exists>b ws. run_attempts (fst (new_limiter rate burst t0)) (snd (new_limiter rate burst t0)) ts = Some (b, ws) \<and>
    length ws = length ts \<and>
    of_nat (grants ws) \<le> f64_val burst + secs (last (t0 # ts) - t0) * f64_val rate * (1 + 4 * ulp) +
      of_nat (length ts) * f64_val burst * (4 * ulp)"
proof -
  let ?cfg = "fst (new_limiter rate burst t0)" and ?b = "snd (new_limiter rate burst t0)"
  have ok: "bucket_ok ?cfg ?b" using assms(1) by (simp add: new_limiter_def bucket_ok_def limiter_ok_def)
  have f: "last_refill ?b = t0" "tokens ?b = burst" "capacity ?cfg = burst" "refill_per_sec ?cfg = rate"
    by (simp_all add: new_limiter_def)
  obtain b ws where r: "run_attempts ?cfg ?b ts = Some (b, ws)" "bucket_ok ?cfg b" "length ws = length ts"
    "of_nat (grants ws) + f64_val (tokens b) \<le> f64_val burst + secs (last (t0 # ts) - t0) * f64_val rate * (1 + 4 * ulp) +
      of_nat (length ts) * f64_val burst * (4 * ulp)"
    using run_attempts_bound [OF assms(1) ok] assms(2,3) unfolding f by blast
  have "0 \<le> f64_val (tokens b)" using r(2) by (simp add: bucket_ok_def)
  then show ?thesis using r(1,3,4) by (intro exI [of _ b] exI [of _ ws]) simp
qed

definition five_per_sec :: "limiter \<times> bucket" where
  "five_per_sec = new_limiter (FNum 5) (FNum 1) 0"

lemma five_per_sec_ok: "limiter_ok (fst five_per_sec)"
  using rnd_of_nat [of 1] by (simp add: limiter_ok_def five_per_sec_def new_limiter_def)

theorem limiter_enforces_rate_witness:
  "\<exists>b ws. run_attempts (fst five_per_sec) (snd five_per_sec) [0, 1000, 200000000] = Some (b, ws) \<and> grants ws \<le> 2"
proof -
  obtain b ws where r: "run_attempts (fst five_per_sec) (snd five_per_sec) [0, 1000, 200000000] = Some (b, ws)"
    "of_nat (grants ws) \<le> 1 + secs 200000000 * 5 * (1 + 4 * ulp) + 3 * 1 * (4 * ulp)"
    using limiter_enforces_rate [of "FNum 5" "FNum 1" 0 "[0, 1000, 200000000]"] five_per_sec_ok
    by (auto simp: five_per_sec_def)
  have "(of_nat (grants ws) :: rat) < of_nat 3"
    by (rule le_less_trans [OF r(2)]) (simp add: secs_def ulp_def power_int_minus)
  then have "grants ws < 3" by (simp only: of_nat_less_iff)
  then show ?thesis using r(1) by auto
qed

subsection \<open>The loop\<close>

text \<open>
  The timer wakes the client when the requested time is over or later (by less than \<open>2 ^ 50\<close> seconds), and never at the
  instant at which it went to sleep.
\<close>

definition patient :: "('s \<Rightarrow> nat) \<Rightarrow> (nat \<Rightarrow> 's \<Rightarrow> 's) \<Rightarrow> bool" where
  "patient now sleep \<longleftrightarrow>
     (\<forall>d s. d < 2 ^ 50 \<longrightarrow> now s + d \<le> now (sleep d s) \<and> now s < now (sleep d s) \<and> now (sleep d s) - now s < MAX_GAP)"

text \<open>What it is to be granted a token: the refilled bucket holds one, and it is taken away.\<close>

definition token_granted :: "limiter \<Rightarrow> nat \<Rightarrow> bucket \<Rightarrow> bucket \<Rightarrow> bool" where
  "token_granted cfg t b b' \<longleftrightarrow>
     1 \<le> f64_val (tokens (refill cfg t b)) \<and> tokens b' = f64_sub (tokens (refill cfg t b)) (f64_lit 1) \<and> last_refill b' = t"

lemma acquire_now:
  assumes "limiter_ok cfg" and "bucket_ok cfg b" and "now s - last_refill b < MAX_GAP" and "1 \<le> f64_val (tokens (refill cfg (now s) b))"
  obtains b' where "acquire cfg now sleep b s = Some (Some (b', s))" "bucket_ok cfg b'" "token_granted cfg (now s) b b'"
proof -
  obtain b' where b': "acquire_attempt cfg (now s) b = Some (b', None)" "bucket_ok cfg b'" "last_refill b' = now s"
    by (rule attempt_granted [OF assms])
  have "tokens b' = f64_sub (tokens (refill cfg (now s) b)) (f64_lit 1)"
    using b'(1) by (auto simp: acquire_attempt_def Let_def split: if_splits option.splits)
  then show thesis using that b' assms(4) by (subst (asm) acquire.simps) (simp add: token_granted_def)
qed

lemma acquire_later:
  assumes "acquire_attempt cfg (now s) b = Some (b', Some d)"
  shows "acquire cfg now sleep b s = acquire cfg now sleep b' (sleep d s)"
  by (subst acquire.simps) (simp add: assms)

text \<open>
  C30. With a burst of at least one, a rate between \<open>2 ^ -10\<close> and \<open>2 ^ 20\<close> and a timer that never wakes it early nor at the
  instant at which it went to sleep, the loop of a client that has the bucket to itself returns, from every state of the bucket and after at most two waits, in
  spite of all roundings; when it returns, the bucket, refilled up to that instant, held a token, and that
  token has been taken.
\<close>

theorem acquire_returns:
  assumes "limiter_ok cfg" and "bucket_ok cfg b" and "now s - last_refill b < MAX_GAP" and "patient now sleep"
  shows "\<exists>b0 b' s'. acquire cfg now sleep b s = Some (Some (b', s')) \<and> bucket_ok cfg b' \<and> token_granted cfg (now s') b0 b' \<and>
    (s' = s \<and> b0 = b \<or>
     (\<exists>d. s' = sleep d s \<and> b0 = refill cfg (now s) b) \<or>
     (\<exists>d1 d2. s' = sleep d2 (sleep d1 s) \<and> b0 = refill cfg (now (sleep d1 s)) (refill cfg (now s) b)))"
proof (cases "1 \<le> f64_val (tokens (refill cfg (now s) b))")
  case True
  from acquire_now [where now = now and s = s and sleep = sleep, OF assms(1-3) True] show ?thesis by blast
next
  case False
  let ?b1 = "refill cfg (now s) b"
  note R1 = refill_tokens [OF assms(1-3)]
  have lt1: "f64_val (tokens ?b1) < 1" using False by simp
  obtain d1 where a1: "acquire_attempt cfg (now s) b = Some (?b1, Some d1)" "d1 < 2 ^ 50"
    by (rule attempt_refused' [OF assms(1-3) lt1])
  let ?s1 = "sleep d1 s"
  have t1: "now s + d1 \<le> now ?s1" "now ?s1 - now s < MAX_GAP" using assms(4) a1(2) by (simp_all add: patient_def)
  have g1: "now ?s1 - last_refill ?b1 < MAX_GAP" using t1(2) R1(4) by simp
  show ?thesis
  proof (cases "1 \<le> f64_val (tokens (refill cfg (now ?s1) ?b1))")
    case True
    obtain b' where "acquire cfg now sleep ?b1 ?s1 = Some (Some (b', ?s1))" "bucket_ok cfg b'" "token_granted cfg (now ?s1) ?b1 b'"
      by (rule acquire_now [where now = now and s = ?s1 and sleep = sleep, OF assms(1) R1(3) g1 True])
    then show ?thesis using acquire_later [where now = now and s = s and sleep = sleep, OF a1(1)] by (intro exI [of _ ?b1] exI [of _ b'] exI [of _ ?s1]) auto
  next
    case False
    let ?b2 = "refill cfg (now ?s1) ?b1"
    note R2 = refill_tokens [OF assms(1) R1(3) g1]
    have lt2: "f64_val (tokens ?b2) < 1" using False by simp
    obtain d2 where a2: "acquire_attempt cfg (now ?s1) ?b1 = Some (?b2, Some d2)" "d2 < 2 ^ 50"
      by (rule attempt_refused' [OF assms(1) R1(3) g1 lt2])
    let ?s2 = "sleep d2 ?s1"
    have t2: "now ?s1 < now ?s2" "now ?s2 - now ?s1 < MAX_GAP" using assms(4) a2(2) by (simp_all add: patient_def)
    have g2: "now ?s2 - last_refill ?b2 < MAX_GAP" using t2(2) R2(4) by simp
    obtain b' where "acquire cfg now sleep ?b2 ?s2 = Some (Some (b', ?s2))" "bucket_ok cfg b'" "token_granted cfg (now ?s2) ?b2 b'"
      by (rule acquire_now [where now = now and s = ?s2 and sleep = sleep, OF assms(1) R2(3) g2 third_attempt_granted [OF assms(1-3) lt1 a1(1) t1 t2 lt2]])
    then show ?thesis
      using acquire_later [where now = now and s = s and sleep = sleep, OF a1(1)] acquire_later [where now = now and s = ?s1 and sleep = sleep, OF a2(1)]
      by (intro exI [of _ ?b2] exI [of _ b'] exI [of _ ?s2]) auto
  qed
qed

text \<open>A timer that is exact to the nanosecond.\<close>

theorem acquire_returns_witness:
  "\<exists>b' s'. acquire (fst five_per_sec) (\<lambda>s. s) (\<lambda>d s. s + max d 1) \<lparr>tokens = FZero False, last_refill = 0\<rparr> (1000 :: nat) =
     Some (Some (b', s')) \<and> last_refill b' = s'"
proof -
  have "bucket_ok (fst five_per_sec) \<lparr>tokens = FZero False, last_refill = 0\<rparr>"
    by (simp add: bucket_ok_def five_per_sec_def new_limiter_def)
  moreover have "patient (\<lambda>s. s) (\<lambda>d s :: nat. s + max d 1)" by (auto simp: patient_def less_max_iff_disj)
  ultimately show ?thesis
    using acquire_returns [OF five_per_sec_ok, where s = 1000 and now = "\<lambda>s. s"] by (fastforce simp: token_granted_def)
qed

text \<open>
  Below one token of capacity no attempt is granted: the loop waits for ever, or panics.  The
  command line passes its rate as the capacity, so every rate under one request per second does.
\<close>

lemma refill_below_one:
  assumes "f64_lt (capacity cfg) (f64_lit 1)"
  shows "\<not> f64_ge (tokens (refill cfg now b)) (f64_lit 1)"
proof -
  have "\<not> f64_ge (f64_min y c) (FNum 1)" if "f64_lt c (FNum 1)" for y c
    using that by (cases y; cases c) (auto simp: f64_min_def f64_ge_def f64_lt_def split: if_splits)
  then show ?thesis using assms by (simp add: refill_def Let_def f64_lit_1)
qed

lemma acquire_starved:
  fixes now :: "'s \<Rightarrow> nat"
  assumes "acquire cfg now sleep b s = Some r" and "f64_lt (capacity cfg) (f64_lit 1)"
  shows "r = None"
proof -
  have "f64_lt (capacity cfg) (f64_lit 1) \<longrightarrow> r = None"
  proof (rule acquire.raw_induct [where P = "\<lambda>cfg now sleep b s r. f64_lt (capacity cfg) (f64_lit 1) \<longrightarrow> r = None"])
    fix acq and cfg :: limiter and now :: "'s \<Rightarrow> nat" and sleep b s and r :: "(bucket \<times> 's) option"
    assume IH: "\<And>cfg now sleep b s r. acq cfg now sleep b s = Some r \<Longrightarrow> f64_lt (capacity cfg) (f64_lit 1) \<longrightarrow> r = None"
      and eq: "(case acquire_attempt cfg (now s) b of None \<Rightarrow> Some None
        | Some (b', None) \<Rightarrow> Some (Some (b', s))
        | Some (b', Some d) \<Rightarrow> acq cfg now sleep b' (sleep d s)) = Some r"
    show "f64_lt (capacity cfg) (f64_lit 1) \<longrightarrow> r = None"
    proof
      assume less: "f64_lt (capacity cfg) (f64_lit 1)"
      show "r = None"
      proof (cases "acquire_attempt cfg (now s) b")
        case (Some bw)
        then obtain b' d where a: "acquire_attempt cfg (now s) b = Some (b', Some d)"
          using refill_below_one [OF less, of "now s" b]
          by (auto simp: acquire_attempt_def Let_def split: option.splits)
        then have "acq cfg now sleep b' (sleep d s) = Some r" using eq by simp
        then show ?thesis using IH less by blast
      qed (use eq in auto)
    qed
  qed (rule assms(1))
  then show ?thesis using assms(2) by blast
qed

text \<open>
  A limiter with a capacity below one request never lets a client through: the loop does not
  return, however long it runs.
\<close>

lemma acquire_starves:
  assumes "f64_lt (capacity cfg) (f64_lit 1)"
  shows "acquire cfg now sleep b s \<noteq> Some (Some r)"
  using acquire_starved assms by fastforce

definition half_per_sec :: "limiter \<times> bucket" where
  "half_per_sec = new_limiter (f64_lit (1 / 2)) (f64_lit (1 / 2)) 0"

lemma acquire_starves_example:
  "\<forall>r. acquire (fst half_per_sec) (\<lambda>s. s) (\<lambda>d s. s + d + 1) (snd half_per_sec) (0 :: nat) \<noteq> Some (Some r)"
proof -
  have "f64_lt (f64_lit (1 / 2)) (f64_lit 1)" by code_simp
  then have "f64_lt (capacity (fst half_per_sec)) (f64_lit 1)" by (simp only: half_per_sec_def new_limiter_def fst_conv limiter.simps)
  then show ?thesis by (intro allI acquire_starves)
qed

text \<open>A rate of zero with an empty bucket makes the wait infinite, on which \<open>from_secs_f64\<close> panics.\<close>

lemma zero_rate_panics:
  "acquire_attempt \<lparr>capacity = FNum 1, refill_per_sec = FZero False\<rparr> 0 \<lparr>tokens = FZero False, last_refill = 0\<rparr> = None"
proof -
  have "f64_min (f64_add (FZero False) (f64_mul (FZero False) (FZero False))) (FNum 1) = FZero False" by code_simp
  moreover have "\<not> f64_ge (FZero False) (f64_lit 1)" by code_simp
  moreover have "from_secs_f64 (f64_div (f64_sub (f64_lit 1) (FZero False)) (FZero False)) = None" by code_simp
  moreover have "as_secs_f64 0 = FZero False" unfolding as_secs_f64_def by (simp add: f64_of_nat_def f64_round_def rnd_def) code_simp
  ultimately show ?thesis by (simp add: acquire_attempt_def refill_def Let_def)
qed

end
