(* ===== verification/Block_Fetch.thy ===== *)
theory Block_Fetch
  imports Rpc_Client Retry
begin

section \<open>Bounded concurrent fetching of a slot range\<close>

text \<open>
  \<open>crates/ingest-core/src/block_fetch.rs\<close>: one fetch (a token of the limiter, then the retried
  request) and the worker pool over \<open>FuturesUnordered\<close>.  The limiter, the HTTP transport, the random
  generator and the timer act on a world \<open>'s\<close>.  Which of the futures in flight completes next is
  not determined: a step relation offers every choice, a scheduler picks one.
\<close>

datatype fetch_outcome =
    Ingested decoded_block
  | Skipped nat
  | Failed nat string

fun outcome_slot :: "fetch_outcome \<Rightarrow> nat" where
  "outcome_slot (Ingested b) = db_slot b"
| "outcome_slot (Skipped s) = s"
| "outcome_slot (Failed s e) = s"

subsection \<open>One fetch\<close>

record ('s, 'v) fetch_env =
  fe_acquire :: "'s \<Rightarrow> 's option"
  fe_http :: "nat \<Rightarrow> 's \<Rightarrow> (string + 'v) \<times> 's"
  fe_gen_range :: "f64 \<Rightarrow> f64 \<Rightarrow> 's \<Rightarrow> (f64 \<times> 's) option"
  fe_sleep :: "nat \<Rightarrow> 's \<Rightarrow> 's"

text \<open>The closure that is retried; \<open>get_block\<close> always has a value (\<open>get_block_no_panic\<close>).\<close>

definition get_block_op ::
  "'v json_api \<Rightarrow> ('s, 'v) fetch_env \<Rightarrow> nat \<Rightarrow> 's \<Rightarrow> (rpc_error + decoded_block) \<times> 's" where
  "get_block_op J env slot s =
     (let (resp, s') = fe_http env slot s in (the (get_block J (\<lambda>_. resp) slot), s'))"

definition fetch_retry_env ::
  "'v json_api \<Rightarrow> ('s, 'v) fetch_env \<Rightarrow> nat \<Rightarrow> ('s, rpc_error, decoded_block) retry_env" where
  "fetch_retry_env J env slot =
     \<lparr>re_op = get_block_op J env slot, re_should_retry = is_transient,
      re_gen_range = fe_gen_range env, re_sleep = fe_sleep env\<rparr>"

fun outcome_of :: "nat \<Rightarrow> rpc_error + decoded_block \<Rightarrow> fetch_outcome" where
  "outcome_of slot (Inr block) = Ingested block"
| "outcome_of slot (Inl SlotSkipped) = Skipped slot"
| "outcome_of slot (Inl e) = Failed slot (rpc_error_to_string e)"

text \<open>\<open>None\<close>: the limiter never grants the token, or the random generator panics.\<close>

definition fetch_one ::
  "'v json_api \<Rightarrow> ('s, 'v) fetch_env \<Rightarrow> retry_config \<Rightarrow> nat \<Rightarrow> 's \<Rightarrow> (fetch_outcome \<times> 's) option" where
  "fetch_one J env retry_config slot s =
     (case fe_acquire env s of
        None \<Rightarrow> None
      | Some s1 \<Rightarrow>
          (case retry_with_backoff retry_config (fetch_retry_env J env slot) s1 of
             None \<Rightarrow> None
           | Some (result, s2) \<Rightarrow> Some (outcome_of slot result, s2)))"

subsection \<open>The worker pool\<close>

record pool =
  slots :: "nat list"
  in_flight :: "nat list"
  outcomes :: "fetch_outcome list"

definition vec_pop :: "'a list \<Rightarrow> ('a \<times> 'a list) option" where
  "vec_pop xs = (if xs = [] then None else Some (last xs, butlast xs))"

lemma vec_pop_range:
  "n < c \<Longrightarrow> vec_pop (rev [start + n ..< start + c]) = Some (start + n, rev [start + Suc n ..< start + c])"
  by (simp add: upt_conv_Cons vec_pop_def)

lemma vec_pop_length: "vec_pop xs = Some (x, ys) \<Longrightarrow> length xs = Suc (length ys)"
  by (cases xs rule: rev_cases) (auto simp: vec_pop_def)

text \<open>The range wraps in release builds: a range past the last \<open>u64\<close> is empty.\<close>

definition slot_range :: "nat \<Rightarrow> nat \<Rightarrow> nat list" where
  "slot_range start n_slots = rev [start ..< (start + n_slots) mod 2 ^ 64]"

function prime :: "nat \<Rightarrow> pool \<Rightarrow> pool" where
  "prime max_concurrency p =
     (if length (in_flight p) < max_concurrency then
        (case vec_pop (slots p) of
           None \<Rightarrow> p
         | Some (slot, rest) \<Rightarrow>
             prime max_concurrency (p\<lparr>slots := rest, in_flight := in_flight p @ [slot]\<rparr>))
      else p)"
  by pat_completeness auto

termination
  by (relation "measure (\<lambda>(m, p). length (slots p))") (auto dest: vec_pop_length)

declare prime.simps [simp del]

definition start_pool :: "nat \<Rightarrow> nat \<Rightarrow> nat \<Rightarrow> pool" where
  "start_pool start n_slots max_concurrency =
     prime max_concurrency \<lparr>slots = slot_range start n_slots, in_flight = [], outcomes = []\<rparr>"

text \<open>The i-th future in flight has completed: its outcome is delivered, then one slot dispatched.\<close>

definition complete :: "nat \<Rightarrow> fetch_outcome \<Rightarrow> pool \<Rightarrow> pool" where
  "complete i out p =
     (let rest = take i (in_flight p) @ drop (Suc i) (in_flight p);
          p1 = p\<lparr>in_flight := rest, outcomes := outcomes p @ [out]\<rparr>
      in case vec_pop (slots p1) of
           None \<Rightarrow> p1
         | Some (slot, remaining) \<Rightarrow> p1\<lparr>slots := remaining, in_flight := in_flight p1 @ [slot]\<rparr>)"

inductive pool_step :: "(nat \<Rightarrow> fetch_outcome \<Rightarrow> bool) \<Rightarrow> pool \<Rightarrow> pool \<Rightarrow> bool" for result where
  completes: "i < length (in_flight p) \<Longrightarrow> result (in_flight p ! i) out \<Longrightarrow> pool_step result p (complete i out p)"

inductive_cases pool_stepE: "pool_step result p q"

text \<open>A scheduler picks the future; the loop ends when none is in flight.\<close>

lemma complete_length:
  "i < length (in_flight p) \<Longrightarrow>
     length (slots p) + length (in_flight p) =
       Suc (length (slots (complete i out p)) + length (in_flight (complete i out p)))"
  by (auto simp: complete_def Let_def dest: vec_pop_length split: option.splits)

function run_pool :: "(pool \<Rightarrow> nat) \<Rightarrow> (nat \<Rightarrow> fetch_outcome) \<Rightarrow> pool \<Rightarrow> pool" where
  "run_pool pick result p =
     (if in_flight p = [] then p
      else let i = pick p mod length (in_flight p)
           in run_pool pick result (complete i (result (in_flight p ! i)) p))"
  by pat_completeness auto

termination
proof (relation "measure (\<lambda>(pick, result, p). length (slots p) + length (in_flight p))")
  fix pick result and p :: pool and i
  assume "in_flight p \<noteq> []" and "i = pick p mod length (in_flight p)"
  then have "i < length (in_flight p)" by simp
  from complete_length [OF this, of "result (in_flight p ! i)"]
  show "((pick, result, complete i (result (in_flight p ! i)) p), (pick, result, p))
      \<in> measure (\<lambda>(pick, result, p). length (slots p) + length (in_flight p))" by simp
qed simp

declare run_pool.simps [simp del]

definition fetch_block_range ::
  "(pool \<Rightarrow> nat) \<Rightarrow> (nat \<Rightarrow> fetch_outcome) \<Rightarrow> nat \<Rightarrow> nat \<Rightarrow> nat \<Rightarrow> fetch_outcome list" where
  "fetch_block_range pick result start n_slots max_concurrency =
     outcomes (run_pool pick result (start_pool start n_slots max_concurrency))"

subsection \<open>Invariant of the pool\<close>

text \<open>
  \<open>n\<close> slots have been dispatched: the rest are waiting in order, the dispatched ones are in flight
  or delivered, and the pool is as full as the slots allow.
\<close>

definition pool_inv :: "nat \<Rightarrow> nat \<Rightarrow> nat \<Rightarrow> pool \<Rightarrow> bool" where
  "pool_inv start n_slots m p \<longleftrightarrow>
     (let n = min n_slots (m + length (outcomes p))
      in slots p = rev [start + n ..< start + n_slots] \<and>
         mset (map outcome_slot (outcomes p)) + mset (in_flight p) = mset [start ..< start + n] \<and>
         (\<forall>j < length (outcomes p). outcome_slot (outcomes p ! j) < start + m + j))"

lemma prime_eq:
  "in_flight p = [start ..< start + n] \<Longrightarrow> slots p = rev [start + n ..< start + n_slots] \<Longrightarrow> n \<le> m \<Longrightarrow> n \<le> n_slots \<Longrightarrow>
     prime m p = p\<lparr>slots := rev [start + min n_slots m ..< start + n_slots], in_flight := [start ..< start + min n_slots m]\<rparr>"
proof (induction m p arbitrary: n rule: prime.induct)
  case (1 m p)
  show ?case
  proof (cases "n < m \<and> n < n_slots")
    case True
    then have pop: "vec_pop (slots p) = Some (start + n, rev [start + Suc n ..< start + n_slots])"
      using 1(3) by (simp add: vec_pop_range)
    have l: "length (in_flight p) < m" using 1(2) True by simp
    from 1(1) [OF l pop refl, of "Suc n"] True 1(2) show ?thesis
      by (subst prime.simps) (simp add: l pop)
  next
    case False
    then have "n = m \<or> n = n_slots" using 1(4,5) by linarith
    then show ?thesis using 1(2-5) by (subst prime.simps) (auto simp: vec_pop_def min_def)
  qed
qed

lemma start_pool_eq:
  "start + n_slots < 2 ^ 64 \<Longrightarrow> start_pool start n_slots m =
     \<lparr>slots = rev [start + min n_slots m ..< start + n_slots],
      in_flight = [start ..< start + min n_slots m], outcomes = []\<rparr>"
  using prime_eq [of "\<lparr>slots = slot_range start n_slots, in_flight = [], outcomes = []\<rparr>" start 0 n_slots m]
  by (simp add: start_pool_def slot_range_def)

lemma start_pool_inv: "start + n_slots < 2 ^ 64 \<Longrightarrow> pool_inv start n_slots m (start_pool start n_slots m)"
  by (simp add: start_pool_eq pool_inv_def Let_def)

lemma mset_remove_nth: "i < length xs \<Longrightarrow> mset xs = add_mset (xs ! i) (mset (take i xs @ drop (Suc i) xs))"
  by (subst (1) id_take_nth_drop [of i xs]) simp_all

lemma step_inv:
  assumes inv: "pool_inv start n_slots m p" and i: "i < length (in_flight p)" and out: "outcome_slot out = in_flight p ! i"
  shows "pool_inv start n_slots m (complete i out p)"
proof -
  let ?k = "length (outcomes p)" and ?rest = "take i (in_flight p) @ drop (Suc i) (in_flight p)"
  define n where "n = min n_slots (m + ?k)"
  have sl: "slots p = rev [start + n ..< start + n_slots]"
    and ms: "mset (map outcome_slot (outcomes p)) + mset (in_flight p) = mset [start ..< start + n]"
    and bd: "\<forall>j < ?k. outcome_slot (outcomes p ! j) < start + m + j"
    using inv by (simp_all add: pool_inv_def n_def Let_def)
  have "in_flight p ! i \<in># mset (map outcome_slot (outcomes p)) + mset (in_flight p)" using i by simp
  then have "in_flight p ! i < start + n" unfolding ms by simp
  then have b: "outcome_slot out < start + m + ?k" using out by (simp add: n_def)
  have bd': "\<forall>j < Suc ?k. outcome_slot ((outcomes p @ [out]) ! j) < start + m + j"
    using bd b by (auto simp: nth_append less_Suc_eq)
  have ms': "mset (map outcome_slot (outcomes p @ [out])) + mset ?rest = mset [start ..< start + n]"
    unfolding ms [symmetric] mset_remove_nth [OF i] using out by simp
  show ?thesis
  proof (cases "n < n_slots")
    case True
    then have pop: "vec_pop (slots p) = Some (start + n, rev [start + Suc n ..< start + n_slots])"
      unfolding sl by (rule vec_pop_range)
    have n': "min n_slots (Suc (m + ?k)) = Suc n" using True by (simp add: n_def)
    have c: "complete i out p = p\<lparr>slots := rev [start + Suc n ..< start + n_slots],
        in_flight := ?rest @ [start + n], outcomes := outcomes p @ [out]\<rparr>"
      by (simp add: complete_def Let_def pop)
    have "mset (map outcome_slot (outcomes p @ [out])) + mset (?rest @ [start + n]) = mset [start ..< start + Suc n]"
      using ms' by simp
    then show ?thesis using bd' unfolding c pool_inv_def by (simp add: n' Let_def del: upt_Suc)
  next
    case False
    then have n: "n = n_slots" by (simp add: n_def)
    then have n': "min n_slots (Suc (m + ?k)) = n_slots" by (simp add: n_def)
    have "complete i out p = p\<lparr>in_flight := ?rest, outcomes := outcomes p @ [out]\<rparr>"
      using sl n by (simp add: complete_def Let_def vec_pop_def)
    then show ?thesis using bd' ms' sl n unfolding pool_inv_def by (simp add: n' Let_def)
  qed
qed

lemma reachable_inv:
  assumes "\<forall>s out. result s out \<longrightarrow> outcome_slot out = s" and "start + n_slots < 2 ^ 64"
    and "(pool_step result)\<^sup>*\<^sup>* (start_pool start n_slots m) p"
  shows "pool_inv start n_slots m p"
  using assms(3)
proof (induction rule: rtranclp_induct)
  case base
  show ?case by (rule start_pool_inv [OF assms(2)])
next
  case (step p q)
  from step.hyps(2) step.IH show ?case
    by (elim pool_stepE) (auto intro: step_inv simp: assms(1))
qed

lemma pool_inv_in_flight:
  assumes "pool_inv start n_slots m p"
  shows "length (outcomes p) + length (in_flight p) = min n_slots (m + length (outcomes p))"
proof -
  have "size (mset (map outcome_slot (outcomes p)) + mset (in_flight p)) = min n_slots (m + length (outcomes p))"
    using assms by (simp add: pool_inv_def Let_def)
  then show ?thesis by simp
qed

text \<open>
  C31. In every reachable state of the worker pool, whatever the order in which requests complete:
  at most \<open>max_concurrency\<close> requests are in flight, and exactly that many until the slots run out;
  slots are dispatched in ascending order and each exactly once; and an outcome overtakes at most
  \<open>max_concurrency - 1\<close> older slots.
\<close>

theorem pool_bounded_and_ordered:
  assumes "\<forall>s out. result s out \<longrightarrow> outcome_slot out = s" and "start + n_slots < 2 ^ 64"
    and "(pool_step result)\<^sup>*\<^sup>* (start_pool start n_slots m) p"
  shows "length (in_flight p) \<le> m \<and> (slots p \<noteq> [] \<longrightarrow> length (in_flight p) = m) \<and>
    (\<exists>n \<le> n_slots. rev (slots p) = [start + n ..< start + n_slots] \<and>
       mset (map outcome_slot (outcomes p)) + mset (in_flight p) = mset [start ..< start + n]) \<and>
    (\<forall>j < length (outcomes p). outcome_slot (outcomes p ! j) < start + m + j)"
proof -
  note inv = reachable_inv [OF assms]
  let ?n = "min n_slots (m + length (outcomes p))"
  have s: "rev (slots p) = [start + ?n ..< start + n_slots]"
    "mset (map outcome_slot (outcomes p)) + mset (in_flight p) = mset [start ..< start + ?n]"
    "\<forall>j < length (outcomes p). outcome_slot (outcomes p ! j) < start + m + j"
    using inv by (simp_all add: pool_inv_def Let_def)
  have "slots p \<noteq> [] \<longrightarrow> m + length (outcomes p) < n_slots"
    using inv by (auto simp: pool_inv_def Let_def min_def split: if_splits)
  then show ?thesis using pool_inv_in_flight [OF inv] s by (intro conjI) (auto intro!: exI [of _ ?n])
qed

lemma run_pool_reaches:
  "(\<And>s. result s (res s)) \<Longrightarrow>
     (pool_step result)\<^sup>*\<^sup>* p (run_pool pick res p) \<and> in_flight (run_pool pick res p) = []"
proof (induction pick res p rule: run_pool.induct)
  case (1 pick res p)
  show ?case
  proof (cases "in_flight p = []")
    case False
    let ?i = "pick p mod length (in_flight p)"
    have "?i < length (in_flight p)" using False by simp
    then have "pool_step result p (complete ?i (res (in_flight p ! ?i)) p)" using 1(2) by (rule pool_step.completes)
    with 1(1) [OF False refl 1(2)] show ?thesis
      using False by (subst (1 2) run_pool.simps) (auto simp: Let_def intro: converse_rtranclp_into_rtranclp)
  qed (simp add: run_pool.simps)
qed

lemma fetch_block_range_mset:
  assumes "\<forall>s. outcome_slot (result s) = s" and "start + n_slots < 2 ^ 64" and "0 < m"
  shows "mset (fetch_block_range pick result start n_slots m) = mset (map result [start ..< start + n_slots])"
proof -
  let ?done = "\<lambda>s out. out = result s"
  let ?q = "run_pool pick result (start_pool start n_slots m)"
  have r: "(pool_step ?done)\<^sup>*\<^sup>* (start_pool start n_slots m) ?q" "in_flight ?q = []"
    using run_pool_reaches [of ?done result] by simp_all
  have ok: "\<forall>s out. ?done s out \<longrightarrow> outcome_slot out = s" using assms(1) by simp
  note inv = reachable_inv [OF ok assms(2) r(1)]
  have "length (outcomes ?q) = min n_slots (m + length (outcomes ?q))" using pool_inv_in_flight [OF inv] r(2) by simp
  then have "min n_slots (m + length (outcomes ?q)) = n_slots" using assms(3) by linarith
  then have ms: "mset (map outcome_slot (outcomes ?q)) = mset [start ..< start + n_slots]"
    using inv r(2) by (simp add: pool_inv_def Let_def)
  have "\<forall>out\<in>set (outcomes p). out = result (outcome_slot out)"
    if "(pool_step ?done)\<^sup>*\<^sup>* (start_pool start n_slots m) p" for p
    using that
  proof (induction rule: rtranclp_induct)
    case base
    show ?case unfolding start_pool_eq [OF assms(2)] by simp
  next
    case (step p q)
    from step.hyps(2) step.IH show ?case
      by (elim pool_stepE) (auto simp: complete_def Let_def assms(1) split: option.splits)
  qed
  from this [OF r(1)] have "map result (map outcome_slot (outcomes ?q)) = outcomes ?q" by (simp add: map_idI)
  then have "mset (outcomes ?q) = image_mset result (mset (map outcome_slot (outcomes ?q)))" by (metis mset_map)
  then show ?thesis unfolding ms fetch_block_range_def by simp
qed

text \<open>
  C11. The fetch of a range always ends, and has then delivered exactly one outcome for every slot
  of the range and nothing else, for every positive concurrency, every completion order and every
  mixture of ingested, skipped and failed slots.
\<close>

theorem fetch_block_range_complete:
  assumes "\<forall>s. outcome_slot (result s) = s" and "start + n_slots < 2 ^ 64" and "0 < m"
  shows "mset (fetch_block_range pick result start n_slots m) = mset (map result [start ..< start + n_slots])"
  using assms by (rule fetch_block_range_mset)


subsection \<open>The outcome of one slot\<close>

lemma decode_block_slot: "decode_block slot raw = Some b \<Longrightarrow> db_slot b = slot"
  by (auto simp: decode_block_def split: option.splits)

lemma get_block_slot: "get_block J http slot = Some (Inr b) \<Longrightarrow> db_slot b = slot"
  by (auto simp: get_block_def decode_get_block_json_def Let_def decode_block_slot
      split: sum.splits option.splits if_splits)

lemma outcome_of_slot: "(\<And>b. r = Inr b \<Longrightarrow> db_slot b = slot) \<Longrightarrow> outcome_slot (outcome_of slot r) = slot"
  by (cases "(slot, r)" rule: outcome_of.cases) simp_all

lemma get_block_op_slot: "fst (get_block_op J env slot s) = Inr b \<Longrightarrow> db_slot b = slot"
proof -
  let ?r = "fst (fe_http env slot s)"
  assume a: "fst (get_block_op J env slot s) = Inr b"
  obtain r where r: "get_block J (\<lambda>_. ?r) slot = Some r" using get_block_no_panic by blast
  then have "r = Inr b" using a by (simp add: get_block_op_def Let_def split_beta)
  then show ?thesis using get_block_slot r by blast
qed

lemma fetch_one_slot:
  assumes "fetch_one J env cfg slot s = Some (x, s')"
  shows "outcome_slot x = slot"
proof -
  let ?env = "fetch_retry_env J env slot"
  obtain s1 a where x: "x = outcome_of slot (fst a)" "retry_with_backoff cfg ?env s1 = Some a"
    using assms by (auto simp: fetch_one_def split: option.splits)
  obtain k where "retry_with_backoff cfg ?env s1 = map_option (re_op ?env) (attempt_world cfg ?env s1 k)"
    by (rule retry_with_backoff_stop [of cfg ?env s1])
  then obtain w where "a = get_block_op J env slot w" using x(2) by (auto simp: fetch_retry_env_def)
  then show ?thesis unfolding x(1) by (intro outcome_of_slot) (simp add: get_block_op_slot)
qed

text \<open>
  The answer to the i-th request for a slot, when all earlier ones are retried, and the world after it; \<open>None\<close> when the
  generator panicked before.
\<close>

definition fetch_answer ::
  "'v json_api \<Rightarrow> ('s, 'v) fetch_env \<Rightarrow> nat \<Rightarrow> 's \<Rightarrow> nat \<Rightarrow> ((rpc_error + decoded_block) \<times> 's) option" where
  "fetch_answer J env slot s i =
     map_option (get_block_op J env slot) (attempt_world default_retry_config (fetch_retry_env J env slot) s i)"

lemma fetch_stops:
  assumes "fetch_answer J env slot s i = Some (a, s')"
  shows "stops_at default_retry_config (fetch_retry_env J env slot) s i \<longleftrightarrow> \<not> (\<exists>e. a = Inl e \<and> is_transient e \<and> i < 5)"
  using assms by (cases a) (auto simp: fetch_answer_def stops_at_def fetch_retry_env_def default_retries)

text \<open>
  C32. Once the limiter lets it through, the fetch of a slot returns after one to six requests, and the deciding
  request is the first whose answer is not a transient error, or the sixth: a block, which is one of that slot, makes the
  slot Ingested, the answer that the slot was skipped makes it Skipped, and every other error, a transient one after the sixth
  request included, makes it Failed with the message of that error.
\<close>

theorem fetch_one_outcome:
  assumes "fe_acquire env s = Some s1" and "gen_range_ok (fe_gen_range env)"
  shows "\<exists>k \<le> 5. \<exists>a s2. fetch_answer J env slot s1 k = Some (a, s2) \<and>
    fetch_one J env default_retry_config slot s =
      Some (case a of
              Inr b \<Rightarrow> Ingested b
            | Inl e \<Rightarrow> if e = SlotSkipped then Skipped slot else Failed slot (rpc_error_to_string e), s2) \<and>
    (\<forall>b. a = Inr b \<longrightarrow> db_slot b = slot) \<and>
    (\<forall>i < k. \<exists>e s'. fetch_answer J env slot s1 i = Some (Inl e, s') \<and> is_transient e) \<and>
    (k < 5 \<longrightarrow> \<not> (\<exists>e. a = Inl e \<and> is_transient e))"
proof (rule retry_with_backoff_stop [of default_retry_config "fetch_retry_env J env slot" s1])
  let ?env = "fetch_retry_env J env slot"
  fix k
  assume k: "k \<le> unat (max_retries default_retry_config)"
    "retry_with_backoff default_retry_config ?env s1 = map_option (re_op ?env) (attempt_world default_retry_config ?env s1 k)"
    "stops_at default_retry_config ?env s1 k" "\<forall>i < k. \<not> stops_at default_retry_config ?env s1 i"
  have k5: "k \<le> 5" using k(1) by (simp add: default_retries)
  have gen: "gen_range_ok (re_gen_range ?env)" using assms(2) by (simp add: fetch_retry_env_def)
  obtain w where w: "attempt_world default_retry_config ?env s1 k = Some w"
    by (rule attempt_world_no_panic [OF gen default_jitter_ok k(1)])
  obtain a s2 where a: "get_block_op J env slot w = (a, s2)" by fastforce
  have ans: "fetch_answer J env slot s1 k = Some (a, s2)" by (simp add: fetch_answer_def w a)
  have out: "outcome_of slot a = (case a of Inr b \<Rightarrow> Ingested b
      | Inl e \<Rightarrow> if e = SlotSkipped then Skipped slot else Failed slot (rpc_error_to_string e))"
    by (cases "(slot, a)" rule: outcome_of.cases) simp_all
  have "retry_with_backoff default_retry_config ?env s1 = Some (a, s2)" using k(2) w a by (simp add: fetch_retry_env_def)
  then have "fetch_one J env default_retry_config slot s = Some (outcome_of slot a, s2)"
    by (simp add: fetch_one_def assms(1))
  moreover have "\<forall>b. a = Inr b \<longrightarrow> db_slot b = slot" using get_block_op_slot [of J env slot w] a by simp
  moreover have "\<exists>e s'. fetch_answer J env slot s1 i = Some (Inl e, s') \<and> is_transient e" if "i < k" for i
  proof (rule not_stopsE [of default_retry_config ?env s1 i])
    fix v e assume v: "attempt_world default_retry_config ?env s1 i = Some v" "fst (re_op ?env v) = Inl e" "re_should_retry ?env e"
    then show ?thesis
      by (cases "get_block_op J env slot v") (simp add: fetch_answer_def fetch_retry_env_def)
  qed (use k(4) that in blast)
  moreover have "k < 5 \<longrightarrow> \<not> (\<exists>e. a = Inl e \<and> is_transient e)" using k(3) fetch_stops [OF ans] by blast
  ultimately show ?thesis using k5 ans out by (intro exI [of _ k] conjI exI [of _ a] exI [of _ s2]) auto
qed

text \<open>A world that counts the tokens taken and the requests sent; every request times out.\<close>

definition failing_env :: "(nat \<times> nat, 'v) fetch_env" where
  "failing_env =
     \<lparr>fe_acquire = \<lambda>(a, r). Some (a + 1, r), fe_http = \<lambda>slot (a, r). (Inl ''timeout'', (a, r + 1)),
      fe_gen_range = \<lambda>lo hi s. Some (lo, s), fe_sleep = \<lambda>d s. s\<rparr>"

lemma failing_acquire: "fe_acquire failing_env (a, r) = Some (a + 1, r)"
  by (simp add: failing_env_def)

lemma failing_gen: "gen_range_ok (fe_gen_range failing_env)"
  by (simp add: gen_range_ok_def range_ok_def failing_env_def)

lemma failing_answer:
  "get_block_op J failing_env slot (a, r) = (Inl (Transport ''timeout''), (a, r + 1))"
  by (simp add: get_block_op_def failing_env_def get_block_def)

lemma failing_world:
  "attempt_world cfg (fetch_retry_env J failing_env slot) (a, r) n = Some (a, r + n)"
proof (induction n)
  case (Suc n)
  have "backoff cfg (fetch_retry_env J failing_env slot) m w = Some w" for m w
    by (simp add: backoff_def draw_delay_def fetch_retry_env_def failing_env_def Let_def)
  then show ?case using Suc by (simp add: fetch_retry_env_def failing_answer)
qed simp

lemma failing_answers: "fetch_answer J failing_env slot (a, r) n = Some (Inl (Transport ''timeout''), (a, r + n + 1))"
  by (simp add: fetch_answer_def failing_world failing_answer)

theorem fetch_one_outcome_witness:
  "\<exists>w. fetch_one sample_api failing_env default_retry_config 7 (0, 0) = Some (Failed 7 ''transport error: timeout'', w)"
  using fetch_one_outcome [OF failing_acquire failing_gen, of sample_api 7 0 0] by (auto simp: failing_answers)

text \<open>One token of the limiter pays for up to six requests: the retries bypass it.\<close>

lemma retries_bypass_limiter:
  "fetch_one J failing_env default_retry_config slot (0, 0) = Some (Failed slot ''transport error: timeout'', (1, 6))"
proof (rule retry_with_backoff_stop [of default_retry_config "fetch_retry_env J failing_env slot" "(1, 0)"])
  let ?env = "fetch_retry_env J failing_env slot"
  fix k
  assume k: "k \<le> unat (max_retries default_retry_config)"
    "retry_with_backoff default_retry_config ?env (1, 0) = map_option (re_op ?env) (attempt_world default_retry_config ?env (1, 0) k)"
    "stops_at default_retry_config ?env (1, 0) k"
  have "k \<le> 5" using k(1) by (simp add: default_retries)
  moreover have "\<not> k < 5" using k(3) unfolding fetch_stops [OF failing_answers] by simp
  ultimately have k5: "k = 5" by simp
  have op: "re_op ?env (1, 5) = (Inl (Transport ''timeout''), (1, 6))" by (simp add: fetch_retry_env_def failing_answer)
  have "retry_with_backoff default_retry_config ?env (1, 0) = Some (Inl (Transport ''timeout''), (1, 6))"
    using k(2) op unfolding k5 failing_world by simp
  then show ?thesis by (simp add: fetch_one_def failing_acquire)
qed

text \<open>Without concurrency nothing is fetched, and the caller sees an empty range.\<close>

lemma zero_concurrency_fetches_nothing: "fetch_block_range pick result start n_slots 0 = []"
  by (simp add: fetch_block_range_def start_pool_def prime.simps run_pool.simps)

lemma wrapping_range_fetches_nothing:
  "2 ^ 64 \<le> start + n_slots \<Longrightarrow> start < 2 ^ 64 \<Longrightarrow> n_slots < 2 ^ 64 \<Longrightarrow> fetch_block_range pick result start n_slots m = []"
proof -
  assume a: "2 ^ 64 \<le> start + n_slots" "start < 2 ^ 64" "n_slots < 2 ^ 64"
  then have "(start + n_slots) mod 2 ^ 64 = start + n_slots - 2 ^ 64" by (simp add: mod_if)
  then have "slot_range start n_slots = []" using a by (simp add: slot_range_def)
  then show ?thesis by (simp add: fetch_block_range_def start_pool_def prime.simps run_pool.simps vec_pop_def)
qed

theorem pool_bounded_and_ordered_witness:
  "length (in_flight (start_pool 10 5 2)) \<le> 2 \<and> rev (slots (start_pool 10 5 2)) = [12, 13, 14]"
proof -
  have "start_pool 10 5 2 = \<lparr>slots = [14, 13, 12], in_flight = [10, 11], outcomes = []\<rparr>"
    by (simp add: start_pool_eq upt_rec)
  then show ?thesis
    using pool_bounded_and_ordered [of "\<lambda>s out. out = Skipped s" 10 5 2 "start_pool 10 5 2"] by simp
qed

theorem fetch_block_range_complete_witness:
  "mset (fetch_block_range (\<lambda>p. 1) Skipped 10 5 2) = {#Skipped 10, Skipped 11, Skipped 12, Skipped 13, Skipped 14#}"
  using fetch_block_range_complete [of Skipped 10 5 2 "\<lambda>p. 1"] by (simp add: upt_rec)

end
