(* ===== verification/Storage.thy ===== *)
theory Storage
  imports Netting Ohlcv Contention
begin

section \<open>The repository\<close>

text \<open>
  \<open>crates/storage/src\<close>: the schema, and the statements of \<open>repository.rs\<close> over a database of
  tables.  A table is a list of rows; the relational meaning of the SQL text the source contains is
  given statement by statement.  The engine is a parameter: \<open>cn_faults\<close> says for each statement
  whether DuckDB refuses it on its own account (I/O error, interrupted, index conflict), and a
  statement of an aborted transaction is refused always.  \<open>serde_json::to_string\<close> is a parameter.
\<close>

subsection \<open>Integer casts\<close>

definition u64_as_i64 :: "nat \<Rightarrow> int" where
  "u64_as_i64 n = (if n < 2 ^ 63 then int n else int n - 2 ^ 64)"

definition i64_as_u64 :: "int \<Rightarrow> nat" where
  "i64_as_u64 n = nat (n mod 2 ^ 64)"

lemma i64_as_u64_inverse: "n < 2 ^ 64 \<Longrightarrow> i64_as_u64 (u64_as_i64 n) = n"
  by (auto simp: i64_as_u64_def u64_as_i64_def)

lemma u64_as_i64_inj: "m < 2 ^ 64 \<Longrightarrow> n < 2 ^ 64 \<Longrightarrow> u64_as_i64 m = u64_as_i64 n \<Longrightarrow> m = n"
  using i64_as_u64_inverse by metis

definition usize_as_i32 :: "nat \<Rightarrow> int" where
  "usize_as_i32 n = sint (of_nat n :: 32 word)"

subsection \<open>Tables\<close>

record block_row =
  bl_slot :: int
  bl_block_time :: "int option"
  bl_tx_count :: int

record transaction_row =
  tr_signature :: string
  tr_slot :: int
  tr_block_time :: "int option"
  tr_failed :: bool
  tr_program_ids :: string
  tr_step :: "int option"

record account_lock_row =
  al_slot :: int
  al_tx_signature :: string
  al_account :: string
  al_is_writable :: bool

record token_balance_row =
  tb_tx_signature :: string
  tb_slot :: int
  tb_block_time :: "int option"
  tb_mint :: string
  tb_pre_amount :: int
  tb_post_amount :: int
  tb_decimals :: int

record candle_row =
  cr_mint :: string
  cr_interval_sec :: int
  cr_candle :: candle

record status_row =
  st_slot :: int
  st_status :: string
  st_note :: "string option"

record db =
  blocks :: "block_row list"
  transactions :: "transaction_row list"
  account_locks :: "account_lock_row list"
  token_balance_changes :: "token_balance_row list"
  candles :: "candle_row list"
  ingestion_status :: "status_row list"

text \<open>The primary keys of \<open>schema.rs\<close>.\<close>

definition lock_key :: "account_lock_row \<Rightarrow> string \<times> string" where
  "lock_key r = (al_tx_signature r, al_account r)"

definition balance_key :: "token_balance_row \<Rightarrow> string \<times> string" where
  "balance_key r = (tb_tx_signature r, tb_mint r)"

definition candle_key :: "candle_row \<Rightarrow> string \<times> int \<times> int" where
  "candle_key r = (cr_mint r, cr_interval_sec r, cd_bucket_start (cr_candle r))"

definition db_keys_ok :: "db \<Rightarrow> bool" where
  "db_keys_ok d \<longleftrightarrow>
     distinct (map bl_slot (blocks d)) \<and>
     distinct (map tr_signature (transactions d)) \<and>
     distinct (map lock_key (account_locks d)) \<and>
     distinct (map balance_key (token_balance_changes d)) \<and>
     distinct (map candle_key (candles d)) \<and>
     distinct (map st_slot (ingestion_status d))"

definition empty_db :: db where
  "empty_db = \<lparr>blocks = [], transactions = [], account_locks = [], token_balance_changes = [],
     candles = [], ingestion_status = []\<rparr>"

subsection \<open>The three shapes of write statement\<close>

text \<open>\<open>INSERT \<dots> ON CONFLICT (key) DO UPDATE SET\<close> every other column; \<open>merge\<close> is that assignment.\<close>

definition sql_upsert :: "('r \<Rightarrow> 'k) \<Rightarrow> ('r \<Rightarrow> 'r \<Rightarrow> 'r) \<Rightarrow> 'r \<Rightarrow> 'r list \<Rightarrow> 'r list" where
  "sql_upsert key merge row tbl =
     (if key row \<in> key ` set tbl then map (\<lambda>old. if key old = key row then merge old row else old) tbl
      else tbl @ [row])"

text \<open>The rows an appender flushes: all of them, or a constraint violation.\<close>

definition sql_append :: "('r \<Rightarrow> 'k) \<Rightarrow> 'r list \<Rightarrow> 'r list \<Rightarrow> 'r list option" where
  "sql_append key rows tbl = (if distinct (map key (tbl @ rows)) then Some (tbl @ rows) else None)"

definition sql_delete :: "('r \<Rightarrow> bool) \<Rightarrow> 'r list \<Rightarrow> 'r list" where
  "sql_delete P tbl = filter (\<lambda>r. \<not> P r) tbl"

subsection \<open>The upsert interface\<close>

locale upsert_table =
  fixes key :: "'r \<Rightarrow> 'k" and merge :: "'r \<Rightarrow> 'r \<Rightarrow> 'r" and put :: "'r \<Rightarrow> 'r list \<Rightarrow> 'r list"
  assumes put_eq: "put = sql_upsert key merge"
    and merge_overwrites: "key old = key new \<Longrightarrow> merge old new = new"
begin

lemma put_simp:
  "put r t = (if key r \<in> key ` set t then map (\<lambda>old. if key old = key r then r else old) t else t @ [r])"
  by (auto simp: put_eq sql_upsert_def merge_overwrites)

lemma put_keys: "map key (put r t) = (if key r \<in> key ` set t then map key t else map key t @ [key r])"
  by (auto simp: put_simp)

lemma put_distinct: "distinct (map key t) \<Longrightarrow> distinct (map key (put r t))"
  unfolding put_keys by auto

lemma put_set:
  "set (put r t) = insert r {x \<in> set t. key x \<noteq> key r}"
  by (cases "key r \<in> key ` set t") (force simp: put_simp image_iff)+

lemma put_map_of:
  "map_of (map (\<lambda>x. (key x, x)) (put r t)) = (map_of (map (\<lambda>x. (key x, x)) t))(key r \<mapsto> r)"
proof (cases "key r \<in> key ` set t")
  case True
  have "map_of (map (\<lambda>x. (key x, x)) (map (\<lambda>old. if key old = key r then r else old) t)) k =
      (if k \<in> key ` set t \<and> k = key r then Some r else map_of (map (\<lambda>x. (key x, x)) t) k)" for k
    by (induction t) auto
  then show ?thesis using True by (auto simp: put_simp fun_eq_iff simp del: map_map)
next
  case False
  have "map_of (map (\<lambda>x. (key x, x)) (t @ [r])) k =
      (case map_of (map (\<lambda>x. (key x, x)) t) k of None \<Rightarrow> if k = key r then Some r else None | Some x \<Rightarrow> Some x)" for k
    by (induction t) auto
  moreover have "map_of (map (\<lambda>x. (key x, x)) t) (key r) = None"
    using False by (auto simp: map_of_eq_None_iff)
  ultimately show ?thesis using False by (auto simp: put_simp fun_eq_iff split: option.split)
qed

lemma put_last_wins:
  assumes "key r = key r'"
  shows "put r' (put r t) = put r' t"
proof (cases "key r \<in> key ` set t")
  case True
  then have "key r' \<in> key ` set (put r t)" by (auto simp: put_set assms)
  then show ?thesis using True assms by (auto simp: put_simp)
next
  case False
  then have "map (\<lambda>old. if key old = key r' then r' else old) t = t"
    using assms False by (intro map_idI) (auto simp: image_iff)
  then show ?thesis using False assms by (simp add: put_simp)
qed

lemma put_idem: "put r (put r t) = put r t"
  by (rule put_last_wins) simp

text \<open>A batch of upserts with distinct keys leaves exactly its rows beside the untouched ones.\<close>

lemma put_all_set:
  "distinct (map key rs) \<Longrightarrow> set (fold put rs t) = set rs \<union> {x \<in> set t. key x \<notin> key ` set rs}"
proof (induction rs arbitrary: t)
  case (Cons r rs)
  then have "set (fold put (r # rs) t) = set rs \<union> {x \<in> insert r {x \<in> set t. key x \<noteq> key r}. key x \<notin> key ` set rs}"
    by (simp add: put_set)
  moreover have "key r \<notin> key ` set rs" using Cons.prems by simp
  ultimately show ?case by auto
qed simp

lemma put_all_lookup:
  "distinct (map key rs) \<Longrightarrow> map_of (map (\<lambda>x. (key x, x)) (fold put rs t)) k =
     (case map_of (map (\<lambda>x. (key x, x)) rs) k of None \<Rightarrow> map_of (map (\<lambda>x. (key x, x)) t) k | Some r \<Rightarrow> Some r)"
proof (induction rs arbitrary: t)
  case (Cons r rs)
  have "map_of (map (\<lambda>x. (key x, x)) rs) (key r) = None" using Cons.prems by (auto simp: map_of_eq_None_iff)
  then show ?case using Cons by (auto simp: put_map_of split: option.split)
qed simp

lemma put_all_prefix: "prefix (map key t) (map key (fold put rs t))"
proof (induction rs arbitrary: t)
  case (Cons r rs)
  have "prefix (map key t) (map key (put r t))" unfolding put_keys by simp
  then show ?case using Cons.IH [of "put r t"] by (simp add: prefix_order.trans)
qed simp

lemma put_all_pointwise:
  "key ` set rs \<subseteq> key ` set t \<Longrightarrow> distinct (map key rs) \<Longrightarrow>
     fold put rs t = map (\<lambda>r. case map_of (map (\<lambda>x. (key x, x)) rs) (key r) of None \<Rightarrow> r | Some r' \<Rightarrow> r') t"
proof (induction rs arbitrary: t)
  case (Cons r rs)
  have keys: "key ` set (put r t) = key ` set t" using Cons.prems(1) arg_cong [OF put_keys [of r t], of set] by simp
  have fresh: "map_of (map (\<lambda>x. (key x, x)) rs) (key r) = None"
    using Cons.prems(2) by (auto simp: map_of_eq_None_iff)
  have "put r t = map (\<lambda>old. if key old = key r then r else old) t" using Cons.prems(1) by (simp add: put_simp)
  then have "fold put (r # rs) t = map (\<lambda>x. case map_of (map (\<lambda>x. (key x, x)) rs) (key x) of None \<Rightarrow> x | Some r' \<Rightarrow> r')
      (map (\<lambda>old. if key old = key r then r else old) t)"
    using Cons.IH [of "put r t"] Cons.prems keys by simp
  then show ?case using fresh by (auto simp: comp_def)
qed simp

lemma put_all_distinct: "distinct (map key t) \<Longrightarrow> distinct (map key (fold put rs t))"
  by (induction rs arbitrary: t) (simp_all add: put_distinct)

lemma put_present:
  assumes "distinct (map key t)" and "r \<in> set t"
  shows "put r t = t"
proof -
  have "inj_on key (set t)" using assms(1) by (simp add: distinct_map)
  then have "map (\<lambda>old. if key old = key r then r else old) t = t"
    using assms(2) by (intro map_idI) (auto dest: inj_onD)
  then show ?thesis using assms(2) by (simp add: put_simp)
qed

lemma put_all_present:
  "distinct (map key t) \<Longrightarrow> set rs \<subseteq> set t \<Longrightarrow> fold put rs t = t"
  by (induction rs) (simp_all add: put_present)

lemma put_all_again:
  "distinct (map key t) \<Longrightarrow> distinct (map key rs) \<Longrightarrow> fold put rs (fold put rs t) = fold put rs t"
  by (rule put_all_present) (simp_all add: put_all_distinct put_all_set)

end

definition put_block :: "block_row \<Rightarrow> block_row list \<Rightarrow> block_row list" where
  "put_block = sql_upsert bl_slot
     (\<lambda>old new. old\<lparr>bl_block_time := bl_block_time new, bl_tx_count := bl_tx_count new\<rparr>)"

definition put_status :: "status_row \<Rightarrow> status_row list \<Rightarrow> status_row list" where
  "put_status = sql_upsert st_slot (\<lambda>old new. old\<lparr>st_status := st_status new, st_note := st_note new\<rparr>)"

definition put_candle :: "candle_row \<Rightarrow> candle_row list \<Rightarrow> candle_row list" where
  "put_candle = sql_upsert candle_key
     (\<lambda>old new. old\<lparr>cr_candle := (cr_candle old)
        \<lparr>cd_open := cd_open (cr_candle new), cd_high := cd_high (cr_candle new),
         cd_low := cd_low (cr_candle new), cd_close := cd_close (cr_candle new),
         cd_volume := cd_volume (cr_candle new)\<rparr>\<rparr>)"

interpretation block_tbl: upsert_table bl_slot
    "\<lambda>old new. old\<lparr>bl_block_time := bl_block_time new, bl_tx_count := bl_tx_count new\<rparr>" put_block
  by unfold_locales (simp_all add: put_block_def)

interpretation status_tbl: upsert_table st_slot
    "\<lambda>old new. old\<lparr>st_status := st_status new, st_note := st_note new\<rparr>" put_status
  by unfold_locales (simp_all add: put_status_def)

interpretation candle_tbl: upsert_table candle_key
    "\<lambda>old new. old\<lparr>cr_candle := (cr_candle old)
        \<lparr>cd_open := cd_open (cr_candle new), cd_high := cd_high (cr_candle new),
         cd_low := cd_low (cr_candle new), cd_close := cd_close (cr_candle new),
         cd_volume := cd_volume (cr_candle new)\<rparr>\<rparr>" put_candle
  by unfold_locales (auto simp: put_candle_def candle_key_def)


subsection \<open>Connection and transactions\<close>

datatype storage_error = DuckDb | Json

datatype txn_state = Idle | Open | Aborted

record conn =
  cn_committed :: db
  cn_working :: db
  cn_txn :: txn_state
  cn_faults :: "bool list"

type_synonym 'a repo = "conn \<Rightarrow> (storage_error + 'a) \<times> conn"

definition take_fault :: "conn \<Rightarrow> bool \<times> conn" where
  "take_fault c = (case cn_faults c of [] \<Rightarrow> (False, c) | f # fs \<Rightarrow> (f, c\<lparr>cn_faults := fs\<rparr>))"

text \<open>A statement outside a transaction commits by itself; a refused one inside aborts the transaction.\<close>

definition execute :: "(db \<Rightarrow> db option) \<Rightarrow> unit repo" where
  "execute stmt c =
     (let (fault, c1) = take_fault c
      in case cn_txn c1 of
           Aborted \<Rightarrow> (Inl DuckDb, c1)
         | Open \<Rightarrow>
             (case (if fault then None else stmt (cn_working c1)) of
                None \<Rightarrow> (Inl DuckDb, c1\<lparr>cn_txn := Aborted\<rparr>)
              | Some d \<Rightarrow> (Inr (), c1\<lparr>cn_working := d\<rparr>))
         | Idle \<Rightarrow>
             (case (if fault then None else stmt (cn_committed c1)) of
                None \<Rightarrow> (Inl DuckDb, c1)
              | Some d \<Rightarrow> (Inr (), c1\<lparr>cn_committed := d\<rparr>)))"

definition begin_transaction :: "unit repo" where
  "begin_transaction c =
     (let (fault, c1) = take_fault c
      in if fault \<or> cn_txn c1 \<noteq> Idle then (Inl DuckDb, c1)
         else (Inr (), c1\<lparr>cn_txn := Open, cn_working := cn_committed c1\<rparr>))"

definition commit :: "unit repo" where
  "commit c =
     (let (fault, c1) = take_fault c
      in if cn_txn c1 \<noteq> Open then (Inl DuckDb, c1)
         else if fault then (Inl DuckDb, c1\<lparr>cn_txn := Aborted\<rparr>)
         else (Inr (), c1\<lparr>cn_txn := Idle, cn_committed := cn_working c1\<rparr>))"

definition rollback :: "unit repo" where
  "rollback c = (if cn_txn c = Idle then (Inl DuckDb, c) else (Inr (), c\<lparr>cn_txn := Idle\<rparr>))"

text \<open>The \<open>?\<close> operator.\<close>

definition and_then :: "'a repo \<Rightarrow> 'b repo \<Rightarrow> 'b repo" where
  "and_then m k c = (case m c of (Inl e, c1) \<Rightarrow> (Inl e, c1) | (Inr _, c1) \<Rightarrow> k c1)"

text \<open>
  Opening a database file: \<open>None\<close> when DuckDB cannot, otherwise its tables, which are empty in a new
  file; \<open>CREATE .. IF NOT EXISTS\<close> leaves those that exist as they are.
\<close>

definition run_migrations :: "unit repo" where
  "run_migrations = execute Some"

definition open_storage :: "db option \<Rightarrow> bool list \<Rightarrow> storage_error + conn" where
  "open_storage file faults =
     (case file of
        None \<Rightarrow> Inl DuckDb
      | Some d \<Rightarrow>
          (case run_migrations \<lparr>cn_committed = d, cn_working = d, cn_txn = Idle, cn_faults = faults\<rparr> of
             (Inl e, c) \<Rightarrow> Inl e
           | (Inr _, c) \<Rightarrow> Inr c))"

subsection \<open>Write operations\<close>

definition upsert_ingestion_status :: "nat \<Rightarrow> string \<Rightarrow> string option \<Rightarrow> unit repo" where
  "upsert_ingestion_status slot status note =
     execute (\<lambda>d. Some (d\<lparr>ingestion_status :=
       put_status \<lparr>st_slot = u64_as_i64 slot, st_status = status, st_note = note\<rparr> (ingestion_status d)\<rparr>))"

type_synonym transaction_tuple = "string \<times> bool \<times> string list \<times> int option"
type_synonym lock_tuple = "string \<times> string \<times> bool"
type_synonym token_balance_tuple = "string \<times> string \<times> nat \<times> nat \<times> u8"

record slot_batch_row =
  sb_slot :: nat
  sb_block_time :: "int option"
  sb_transactions :: "transaction_tuple list"
  sb_locks :: "lock_tuple list"
  sb_token_changes :: "token_balance_tuple list"

definition tuple_key :: "token_balance_tuple \<Rightarrow> string \<times> string" where
  "tuple_key = (\<lambda>(sig, mint, pre, post, decimals). (sig, mint))"

definition tuple_delta :: "token_balance_tuple \<Rightarrow> int" where
  "tuple_delta = (\<lambda>(sig, mint, pre, post, decimals). int post - int pre)"

definition tuple_decimals :: "token_balance_tuple \<Rightarrow> u8" where
  "tuple_decimals = (\<lambda>(sig, mint, pre, post, decimals). decimals)"

definition net_tuple :: "string \<times> string \<Rightarrow> int \<Rightarrow> u8 \<Rightarrow> token_balance_tuple" where
  "net_tuple key n decimals =
     (let (pre, post) = (if 0 < n then (0, i128_as_u64 n) else (i128_as_u64 (- n), 0))
      in (fst key, snd key, pre, post, decimals))"

definition coalesce_row_step ::
  "token_balance_tuple \<Rightarrow> (string \<times> string \<rightharpoonup> int \<times> u8) \<times> (string \<times> string) list \<Rightarrow>
     (string \<times> string \<rightharpoonup> int \<times> u8) \<times> (string \<times> string) list" where
  "coalesce_row_step row st =
     (let (net, order) = st; (sig, mint, pre, post, decimals) = row;
          key = (sig, mint); delta = int post - int pre
      in case net key of
           Some (n, d) \<Rightarrow> (net(key \<mapsto> (n + delta, d)), order)
         | None \<Rightarrow> (net(key \<mapsto> (delta, decimals)), order @ [key]))"

definition coalesce_token_balance_rows :: "token_balance_tuple list \<Rightarrow> token_balance_tuple list" where
  "coalesce_token_balance_rows rows =
     (let (net, order) = fold coalesce_row_step rows (Map.empty, [])
      in List.map_filter (\<lambda>key. case net key of None \<Rightarrow> None
           | Some (n, decimals) \<Rightarrow> if n = 0 then None else Some (net_tuple key n decimals)) order)"

text \<open>
  The casts \<open>pre as i64\<close> and \<open>decimals as i32\<close>; the columns are \<open>UBIGINT\<close> and \<open>TINYINT\<close>, so a
  negative amount or decimals over 127 are conversion errors.
\<close>

definition balance_row :: "nat \<Rightarrow> int option \<Rightarrow> token_balance_tuple \<Rightarrow> token_balance_row" where
  "balance_row slot block_time =
     (\<lambda>(sig, mint, pre, post, decimals).
        \<lparr>tb_tx_signature = sig, tb_slot = u64_as_i64 slot, tb_block_time = block_time, tb_mint = mint,
         tb_pre_amount = u64_as_i64 pre, tb_post_amount = u64_as_i64 post, tb_decimals = uint decimals\<rparr>)"

definition balance_fits :: "token_balance_row \<Rightarrow> bool" where
  "balance_fits r \<longleftrightarrow> 0 \<le> tb_pre_amount r \<and> 0 \<le> tb_post_amount r \<and> tb_decimals r \<le> 127"

definition lock_row :: "nat \<Rightarrow> lock_tuple \<Rightarrow> account_lock_row" where
  "lock_row slot =
     (\<lambda>(sig, account, w). \<lparr>al_slot = u64_as_i64 slot, al_tx_signature = sig, al_account = account, al_is_writable = w\<rparr>)"

definition transaction_row_of :: "(string list \<Rightarrow> string) \<Rightarrow> nat \<Rightarrow> int option \<Rightarrow> transaction_tuple \<Rightarrow> transaction_row" where
  "transaction_row_of json slot block_time =
     (\<lambda>(sig, failed, program_ids, step).
        \<lparr>tr_signature = sig, tr_slot = u64_as_i64 slot, tr_block_time = block_time, tr_failed = failed,
         tr_program_ids = json program_ids, tr_step = step\<rparr>)"

definition del_locks :: "nat \<Rightarrow> db \<Rightarrow> db option" where
  "del_locks slot d = Some (d\<lparr>account_locks := sql_delete (\<lambda>r. al_slot r = u64_as_i64 slot) (account_locks d)\<rparr>)"

definition del_balances :: "nat \<Rightarrow> db \<Rightarrow> db option" where
  "del_balances slot d =
     Some (d\<lparr>token_balance_changes := sql_delete (\<lambda>r. tb_slot r = u64_as_i64 slot) (token_balance_changes d)\<rparr>)"

definition del_transactions :: "nat \<Rightarrow> db \<Rightarrow> db option" where
  "del_transactions slot d =
     Some (d\<lparr>transactions := sql_delete (\<lambda>r. tr_slot r = u64_as_i64 slot) (transactions d)\<rparr>)"

definition ins_block :: "slot_batch_row \<Rightarrow> db \<Rightarrow> db option" where
  "ins_block row d =
     Some (d\<lparr>blocks := put_block \<lparr>bl_slot = u64_as_i64 (sb_slot row), bl_block_time = sb_block_time row,
       bl_tx_count = usize_as_i32 (length (sb_transactions row))\<rparr> (blocks d)\<rparr>)"

definition app_transactions :: "(string list \<Rightarrow> string) \<Rightarrow> slot_batch_row \<Rightarrow> db \<Rightarrow> db option" where
  "app_transactions json row d =
     map_option (\<lambda>t. d\<lparr>transactions := t\<rparr>)
       (sql_append tr_signature (map (transaction_row_of json (sb_slot row) (sb_block_time row)) (sb_transactions row))
          (transactions d))"

definition app_locks :: "slot_batch_row \<Rightarrow> db \<Rightarrow> db option" where
  "app_locks row d =
     map_option (\<lambda>t. d\<lparr>account_locks := t\<rparr>)
       (sql_append lock_key (map (lock_row (sb_slot row)) (sb_locks row)) (account_locks d))"

definition app_balances :: "slot_batch_row \<Rightarrow> db \<Rightarrow> db option" where
  "app_balances row d =
     (let rows = map (balance_row (sb_slot row) (sb_block_time row)) (coalesce_token_balance_rows (sb_token_changes row))
      in if list_all balance_fits rows
         then map_option (\<lambda>t. d\<lparr>token_balance_changes := t\<rparr>) (sql_append balance_key rows (token_balance_changes d))
         else None)"

text \<open>
  \<open>to_json\<close> is \<open>serde_json::to_string\<close>, which may fail; the rows an interrupted appender has
  buffered belong to the transaction the caller rolls back.
\<close>

definition replace_slot_data_inner :: "(string list \<Rightarrow> string option) \<Rightarrow> slot_batch_row \<Rightarrow> unit repo" where
  "replace_slot_data_inner to_json row =
     and_then (execute (del_locks (sb_slot row)))
    (and_then (execute (del_balances (sb_slot row)))
    (and_then (execute (del_transactions (sb_slot row)))
    (and_then (execute (ins_block row))
    (and_then
       (if list_all (\<lambda>(sig, failed, program_ids, step). to_json program_ids \<noteq> None) (sb_transactions row)
        then execute (app_transactions (the \<circ> to_json) row) else Pair (Inl Json))
    (and_then (execute (app_locks row))
       (execute (app_balances row)))))))"

fun replace_slots :: "(string list \<Rightarrow> string option) \<Rightarrow> slot_batch_row list \<Rightarrow> unit repo" where
  "replace_slots to_json [] = commit"
| "replace_slots to_json (row # rows) =
     and_then (replace_slot_data_inner to_json row) (replace_slots to_json rows)"

definition replace_slots_batch :: "(string list \<Rightarrow> string option) \<Rightarrow> slot_batch_row list \<Rightarrow> unit repo" where
  "replace_slots_batch to_json slots =
     and_then begin_transaction
       (\<lambda>c. case replace_slots to_json slots c of
              (Inl e, c1) \<Rightarrow> (Inl e, snd (rollback c1))
            | (Inr v, c1) \<Rightarrow> (Inr v, c1))"

definition set_step :: "string \<Rightarrow> int \<Rightarrow> db \<Rightarrow> db option" where
  "set_step sig step d =
     Some (d\<lparr>transactions :=
       map (\<lambda>r. if tr_signature r = sig then r\<lparr>tr_step := Some step\<rparr> else r) (transactions d)\<rparr>)"

fun write_steps :: "(string \<times> nat) list \<Rightarrow> unit repo" where
  "write_steps [] = Pair (Inr ())"
| "write_steps ((sig, step) # rest) =
     and_then (execute (set_step sig (usize_as_i32 step))) (write_steps rest)"

definition write_schedule_steps :: "string list \<Rightarrow> schedule_result \<Rightarrow> unit repo" where
  "write_schedule_steps signatures schedule = write_steps (zip signatures (sr_steps schedule))"

fun upsert_candles :: "string \<Rightarrow> int \<Rightarrow> candle list \<Rightarrow> unit repo" where
  "upsert_candles mint interval_sec [] = Pair (Inr ())"
| "upsert_candles mint interval_sec (c # cs) =
     and_then
       (execute (\<lambda>d. Some (d\<lparr>candles :=
          put_candle \<lparr>cr_mint = mint, cr_interval_sec = interval_sec, cr_candle = c\<rparr> (candles d)\<rparr>)))
       (upsert_candles mint interval_sec cs)"

interpretation by_tx_mint: netting tuple_key tuple_delta tuple_decimals net_tuple coalesce_row_step
    coalesce_token_balance_rows
  by unfold_locales
     (auto simp: tuple_key_def tuple_delta_def tuple_decimals_def net_tuple_def coalesce_row_step_def
        coalesce_token_balance_rows_def i128_as_u64_def Let_def split: option.splits)


subsection \<open>Atomicity of a batch\<close>

text \<open>What one batch row, and a batch, do to the tables when nothing fails.\<close>

definition json_ok :: "(string list \<Rightarrow> string option) \<Rightarrow> slot_batch_row \<Rightarrow> bool" where
  "json_ok to_json row \<longleftrightarrow> list_all (\<lambda>(sig, failed, program_ids, step). to_json program_ids \<noteq> None) (sb_transactions row)"

definition replace_slot :: "(string list \<Rightarrow> string option) \<Rightarrow> slot_batch_row \<Rightarrow> db \<Rightarrow> db option" where
  "replace_slot to_json row d =
     (if json_ok to_json row
      then Option.bind (del_locks (sb_slot row) d) (\<lambda>d1.
           Option.bind (del_balances (sb_slot row) d1) (\<lambda>d2.
           Option.bind (del_transactions (sb_slot row) d2) (\<lambda>d3.
           Option.bind (ins_block row d3) (\<lambda>d4.
           Option.bind (app_transactions (the \<circ> to_json) row d4) (\<lambda>d5.
           Option.bind (app_locks row d5) (app_balances row))))))
      else None)"

fun replace_all :: "(string list \<Rightarrow> string option) \<Rightarrow> slot_batch_row list \<Rightarrow> db \<Rightarrow> db option" where
  "replace_all to_json [] d = Some d"
| "replace_all to_json (row # rows) d = Option.bind (replace_slot to_json row d) (replace_all to_json rows)"

text \<open>
  \<open>m\<close> implements \<open>f\<close> on the working copy of an open transaction: it never touches the committed
  database, success means that \<open>f\<close> was done, and without engine faults it succeeds where \<open>f\<close> does.
\<close>

definition implements :: "unit repo \<Rightarrow> (db \<Rightarrow> db option) \<Rightarrow> bool" where
  "implements m f \<longleftrightarrow>
     (\<forall>c r c'. cn_txn c = Open \<longrightarrow> m c = (r, c') \<longrightarrow>
        cn_committed c' = cn_committed c \<and> cn_txn c' \<noteq> Idle \<and> set (cn_faults c') \<subseteq> set (cn_faults c) \<and>
        (r = Inr () \<longrightarrow> cn_txn c' = Open \<and> f (cn_working c) = Some (cn_working c')) \<and>
        (True \<notin> set (cn_faults c) \<longrightarrow> f (cn_working c) \<noteq> None \<longrightarrow> r = Inr ()))"

lemma take_fault_facts:
  assumes "take_fault c = (b, c1)"
  shows "cn_committed c1 = cn_committed c" "cn_working c1 = cn_working c" "cn_txn c1 = cn_txn c"
    "set (cn_faults c1) \<subseteq> set (cn_faults c)" "b \<longrightarrow> True \<in> set (cn_faults c)"
  using assms by (auto simp: take_fault_def split: list.splits)

lemma implements_execute: "implements (execute f) f"
  unfolding implements_def
proof (intro allI impI)
  fix c r c'
  assume o: "cn_txn c = Open" and e: "execute f c = (r, c')"
  obtain b c1 where t: "take_fault c = (b, c1)" by fastforce
  note F = take_fault_facts [OF t]
  show "cn_committed c' = cn_committed c \<and> cn_txn c' \<noteq> Idle \<and> set (cn_faults c') \<subseteq> set (cn_faults c) \<and>
        (r = Inr () \<longrightarrow> cn_txn c' = Open \<and> f (cn_working c) = Some (cn_working c')) \<and>
        (True \<notin> set (cn_faults c) \<longrightarrow> f (cn_working c) \<noteq> None \<longrightarrow> r = Inr ())"
    using e o F by (auto simp: execute_def t Let_def split: if_splits option.splits)
qed

lemma implements_and_then:
  assumes m: "implements m f" and k: "implements k g"
  shows "implements (and_then m k) (\<lambda>d. Option.bind (f d) g)"
  unfolding implements_def
proof (intro allI impI)
  fix c r c'
  assume o: "cn_txn c = Open" and e: "and_then m k c = (r, c')"
  obtain r1 c1 where 1: "m c = (r1, c1)" by fastforce
  note M = m [unfolded implements_def, rule_format, OF o 1]
  show "cn_committed c' = cn_committed c \<and> cn_txn c' \<noteq> Idle \<and> set (cn_faults c') \<subseteq> set (cn_faults c) \<and>
        (r = Inr () \<longrightarrow> cn_txn c' = Open \<and> Option.bind (f (cn_working c)) g = Some (cn_working c')) \<and>
        (True \<notin> set (cn_faults c) \<longrightarrow> Option.bind (f (cn_working c)) g \<noteq> None \<longrightarrow> r = Inr ())"
  proof (cases r1)
    case (Inl err)
    then have "r = Inl err" "c' = c1" using e 1 by (simp_all add: and_then_def)
    moreover have "True \<notin> set (cn_faults c) \<longrightarrow> f (cn_working c) = None" using M Inl by blast
    ultimately show ?thesis using M by auto
  next
    case (Inr u)
    then have ke: "k c1 = (r, c')" using e 1 by (simp add: and_then_def)
    have o1: "cn_txn c1 = Open" and f1: "f (cn_working c) = Some (cn_working c1)" using M Inr by auto
    note K = k [unfolded implements_def, rule_format, OF o1 ke]
    show ?thesis using M K f1 by (auto simp: subset_iff)
  qed
qed

lemma implements_json:
  assumes "implements m f"
  shows "implements (if P then m else Pair (Inl Json)) (\<lambda>d. if P then f d else None)"
proof (cases P)
  case True
  then show ?thesis using assms by simp
next
  case False
  then show ?thesis by (simp add: implements_def)
qed

lemma implements_cong:
  assumes "implements m f" and "\<And>d. f d = g d"
  shows "implements m g"
proof -
  have "f = g" using assms(2) by (rule ext)
  then show ?thesis using assms(1) by simp
qed

lemma implements_inner: "implements (replace_slot_data_inner to_json row) (replace_slot to_json row)"
  unfolding replace_slot_data_inner_def
  by (rule implements_cong, (rule implements_and_then implements_json implements_execute)+)
    (simp add: replace_slot_def json_ok_def del_locks_def del_balances_def del_transactions_def ins_block_def)


lemma replace_slots_run:
  "cn_txn c = Open \<Longrightarrow> replace_slots to_json rows c = (r, c') \<Longrightarrow>
     (r = Inr () \<longrightarrow> cn_txn c' = Idle \<and> replace_all to_json rows (cn_working c) = Some (cn_committed c')) \<and>
     (r \<noteq> Inr () \<longrightarrow> cn_txn c' \<noteq> Idle \<and> cn_committed c' = cn_committed c) \<and>
     (True \<notin> set (cn_faults c) \<longrightarrow> replace_all to_json rows (cn_working c) \<noteq> None \<longrightarrow> r = Inr ()) \<and>
     set (cn_faults c') \<subseteq> set (cn_faults c)"
proof (induction rows arbitrary: c)
  case Nil
  obtain b c1 where t: "take_fault c = (b, c1)" by fastforce
  then show ?case using Nil take_fault_facts [OF t] by (auto simp: commit_def Let_def split: if_splits)
next
  case (Cons row rows)
  obtain r1 c1 where 1: "replace_slot_data_inner to_json row c = (r1, c1)" by fastforce
  note M = implements_inner [unfolded implements_def, rule_format, OF Cons.prems(1) 1]
  show ?case
  proof (cases r1)
    case (Inl err)
    then have "r = Inl err" "c' = c1" using Cons.prems(2) 1 by (simp_all add: and_then_def)
    moreover have "True \<notin> set (cn_faults c) \<longrightarrow> replace_slot to_json row (cn_working c) = None" using M Inl by blast
    ultimately show ?thesis using M by auto
  next
    case (Inr u)
    then have k: "replace_slots to_json rows c1 = (r, c')" using Cons.prems(2) 1 by (simp add: and_then_def)
    have o1: "cn_txn c1 = Open" and f1: "replace_slot to_json row (cn_working c) = Some (cn_working c1)" using M Inr by auto
    note K = Cons.IH [OF o1 k]
    have ff: "set (cn_faults c1) \<subseteq> set (cn_faults c)" "cn_committed c1 = cn_committed c" using M by auto
    show ?thesis using K f1 ff by (auto simp: subset_iff)
  qed
qed

lemma replace_slots_batch_run:
  assumes "cn_txn c = Idle" and "replace_slots_batch to_json batch c = (r, c')"
  shows "cn_txn c' = Idle \<and>
    (r = Inr () \<longrightarrow> replace_all to_json batch (cn_committed c) = Some (cn_committed c')) \<and>
    (r \<noteq> Inr () \<longrightarrow> cn_committed c' = cn_committed c) \<and>
    (True \<notin> set (cn_faults c) \<longrightarrow> (r = Inr () \<longleftrightarrow> replace_all to_json batch (cn_committed c) \<noteq> None)) \<and>
    set (cn_faults c') \<subseteq> set (cn_faults c)"
proof -
  obtain b c1 where t: "take_fault c = (b, c1)" by fastforce
  note F = take_fault_facts [OF t]
  show ?thesis
  proof (cases b)
    case True
    then have "r = Inl DuckDb" "c' = c1"
      using assms t F by (simp_all add: replace_slots_batch_def and_then_def begin_transaction_def)
    then show ?thesis using F True assms(1) by auto
  next
    case False
    define c2 where "c2 = c1\<lparr>cn_txn := Open, cn_working := cn_committed c1\<rparr>"
    obtain r3 c3 where run: "replace_slots to_json batch c2 = (r3, c3)" by fastforce
    have "cn_txn c2 = Open" by (simp add: c2_def)
    note R = replace_slots_run [OF this run]
    have w: "cn_working c2 = cn_committed c" "cn_committed c2 = cn_committed c" "cn_faults c2 = cn_faults c1"
      using F by (simp_all add: c2_def)
    have res: "(r, c') = (case r3 of Inl e \<Rightarrow> (Inl e, snd (rollback c3)) | Inr v \<Rightarrow> (Inr v, c3))"
      using assms t F False run c2_def by (simp add: replace_slots_batch_def and_then_def begin_transaction_def)
    show ?thesis
    proof (cases r3)
      case (Inl err)
      then have "r = Inl err" "c' = c3\<lparr>cn_txn := Idle\<rparr>" using res R by (auto simp: rollback_def)
      then show ?thesis using R Inl w F by (auto simp: subset_iff)
    next
      case (Inr u)
      then show ?thesis using res R w F by (auto simp: subset_iff)
    qed
  qed
qed

text \<open>
  C21. A batch is atomic, whatever statement the engine refuses and whatever row violates a
  constraint: an error leaves the committed database as it was, success commits exactly the
  replacement of every slot of the batch in order; in both cases the connection is ready for the
  next transaction.  Without engine faults the batch succeeds whenever the replacement is possible.
\<close>

theorem replace_slots_batch_atomic:
  assumes "cn_txn c = Idle" and "replace_slots_batch to_json batch c = (r, c')"
  shows "cn_txn c' = Idle \<and>
    (r = Inr () \<longrightarrow> replace_all to_json batch (cn_committed c) = Some (cn_committed c')) \<and>
    (r \<noteq> Inr () \<longrightarrow> cn_committed c' = cn_committed c) \<and>
    (True \<notin> set (cn_faults c) \<longrightarrow> (r = Inr () \<longleftrightarrow> replace_all to_json batch (cn_committed c) \<noteq> None))"
  using replace_slots_batch_run [OF assms] by blast


subsection \<open>What a batch leaves in the tables\<close>

text \<open>One table of the batch: delete the slot's rows, append the new ones, slot after slot.\<close>

fun rep_all :: "('r \<Rightarrow> 'k) \<Rightarrow> ('r \<Rightarrow> int) \<Rightarrow> (int \<times> 'r list) list \<Rightarrow> 'r list \<Rightarrow> 'r list option" where
  "rep_all key slot_of [] t = Some t"
| "rep_all key slot_of ((s, new) # rest) t =
     Option.bind (sql_append key new (sql_delete (\<lambda>r. slot_of r = s) t)) (rep_all key slot_of rest)"

definition slot_tagged :: "('r \<Rightarrow> int) \<Rightarrow> (int \<times> 'r list) list \<Rightarrow> bool" where
  "slot_tagged slot_of news \<longleftrightarrow> distinct (map fst news) \<and> (\<forall>(s, new)\<in>set news. \<forall>r\<in>set new. slot_of r = s)"

lemma rep_all_result:
  "rep_all key slot_of news t = Some t' \<Longrightarrow> slot_tagged slot_of news \<Longrightarrow>
     t' = filter (\<lambda>r. slot_of r \<notin> fst ` set news) t @ concat (map snd news)"
proof (induction news arbitrary: t)
  case (Cons n news)
  obtain s new where n: "n = (s, new)" by fastforce
  have tag: "slot_tagged slot_of news" "s \<notin> fst ` set news" "\<forall>r\<in>set new. slot_of r = s"
    using Cons.prems(2) n by (auto simp: slot_tagged_def)
  have "rep_all key slot_of news (filter (\<lambda>r. slot_of r \<noteq> s) t @ new) = Some t'"
    using Cons.prems(1) n by (auto simp: sql_append_def sql_delete_def split: if_splits)
  from Cons.IH [OF this tag(1)] have
    "t' = filter (\<lambda>r. slot_of r \<notin> fst ` set news) (filter (\<lambda>r. slot_of r \<noteq> s) t @ new) @ concat (map snd news)" .
  moreover have "filter (\<lambda>r. slot_of r \<notin> fst ` set news) new = new"
    using tag by (auto simp: filter_id_conv)
  ultimately show ?case by (simp add: n conj_commute)
qed simp

lemma rep_all_distinct:
  "rep_all key slot_of news t = Some t' \<Longrightarrow> distinct (map key t) \<Longrightarrow> distinct (map key t')"
  by (induction key slot_of news t rule: rep_all.induct)
    (auto simp: sql_append_def split: if_splits Option.bind_splits)

lemma rep_all_again:
  "slot_tagged slot_of news \<Longrightarrow> distinct (map key t) \<Longrightarrow>
     \<forall>(s, new)\<in>set news. mset (filter (\<lambda>r. slot_of r = s) t) = mset new \<Longrightarrow>
     rep_all key slot_of news t \<noteq> None"
proof (induction news arbitrary: t)
  case (Cons n news)
  obtain s new where n: "n = (s, new)" by fastforce
  have tag: "slot_tagged slot_of news" "s \<notin> fst ` set news" "\<forall>r\<in>set new. slot_of r = s"
    using Cons.prems(1) n by (auto simp: slot_tagged_def)
  let ?t = "filter (\<lambda>r. slot_of r \<noteq> s) t @ new"
  have "mset ?t = mset (filter (\<lambda>r. slot_of r \<noteq> s) t) + mset (filter (\<lambda>r. slot_of r = s) t)"
    using Cons.prems(3) n by auto
  also have "\<dots> = mset t" using mset_filter_split [of "\<lambda>r. slot_of r = s" t] by (simp add: add.commute)
  finally have "mset (map key ?t) = mset (map key t)" by (metis mset_map)
  then have d: "distinct (map key ?t)" using Cons.prems(2) mset_eq_imp_distinct_iff by metis
  have "\<forall>(s', new')\<in>set news. mset (filter (\<lambda>r. slot_of r = s') ?t) = mset new'"
  proof (clarify)
    fix s' new' assume m: "(s', new') \<in> set news"
    then have "s' \<noteq> s" using tag(2) by force
    then have "filter (\<lambda>r. slot_of r = s') ?t = filter (\<lambda>r. slot_of r = s') t"
      using tag(3) by (auto simp: filter_empty_conv intro!: filter_cong)
    then show "mset (filter (\<lambda>r. slot_of r = s') ?t) = mset new'" using Cons.prems(3) m by auto
  qed
  from Cons.IH [OF tag(1) d this] show ?case using d by (simp add: n sql_append_def sql_delete_def)
qed simp

lemma tagged_concat_slot:
  "(s, new) \<in> set ns \<Longrightarrow> slot_tagged slot_of ns \<Longrightarrow> filter (\<lambda>r. slot_of r = s) (concat (map snd ns)) = new"
proof (induction ns)
  case (Cons n ns)
  obtain s1 n1 where n: "n = (s1, n1)" by fastforce
  have tag: "slot_tagged slot_of ns" "s1 \<notin> fst ` set ns" "\<forall>r\<in>set n1. slot_of r = s1"
    using Cons.prems(2) n by (auto simp: slot_tagged_def)
  show ?case
  proof (cases "s = s1")
    case True
    then have "new = n1" using Cons.prems(1) tag(2) n by force
    moreover have "\<forall>r\<in>set (concat (map snd ns)). slot_of r \<noteq> s1"
      using tag(1,2) by (fastforce simp: slot_tagged_def)
    ultimately show ?thesis using True tag(3) n by (auto simp: filter_id_conv filter_empty_conv)
  next
    case False
    then have "(s, new) \<in> set ns" using Cons.prems(1) n by auto
    from Cons.IH [OF this tag(1)] show ?thesis using False tag(3) n by (auto simp: filter_empty_conv)
  qed
qed simp

lemma rep_all_slot:
  assumes "rep_all key slot_of news t = Some t'" and "slot_tagged slot_of news" and "(s, new) \<in> set news"
  shows "filter (\<lambda>r. slot_of r = s) t' = new"
proof -
  have "s \<in> fst ` set news" using assms(3) by force
  then have "filter (\<lambda>r. slot_of r = s) (filter (\<lambda>r. slot_of r \<notin> fst ` set news) t) = []"
    by (auto simp: filter_empty_conv)
  then show ?thesis
    unfolding rep_all_result [OF assms(1,2)] filter_append using tagged_concat_slot [OF assms(3,2)] by simp
qed

lemma rep_all_idem:
  assumes "rep_all key slot_of news t = Some t'" and "slot_tagged slot_of news" and "distinct (map key t)"
  shows "rep_all key slot_of news t' = Some t'"
proof -
  note t' = rep_all_result [OF assms(1,2)]
  have "\<forall>(s, new)\<in>set news. mset (filter (\<lambda>r. slot_of r = s) t') = mset new"
    using rep_all_slot [OF assms(1,2)] by (auto simp del: mset_filter)
  from rep_all_again [OF assms(2) rep_all_distinct [OF assms(1,3)] this]
  obtain t'' where r: "rep_all key slot_of news t' = Some t''" by blast
  have "\<forall>r\<in>set (concat (map snd news)). slot_of r \<in> fst ` set news"
    using assms(2) by (force simp: slot_tagged_def)
  then have "filter (\<lambda>r. slot_of r \<notin> fst ` set news) t' = filter (\<lambda>r. slot_of r \<notin> fst ` set news) t"
    unfolding t' by (auto simp: filter_empty_conv)
  then have "t'' = t'" using rep_all_result [OF r assms(2)] t' by simp
  then show ?thesis using r by simp
qed

text \<open>A batch is four independent table replacements.\<close>

definition new_transactions :: "(string list \<Rightarrow> string option) \<Rightarrow> slot_batch_row \<Rightarrow> transaction_row list" where
  "new_transactions to_json row =
     map (transaction_row_of (the \<circ> to_json) (sb_slot row) (sb_block_time row)) (sb_transactions row)"

definition new_locks :: "slot_batch_row \<Rightarrow> account_lock_row list" where
  "new_locks row = map (lock_row (sb_slot row)) (sb_locks row)"

definition new_balances :: "slot_batch_row \<Rightarrow> token_balance_row list" where
  "new_balances row =
     map (balance_row (sb_slot row) (sb_block_time row)) (coalesce_token_balance_rows (sb_token_changes row))"

definition new_block :: "slot_batch_row \<Rightarrow> block_row" where
  "new_block row = \<lparr>bl_slot = u64_as_i64 (sb_slot row), bl_block_time = sb_block_time row,
     bl_tx_count = usize_as_i32 (length (sb_transactions row))\<rparr>"

definition tagged :: "(slot_batch_row \<Rightarrow> 'r list) \<Rightarrow> slot_batch_row list \<Rightarrow> (int \<times> 'r list) list" where
  "tagged f batch = map (\<lambda>row. (u64_as_i64 (sb_slot row), f row)) batch"

lemma replace_slot_eq:
  "replace_slot to_json row d =
     (if json_ok to_json row \<and> list_all balance_fits (new_balances row)
      then Option.bind (sql_append tr_signature (new_transactions to_json row)
             (sql_delete (\<lambda>r. tr_slot r = u64_as_i64 (sb_slot row)) (transactions d))) (\<lambda>ts.
           Option.bind (sql_append lock_key (new_locks row)
             (sql_delete (\<lambda>r. al_slot r = u64_as_i64 (sb_slot row)) (account_locks d))) (\<lambda>ls.
           Option.bind (sql_append balance_key (new_balances row)
             (sql_delete (\<lambda>r. tb_slot r = u64_as_i64 (sb_slot row)) (token_balance_changes d))) (\<lambda>bs.
           Some (d\<lparr>blocks := put_block (new_block row) (blocks d), transactions := ts, account_locks := ls,
             token_balance_changes := bs\<rparr>))))
      else None)"
  by (simp add: replace_slot_def del_locks_def del_balances_def del_transactions_def ins_block_def
      app_transactions_def app_locks_def app_balances_def new_transactions_def new_locks_def new_balances_def
      new_block_def Let_def split: option.split Option.bind_split)

lemma replace_all_iff:
  "replace_all to_json batch d = Some d' \<longleftrightarrow>
     (\<forall>row\<in>set batch. json_ok to_json row \<and> list_all balance_fits (new_balances row)) \<and>
     (\<exists>ts ls bs. rep_all tr_signature tr_slot (tagged (new_transactions to_json) batch) (transactions d) = Some ts \<and>
        rep_all lock_key al_slot (tagged new_locks batch) (account_locks d) = Some ls \<and>
        rep_all balance_key tb_slot (tagged new_balances batch) (token_balance_changes d) = Some bs \<and>
        d' = d\<lparr>blocks := fold (put_block \<circ> new_block) batch (blocks d), transactions := ts, account_locks := ls,
               token_balance_changes := bs\<rparr>)"
proof (induction batch arbitrary: d)
  case Nil
  show ?case by (auto simp: tagged_def)
next
  case (Cons row batch)
  have one: "replace_all to_json (row # batch) d = Some d' \<longleftrightarrow>
      (\<exists>d1. replace_slot to_json row d = Some d1 \<and> replace_all to_json batch d1 = Some d')"
    by (simp add: bind_eq_Some_conv)
  show ?case unfolding one Cons.IH replace_slot_eq
    by (simp add: tagged_def bind_eq_Some_conv comp_def) auto
qed


lemma tagged_ok:
  assumes "distinct (map sb_slot batch)" and "\<forall>row\<in>set batch. sb_slot row < 2 ^ 64"
    and "\<And>row r. r \<in> set (f row) \<Longrightarrow> slot_of r = u64_as_i64 (sb_slot row)"
  shows "slot_tagged slot_of (tagged f batch)"
proof -
  have "inj_on (\<lambda>row. u64_as_i64 (sb_slot row)) (set batch)"
    using assms(1,2) u64_as_i64_inj by (auto simp: inj_on_def distinct_map)
  then have "distinct (map (\<lambda>row. u64_as_i64 (sb_slot row)) batch)"
    using assms(1) by (simp add: distinct_map)
  then show ?thesis using assms(3) by (auto simp: slot_tagged_def tagged_def comp_def)
qed

lemma new_rows_slot:
  "r \<in> set (new_transactions to_json row) \<Longrightarrow> tr_slot r = u64_as_i64 (sb_slot row)"
  "l \<in> set (new_locks row) \<Longrightarrow> al_slot l = u64_as_i64 (sb_slot row)"
  "b \<in> set (new_balances row) \<Longrightarrow> tb_slot b = u64_as_i64 (sb_slot row)"
  by (auto simp: new_transactions_def transaction_row_of_def new_locks_def lock_row_def new_balances_def balance_row_def
      split: prod.splits)

definition batch_ok :: "slot_batch_row list \<Rightarrow> bool" where
  "batch_ok batch \<longleftrightarrow> distinct (map sb_slot batch) \<and> (\<forall>row\<in>set batch. sb_slot row < 2 ^ 64)"

lemma batch_tagged:
  assumes "batch_ok batch"
  shows "slot_tagged tr_slot (tagged (new_transactions to_json) batch)"
    and "slot_tagged al_slot (tagged new_locks batch)" and "slot_tagged tb_slot (tagged new_balances batch)"
  using assms by (auto simp: batch_ok_def new_rows_slot intro: tagged_ok)

lemma tagged_proj: "fst ` set (tagged f batch) = (\<lambda>row. u64_as_i64 (sb_slot row)) ` set batch"
  "concat (map snd (tagged f batch)) = concat (map f batch)"
  by (auto simp: tagged_def comp_def image_iff)

definition outside :: "slot_batch_row list \<Rightarrow> int \<Rightarrow> bool" where
  "outside batch s \<longleftrightarrow> s \<notin> (\<lambda>row. u64_as_i64 (sb_slot row)) ` set batch"

lemma replace_all_tables:
  assumes "batch_ok batch" and "replace_all to_json batch d = Some d'"
  shows "transactions d' =
      filter (\<lambda>r. outside batch (tr_slot r)) (transactions d) @ concat (map (new_transactions to_json) batch) \<and>
    account_locks d' = filter (\<lambda>r. outside batch (al_slot r)) (account_locks d) @ concat (map new_locks batch) \<and>
    token_balance_changes d' =
      filter (\<lambda>r. outside batch (tb_slot r)) (token_balance_changes d) @ concat (map new_balances batch) \<and>
    candles d' = candles d \<and> ingestion_status d' = ingestion_status d"
proof -
  obtain ts ls bs where r: "rep_all tr_signature tr_slot (tagged (new_transactions to_json) batch) (transactions d) = Some ts"
    "rep_all lock_key al_slot (tagged new_locks batch) (account_locks d) = Some ls"
    "rep_all balance_key tb_slot (tagged new_balances batch) (token_balance_changes d) = Some bs"
    "d' = d\<lparr>blocks := fold (put_block \<circ> new_block) batch (blocks d), transactions := ts, account_locks := ls,
               token_balance_changes := bs\<rparr>"
    using assms(2) unfolding replace_all_iff by blast
  note T = batch_tagged [OF assms(1)]
  show ?thesis
    using rep_all_result [OF r(1) T(1)] rep_all_result [OF r(2) T(2)] rep_all_result [OF r(3) T(3)]
    unfolding r(4) outside_def tagged_proj by simp
qed

lemma batch_blocks:
  assumes "replace_all to_json batch d = Some d'"
  shows "blocks d' = fold put_block (map new_block batch) (blocks d)"
  using assms unfolding replace_all_iff by (auto simp: fold_map)

lemma new_block_slots:
  assumes "batch_ok batch"
  shows "distinct (map bl_slot (map new_block batch))"
proof -
  have "slot_tagged tr_slot (tagged (\<lambda>_. []) batch)"
    using assms by (intro tagged_ok) (auto simp: batch_ok_def)
  then show ?thesis by (simp add: slot_tagged_def tagged_def new_block_def comp_def)
qed

text \<open>The \<open>blocks\<close> table is upserted: rows present stay where they are, new ones follow.\<close>

abbreviation block_at :: "int \<Rightarrow> db \<Rightarrow> block_row option" where
  "block_at s d \<equiv> map_of (map (\<lambda>x. (bl_slot x, x)) (blocks d)) s"

lemma replace_all_blocks:
  assumes "batch_ok batch" and "replace_all to_json batch d = Some d'"
  shows "row \<in> set batch \<Longrightarrow> block_at (u64_as_i64 (sb_slot row)) d' = Some (new_block row)"
    and "outside batch s \<Longrightarrow> block_at s d' = block_at s d"
    and "prefix (map bl_slot (blocks d)) (map bl_slot (blocks d'))"
proof -
  let ?pairs = "map (\<lambda>x. (bl_slot x, x)) (map new_block batch)"
  note B = block_tbl.put_all_lookup [OF new_block_slots [OF assms(1)], of "blocks d", folded batch_blocks [OF assms(2)]]
  show "block_at (u64_as_i64 (sb_slot row)) d' = Some (new_block row)" if row: "row \<in> set batch"
  proof -
    have "(bl_slot (new_block row), new_block row) \<in> set ?pairs" using row by simp
    moreover have "distinct (map fst ?pairs)" using new_block_slots [OF assms(1)] by (simp add: comp_def)
    ultimately have "map_of ?pairs (bl_slot (new_block row)) = Some (new_block row)" by (intro map_of_is_SomeI)
    moreover have "bl_slot (new_block row) = u64_as_i64 (sb_slot row)" by (simp add: new_block_def)
    ultimately show ?thesis using B by simp
  qed
  show "block_at s d' = block_at s d" if out: "outside batch s"
  proof -
    have "map_of ?pairs s = None" using out by (auto simp: map_of_eq_None_iff outside_def new_block_def)
    then show ?thesis by (simp add: B del: map_map)
  qed
  show "prefix (map bl_slot (blocks d)) (map bl_slot (blocks d'))"
    unfolding batch_blocks [OF assms(2)] by (rule block_tbl.put_all_prefix)
qed

text \<open>
  C22. A committed batch leaves the transaction, lock and balance tables with the old rows of all
  other slots, unchanged and in order, followed by exactly the batch's rows: the transactions and
  locks as given, the balance changes netted to one row per (signature, mint).  The \<open>blocks\<close> table is
  upserted in place: each slot of the batch has one block with the batch's time and number of
  transactions, every other slot the block it had, and no row moves.  Candles and ingestion status
  are not touched.
\<close>

theorem replace_all_contents:
  assumes "batch_ok batch" and "replace_all to_json batch d = Some d'"
  shows "transactions d' =
      filter (\<lambda>r. outside batch (tr_slot r)) (transactions d) @ concat (map (new_transactions to_json) batch) \<and>
    account_locks d' = filter (\<lambda>r. outside batch (al_slot r)) (account_locks d) @ concat (map new_locks batch) \<and>
    token_balance_changes d' =
      filter (\<lambda>r. outside batch (tb_slot r)) (token_balance_changes d) @ concat (map new_balances batch) \<and>
    candles d' = candles d \<and> ingestion_status d' = ingestion_status d \<and>
    (\<forall>row\<in>set batch. block_at (u64_as_i64 (sb_slot row)) d' =
       Some \<lparr>bl_slot = u64_as_i64 (sb_slot row), bl_block_time = sb_block_time row,
         bl_tx_count = usize_as_i32 (length (sb_transactions row))\<rparr>) \<and>
    (\<forall>s. outside batch s \<longrightarrow> block_at s d' = block_at s d) \<and>
    prefix (map bl_slot (blocks d)) (map bl_slot (blocks d'))"
  using replace_all_tables [OF assms] replace_all_blocks [OF assms] by (simp add: new_block_def)

lemma blocks_again:
  assumes "batch_ok batch" and "distinct (map bl_slot t)"
  shows "fold (put_block \<circ> new_block) batch (fold (put_block \<circ> new_block) batch t) = fold (put_block \<circ> new_block) batch t"
proof -
  have "slot_tagged tr_slot (tagged (\<lambda>_. []) batch)"
    using assms(1) by (intro tagged_ok) (auto simp: batch_ok_def)
  then have "distinct (map bl_slot (map new_block batch))"
    by (simp add: slot_tagged_def tagged_def new_block_def comp_def)
  from block_tbl.put_all_again [OF assms(2) this] show ?thesis by (simp add: fold_map)
qed

lemma replace_all_slot_rows:
  assumes "batch_ok batch" and "replace_all to_json batch d = Some d'" and "row \<in> set batch"
  shows "filter (\<lambda>r. tr_slot r = u64_as_i64 (sb_slot row)) (transactions d') = new_transactions to_json row"
    and "filter (\<lambda>r. al_slot r = u64_as_i64 (sb_slot row)) (account_locks d') = new_locks row"
    and "filter (\<lambda>r. tb_slot r = u64_as_i64 (sb_slot row)) (token_balance_changes d') = new_balances row"
proof -
  obtain ts ls bs where r: "rep_all tr_signature tr_slot (tagged (new_transactions to_json) batch) (transactions d) = Some ts"
    "rep_all lock_key al_slot (tagged new_locks batch) (account_locks d) = Some ls"
    "rep_all balance_key tb_slot (tagged new_balances batch) (token_balance_changes d) = Some bs"
    "d' = d\<lparr>blocks := fold (put_block \<circ> new_block) batch (blocks d), transactions := ts, account_locks := ls,
               token_balance_changes := bs\<rparr>"
    using assms(2) unfolding replace_all_iff by blast
  note T = batch_tagged [OF assms(1)]
  have m: "(u64_as_i64 (sb_slot row), f row) \<in> set (tagged f batch)" for f :: "slot_batch_row \<Rightarrow> 'r list"
    using assms(3) by (auto simp: tagged_def)
  show "filter (\<lambda>r. tr_slot r = u64_as_i64 (sb_slot row)) (transactions d') = new_transactions to_json row"
    and "filter (\<lambda>r. al_slot r = u64_as_i64 (sb_slot row)) (account_locks d') = new_locks row"
    and "filter (\<lambda>r. tb_slot r = u64_as_i64 (sb_slot row)) (token_balance_changes d') = new_balances row"
    using rep_all_slot [OF r(1) T(1) m] rep_all_slot [OF r(2) T(2) m] rep_all_slot [OF r(3) T(3) m]
    unfolding r(4) by simp_all
qed

lemma replace_all_again:
  assumes "batch_ok batch" and "db_keys_ok d" and "replace_all to_json batch d = Some d'"
  shows "replace_all to_json batch d' = Some d'"
proof -
  obtain ts ls bs where ok: "\<forall>row\<in>set batch. json_ok to_json row \<and> list_all balance_fits (new_balances row)"
    and r: "rep_all tr_signature tr_slot (tagged (new_transactions to_json) batch) (transactions d) = Some ts"
    "rep_all lock_key al_slot (tagged new_locks batch) (account_locks d) = Some ls"
    "rep_all balance_key tb_slot (tagged new_balances batch) (token_balance_changes d) = Some bs"
    "d' = d\<lparr>blocks := fold (put_block \<circ> new_block) batch (blocks d), transactions := ts, account_locks := ls,
               token_balance_changes := bs\<rparr>"
    using assms(3) unfolding replace_all_iff by blast
  note T = batch_tagged [OF assms(1)]
  have k: "distinct (map tr_signature (transactions d))" "distinct (map lock_key (account_locks d))"
    "distinct (map balance_key (token_balance_changes d))" using assms(2) by (simp_all add: db_keys_ok_def)
  show ?thesis
    unfolding replace_all_iff
    using ok rep_all_idem [OF r(1) T(1) k(1)] rep_all_idem [OF r(2) T(2) k(2)] rep_all_idem [OF r(3) T(3) k(3)]
      blocks_again [OF assms(1), of "blocks d"] r(4) assms(2) by (simp add: db_keys_ok_def)
qed

text \<open>
  Re-ingestion converges: writing a committed batch again, over the database it produced,
  succeeds and changes nothing.
\<close>

lemma replace_all_idempotent:
  assumes "batch_ok batch" and "db_keys_ok d" and "replace_all to_json batch d = Some d'"
  shows "replace_all to_json batch d' = Some d'"
  using assms by (rule replace_all_again)

subsection \<open>Primary keys\<close>

text \<open>
  The engine's constraints keep each primary key (\<open>sql_append\<close> refuses a second row of a key, the upserts
  never add one); the proofs below use the fact for a batch.
\<close>

lemma replace_all_keys:
  assumes "replace_all to_json batch d = Some d'" and "db_keys_ok d"
  shows "db_keys_ok d'"
proof -
  obtain ts ls bs where r: "rep_all tr_signature tr_slot (tagged (new_transactions to_json) batch) (transactions d) = Some ts"
    "rep_all lock_key al_slot (tagged new_locks batch) (account_locks d) = Some ls"
    "rep_all balance_key tb_slot (tagged new_balances batch) (token_balance_changes d) = Some bs"
    "d' = d\<lparr>blocks := fold (put_block \<circ> new_block) batch (blocks d), transactions := ts, account_locks := ls,
               token_balance_changes := bs\<rparr>"
    using assms(1) unfolding replace_all_iff by blast
  have "distinct (map bl_slot (fold put_block (map new_block batch) (blocks d)))"
    using assms(2) by (intro block_tbl.put_all_distinct) (simp add: db_keys_ok_def)
  then show ?thesis
    using assms(2) rep_all_distinct [OF r(1)] rep_all_distinct [OF r(2)] rep_all_distinct [OF r(3)]
    unfolding r(4) by (simp add: db_keys_ok_def fold_map)
qed

subsection \<open>An example batch\<close>

definition example_row :: slot_batch_row where
  "example_row = \<lparr>sb_slot = 1, sb_block_time = Some 1, sb_transactions = [(''sig'', False, [''prog''], None)],
     sb_locks = [(''sig'', ''acc'', True)],
     sb_token_changes = [(''sig'', ''mint'', 10, 20, 6), (''sig'', ''mint'', 5, 0, 6)]\<rparr>"

definition example_json :: "string list \<Rightarrow> string option" where
  "example_json ids = Some (concat ids)"

lemma example_coalesced: "coalesce_token_balance_rows (sb_token_changes example_row) = [(''sig'', ''mint'', 0, 5, 6)]"
  by (simp add: example_row_def coalesce_token_balance_rows_def coalesce_row_step_def net_tuple_def i128_as_u64_def Let_def
      map_filter_simps)

lemma example_replace: "replace_all example_json [example_row] empty_db \<noteq> None"
  by (simp add: replace_slot_eq new_balances_def example_coalesced)
    (simp add: json_ok_def example_json_def example_row_def empty_db_def sql_append_def sql_delete_def
      new_transactions_def new_locks_def balance_row_def balance_fits_def u64_as_i64_def)

lemma example_batch_ok: "batch_ok [example_row]"
  by (simp add: batch_ok_def example_row_def)

definition fresh_conn :: conn where
  "fresh_conn = \<lparr>cn_committed = empty_db, cn_working = empty_db, cn_txn = Idle, cn_faults = []\<rparr>"

declare fresh_conn_def [example_defs]

theorem replace_slots_batch_atomic_witness:
  "\<exists>c'. replace_slots_batch example_json [example_row] fresh_conn = (Inr (), c') \<and>
     replace_all example_json [example_row] empty_db = Some (cn_committed c')"
proof -
  obtain r c' where r: "replace_slots_batch example_json [example_row] fresh_conn = (r, c')" by fastforce
  have "cn_txn fresh_conn = Idle" by (simp add: fresh_conn_def)
  from replace_slots_batch_atomic [OF this r] show ?thesis
    using r example_replace by (auto simp: fresh_conn_def)
qed

theorem replace_all_contents_witness:
  "\<exists>d'. replace_all example_json [example_row] empty_db = Some d' \<and>
     map tb_post_amount (token_balance_changes d') = [5] \<and>
     block_at 1 d' = Some \<lparr>bl_slot = 1, bl_block_time = Some 1, bl_tx_count = 1\<rparr>"
proof -
  obtain d' where d': "replace_all example_json [example_row] empty_db = Some d'" using example_replace by blast
  from replace_all_contents [OF example_batch_ok d'] have
    "token_balance_changes d' = new_balances example_row"
    "block_at (u64_as_i64 1) d' = Some \<lparr>bl_slot = u64_as_i64 1, bl_block_time = Some 1, bl_tx_count = usize_as_i32 1\<rparr>"
    by (simp_all add: empty_db_def example_row_def)
  then show ?thesis using d'
    by (simp add: new_balances_def example_coalesced balance_row_def u64_as_i64_def usize_as_i32_def)
qed

lemma replace_all_idempotent_witness:
  "\<exists>d'. replace_all example_json [example_row] empty_db = Some d' \<and> replace_all example_json [example_row] d' = Some d'"
proof -
  obtain d' where d': "replace_all example_json [example_row] empty_db = Some d'" using example_replace by blast
  have "db_keys_ok empty_db" by (simp add: empty_db_def db_keys_ok_def)
  from replace_all_idempotent [OF example_batch_ok this d'] show ?thesis using d' by blast
qed

text \<open>
  An amount of \<open>2 ^ 63\<close> or more, which a \<open>u64\<close> holds, is negative after the cast to \<open>i64\<close>, and the
  unsigned column refuses it: such a row makes every batch that contains it fail.
\<close>

lemma large_amount_refused:
  assumes "2 ^ 63 \<le> post" and "post < 2 ^ 64" and "sb_token_changes row = [(sig, mint, 0, post, decimals)]"
  shows "replace_slot to_json row d = None"
proof -
  have "coalesce_token_balance_rows [(sig, mint, 0, post, decimals)] = [(sig, mint, 0, post, decimals)]"
    using assms(1,2) by (intro by_tx_mint.coalesce_canonical)
      (auto simp: tuple_delta_def tuple_key_def tuple_decimals_def net_tuple_def i128_as_u64_def)
  moreover have "u64_as_i64 post < 0"
    using assms(1,2) by (simp add: u64_as_i64_def)
  ultimately show ?thesis
    unfolding replace_slot_eq new_balances_def assms(3) by (simp add: balance_row_def balance_fits_def)
qed

end
