(* ===== verification/Storage_Queries.thy ===== *)
theory Storage_Queries
  imports Storage
begin

section \<open>The read side of the repository\<close>

text \<open>
  The queries of \<open>repository.rs\<close> as functions of the committed database, and what they return
  after the writes of theory \<open>Storage\<close>.  Where an \<open>ORDER BY\<close> leaves ties, and where there is no
  order, the result here keeps the order of the table; no property depends on it.
\<close>

subsection \<open>Queries\<close>

definition between :: "nat \<Rightarrow> nat \<Rightarrow> int \<Rightarrow> bool" where
  "between from_slot to_slot s \<longleftrightarrow> u64_as_i64 from_slot \<le> s \<and> s \<le> u64_as_i64 to_slot"

record contention_summary =
  cs_depth :: nat
  cs_top_conflicting_accounts :: "(string \<times> int) list"

definition max_step :: "nat \<Rightarrow> nat \<Rightarrow> db \<Rightarrow> int" where
  "max_step from_slot to_slot d =
     (let steps = List.map_filter tr_step (filter (\<lambda>r. between from_slot to_slot (tr_slot r)) (transactions d))
      in if steps = [] then -1 else Max (set steps))"

definition writable_lock_counts :: "nat \<Rightarrow> nat \<Rightarrow> db \<Rightarrow> (string \<times> int) list" where
  "writable_lock_counts from_slot to_slot d =
     (let ls = filter (\<lambda>r. between from_slot to_slot (al_slot r) \<and> al_is_writable r) (account_locks d)
      in map (\<lambda>a. (a, int (length (filter (\<lambda>r. al_account r = a) ls)))) (remdups (map al_account ls)))"

definition query_contention_summary :: "nat \<Rightarrow> nat \<Rightarrow> db \<Rightarrow> contention_summary" where
  "query_contention_summary from_slot to_slot d =
     \<lparr>cs_depth = nat (max 0 (max_step from_slot to_slot d + 1)),
      cs_top_conflicting_accounts = take 20 (sort_key (\<lambda>(a, n). - n) (writable_lock_counts from_slot to_slot d))\<rparr>"

record token_option =
  to_mint :: string
  to_candles_1m :: int
  to_candles_5m :: int

definition candle_count :: "db \<Rightarrow> string \<Rightarrow> int \<Rightarrow> int" where
  "candle_count d mint iv =
     int (length (filter (\<lambda>r. cr_mint r = mint \<and> cr_interval_sec r = iv) (candles d)))"

definition query_tokens :: "db \<Rightarrow> token_option list" where
  "query_tokens d =
     (let rows = map (\<lambda>m. \<lparr>to_mint = m, to_candles_1m = candle_count d m 60, to_candles_5m = candle_count d m 300\<rparr>)
                   (remdups (map cr_mint (candles d)))
      in sort_key (\<lambda>t. - (to_candles_1m t + to_candles_5m t))
           (filter (\<lambda>t. 0 < to_candles_1m t \<or> 0 < to_candles_5m t) rows))"

type_synonym balance_change_row = "string \<times> nat \<times> int option \<times> string \<times> nat \<times> nat \<times> u8"

definition balance_change_of :: "token_balance_row \<Rightarrow> balance_change_row" where
  "balance_change_of r =
     (tb_tx_signature r, i64_as_u64 (tb_slot r), tb_block_time r, tb_mint r,
      i64_as_u64 (tb_pre_amount r), i64_as_u64 (tb_post_amount r), of_int (tb_decimals r))"

definition query_balance_changes_for_range :: "nat \<Rightarrow> nat \<Rightarrow> db \<Rightarrow> balance_change_row list" where
  "query_balance_changes_for_range from_slot to_slot d =
     map balance_change_of
       (sort_key tb_slot (sort_key tb_tx_signature
          (filter (\<lambda>r. between from_slot to_slot (tb_slot r)) (token_balance_changes d))))"

definition query_ohlcv :: "string \<Rightarrow> int \<Rightarrow> db \<Rightarrow> candle list" where
  "query_ohlcv mint iv d =
     sort_key cd_bucket_start
       (map cr_candle (filter (\<lambda>r. cr_mint r = mint \<and> cr_interval_sec r = iv) (candles d)))"

record db_stats =
  ds_blocks :: int
  ds_transactions :: int
  ds_failed_transactions :: int
  ds_token_change_rows :: int
  ds_distinct_mints :: int
  ds_distinct_tx_with_balances :: int
  ds_tx_with_wsol :: int
  ds_candles_1m :: int
  ds_candles_5m :: int

definition query_db_stats :: "db \<Rightarrow> db_stats" where
  "query_db_stats d =
     \<lparr>ds_blocks = int (length (blocks d)),
      ds_transactions = int (length (transactions d)),
      ds_failed_transactions = int (length (filter tr_failed (transactions d))),
      ds_token_change_rows = int (length (token_balance_changes d)),
      ds_distinct_mints = int (length (remdups (map tb_mint (token_balance_changes d)))),
      ds_distinct_tx_with_balances = int (length (remdups (map tb_tx_signature (token_balance_changes d)))),
      ds_tx_with_wsol = int (length (remdups (map tb_tx_signature
        (filter (\<lambda>r. tb_mint r = WSOL_MINT) (token_balance_changes d))))),
      ds_candles_1m = int (length (filter (\<lambda>r. cr_interval_sec r = 60) (candles d))),
      ds_candles_5m = int (length (filter (\<lambda>r. cr_interval_sec r = 300) (candles d)))\<rparr>"

text \<open>
  A query reads the committed database, unless the engine refuses it.  A function of the repository that reads with several
  \<open>SELECT\<close>s fails when one of them is refused and has no effect, so one entry of the oracle stands for them all.
\<close>

definition query :: "(db \<Rightarrow> 'a) \<Rightarrow> 'a repo" where
  "query q c = (let (fault, c1) = take_fault c in if fault then (Inl DuckDb, c1) else (Inr (q (cn_committed c1)), c1))"

subsection \<open>Candles\<close>

definition candle_rows :: "string \<Rightarrow> int \<Rightarrow> candle list \<Rightarrow> candle_row list" where
  "candle_rows mint iv cs = map (\<lambda>c. \<lparr>cr_mint = mint, cr_interval_sec = iv, cr_candle = c\<rparr>) cs"

lemma execute_idle:
  assumes "cn_txn c = Idle" and "execute stmt c = (r, c')"
  shows "cn_txn c' = Idle" and "set (cn_faults c') \<subseteq> set (cn_faults c)"
    and "r = Inr () \<Longrightarrow> stmt (cn_committed c) = Some (cn_committed c')"
    and "r \<noteq> Inr () \<Longrightarrow> cn_committed c' = cn_committed c"
    and "True \<notin> set (cn_faults c) \<Longrightarrow> stmt (cn_committed c) \<noteq> None \<Longrightarrow> r = Inr ()"
proof -
  obtain b c1 where t: "take_fault c = (b, c1)" by fastforce
  note F = take_fault_facts [OF t]
  show "cn_txn c' = Idle" and "set (cn_faults c') \<subseteq> set (cn_faults c)"
    and "r = Inr () \<Longrightarrow> stmt (cn_committed c) = Some (cn_committed c')"
    and "r \<noteq> Inr () \<Longrightarrow> cn_committed c' = cn_committed c"
    and "True \<notin> set (cn_faults c) \<Longrightarrow> stmt (cn_committed c) \<noteq> None \<Longrightarrow> r = Inr ()"
    using assms F by (auto simp: execute_def t Let_def split: if_splits option.splits)
qed

lemma upsert_candles_run:
  "cn_txn c = Idle \<Longrightarrow> upsert_candles mint iv cs c = (r, c') \<Longrightarrow>
     cn_txn c' = Idle \<and> set (cn_faults c') \<subseteq> set (cn_faults c) \<and>
     (\<exists>n \<le> length cs. cn_committed c' = (cn_committed c)
        \<lparr>candles := fold put_candle (candle_rows mint iv (take n cs)) (candles (cn_committed c))\<rparr> \<and>
        (r = Inr () \<longrightarrow> n = length cs)) \<and>
     (True \<notin> set (cn_faults c) \<longrightarrow> r = Inr ())"
proof (induction cs arbitrary: c)
  case Nil
  then show ?case by (simp add: candle_rows_def)
next
  case (Cons k cs)
  let ?row = "\<lparr>cr_mint = mint, cr_interval_sec = iv, cr_candle = k\<rparr>"
  obtain r1 c1 where e: "execute (\<lambda>d. Some (d\<lparr>candles := put_candle ?row (candles d)\<rparr>)) c = (r1, c1)" by fastforce
  note E = execute_idle [OF Cons.prems(1) e]
  show ?case
  proof (cases r1)
    case (Inl err)
    then have "r = Inl err" "c' = c1" using Cons.prems(2) e by (simp_all add: and_then_def)
    moreover have "cn_committed c1 = cn_committed c" using E(4) Inl by simp
    ultimately show ?thesis using E(1,2,5) Inl by (auto intro!: exI [of _ 0] simp: candle_rows_def)
  next
    case (Inr u)
    then have k: "upsert_candles mint iv cs c1 = (r, c')" using Cons.prems(2) e by (simp add: and_then_def)
    from Cons.IH [OF E(1) k] obtain n where n: "n \<le> length cs" "cn_txn c' = Idle" "r = Inr () \<longrightarrow> n = length cs"
      "cn_committed c' = (cn_committed c1)
        \<lparr>candles := fold put_candle (candle_rows mint iv (take n cs)) (candles (cn_committed c1))\<rparr>"
      "True \<notin> set (cn_faults c1) \<longrightarrow> r = Inr ()" "set (cn_faults c') \<subseteq> set (cn_faults c1)" by blast
    have "cn_committed c1 = (cn_committed c)\<lparr>candles := put_candle ?row (candles (cn_committed c))\<rparr>"
      using E(3) Inr by simp
    then show ?thesis using n E(2) by (auto intro!: exI [of _ "Suc n"] simp: candle_rows_def)
  qed
qed

lemma query_ohlcv_mem:
  "k \<in> set (query_ohlcv mint iv d) \<longleftrightarrow> \<lparr>cr_mint = mint, cr_interval_sec = iv, cr_candle = k\<rparr> \<in> set (candles d)"
proof
  assume "k \<in> set (query_ohlcv mint iv d)"
  then obtain r where r: "r \<in> set (candles d)" "mint = cr_mint r" "iv = cr_interval_sec r" "k = cr_candle r"
    by (auto simp: query_ohlcv_def)
  have "\<lparr>cr_mint = mint, cr_interval_sec = iv, cr_candle = k\<rparr> = r"
    by (rule candle_row.equality) (simp_all add: r)
  with r(1) show "\<lparr>cr_mint = mint, cr_interval_sec = iv, cr_candle = k\<rparr> \<in> set (candles d)" by simp
next
  assume "\<lparr>cr_mint = mint, cr_interval_sec = iv, cr_candle = k\<rparr> \<in> set (candles d)"
  then show "k \<in> set (query_ohlcv mint iv d)" by (force simp: query_ohlcv_def)
qed

lemma query_ohlcv_strict:
  assumes "distinct (map candle_key (candles d))"
  shows "sorted_wrt (<) (map cd_bucket_start (query_ohlcv mint iv d))"
proof -
  let ?rows = "filter (\<lambda>r. cr_mint r = mint \<and> cr_interval_sec r = iv) (candles d)"
  have "distinct (map candle_key ?rows)" using assms by (simp add: distinct_map inj_on_def)
  then have "inj_on candle_key (set ?rows)" "distinct ?rows" by (simp_all add: distinct_map)
  then have "distinct (map (\<lambda>r. cd_bucket_start (cr_candle r)) ?rows)"
    by (auto simp: distinct_map inj_on_def candle_key_def)
  then have "distinct (map cd_bucket_start (map cr_candle ?rows))" by (simp add: comp_def)
  moreover have "mset (map cd_bucket_start (query_ohlcv mint iv d)) = mset (map cd_bucket_start (map cr_candle ?rows))"
    by (simp add: query_ohlcv_def multiset.map_comp comp_def)
  ultimately have "distinct (map cd_bucket_start (query_ohlcv mint iv d))"
    using mset_eq_imp_distinct_iff by blast
  moreover have "sorted (map cd_bucket_start (query_ohlcv mint iv d))" by (simp add: query_ohlcv_def)
  ultimately show ?thesis by (simp add: strict_sorted_iff)
qed

text \<open>
  Writing a candle series and reading it back: after a successful \<open>upsert_candles\<close> the series
  the API returns for that mint and interval holds exactly the written candles and the old ones of
  other buckets, strictly ascending in time; every other series is unchanged.
\<close>

lemma candle_series_roundtrip:
  assumes "cn_txn c = Idle" and "upsert_candles mint iv cs c = (Inr (), c')"
    and "distinct (map cd_bucket_start cs)" and "db_keys_ok (cn_committed c)"
  shows "set (query_ohlcv mint iv (cn_committed c')) =
      set cs \<union> {k \<in> set (query_ohlcv mint iv (cn_committed c)). cd_bucket_start k \<notin> cd_bucket_start ` set cs} \<and>
    sorted_wrt (<) (map cd_bucket_start (query_ohlcv mint iv (cn_committed c'))) \<and>
    (\<forall>m i. (m, i) \<noteq> (mint, iv) \<longrightarrow>
       set (query_ohlcv m i (cn_committed c')) = set (query_ohlcv m i (cn_committed c)))"
proof -
  let ?d = "cn_committed c" and ?d' = "cn_committed c'" and ?rows = "candle_rows mint iv cs"
  have d': "?d' = ?d\<lparr>candles := fold put_candle ?rows (candles ?d)\<rparr>"
    using upsert_candles_run [OF assms(1,2)] by auto
  have "distinct (map candle_key ?rows)"
    using assms(3) by (simp add: candle_rows_def candle_key_def comp_def distinct_map inj_on_def)
  from candle_tbl.put_all_set [OF this]
  have set: "set (candles ?d') = set ?rows \<union> {x \<in> set (candles ?d). candle_key x \<notin> candle_key ` set ?rows}"
    by (simp add: d')
  have keys: "candle_key ` set ?rows = (\<lambda>k. (mint, iv, cd_bucket_start k)) ` set cs"
    by (simp add: candle_rows_def candle_key_def image_image)
  have rows: "set ?rows = (\<lambda>k. \<lparr>cr_mint = mint, cr_interval_sec = iv, cr_candle = k\<rparr>) ` set cs"
    by (simp add: candle_rows_def)
  have mem: "r \<in> set (candles ?d') \<longleftrightarrow> (\<exists>k\<in>set cs. r = \<lparr>cr_mint = mint, cr_interval_sec = iv, cr_candle = k\<rparr>) \<or>
      (r \<in> set (candles ?d) \<and>
       \<not> (cr_mint r = mint \<and> cr_interval_sec r = iv \<and> cd_bucket_start (cr_candle r) \<in> cd_bucket_start ` set cs))" for r
    unfolding set keys by (auto simp: rows candle_key_def)
  have "set (query_ohlcv mint iv ?d') =
      set cs \<union> {k \<in> set (query_ohlcv mint iv ?d). cd_bucket_start k \<notin> cd_bucket_start ` set cs}"
    by (auto simp: query_ohlcv_mem mem)
  moreover have "distinct (map candle_key (candles ?d'))"
    unfolding d' using assms(4) by (simp add: candle_tbl.put_all_distinct db_keys_ok_def)
  moreover have "set (query_ohlcv m i ?d') = set (query_ohlcv m i ?d)" if "(m, i) \<noteq> (mint, iv)" for m i
    using that by (auto simp: query_ohlcv_mem mem)
  ultimately show ?thesis using query_ohlcv_strict by blast
qed


definition two_candles :: "candle list" where
  "two_candles = map (\<lambda>b. \<lparr>cd_bucket_start = b, cd_open = FNum 2, cd_high = FNum 2, cd_low = FNum 2,
     cd_close = FNum 2, cd_volume = FNum 1\<rparr>) [60, 0]"

lemma candle_series_example:
  "\<exists>c'. upsert_candles ''A'' 60 two_candles fresh_conn = (Inr (), c') \<and>
     set (query_ohlcv ''A'' 60 (cn_committed c')) = set two_candles \<and>
     map cd_bucket_start (query_ohlcv ''A'' 60 (cn_committed c')) = [0, 60]"
proof -
  obtain r c' where u: "upsert_candles ''A'' 60 two_candles fresh_conn = (r, c')" by fastforce
  have i: "cn_txn fresh_conn = Idle" by (simp add: fresh_conn_def)
  have r: "r = Inr ()" using upsert_candles_run [OF i u] by (simp add: fresh_conn_def)
  have k: "db_keys_ok (cn_committed fresh_conn)" by (simp add: fresh_conn_def db_keys_ok_def empty_db_def)
  have d: "distinct (map cd_bucket_start two_candles)" by (simp add: two_candles_def)
  note R = candle_series_roundtrip [OF i u [unfolded r] d k]
  have e: "query_ohlcv ''A'' 60 (cn_committed fresh_conn) = []" by (simp add: query_ohlcv_def fresh_conn_def empty_db_def)
  let ?q = "query_ohlcv ''A'' 60 (cn_committed c')"
  have s: "set ?q = set two_candles" using R unfolding e by auto
  have "sorted_wrt (<) (map cd_bucket_start ?q)" using R by blast
  moreover have "set (map cd_bucket_start ?q) = set [0, 60]" using s by (auto simp: two_candles_def)
  moreover have "sorted_wrt (<) [0, 60 :: int]" by simp
  ultimately have "map cd_bucket_start ?q = [0, 60]" by (metis strict_sorted_equal)
  then show ?thesis using u r s by auto
qed

subsection \<open>Balance changes\<close>

lemma insort_key_map: "insort_key f (g x) (map g xs) = map g (insort_key (f \<circ> g) x xs)"
  by (induction xs) simp_all

lemma sort_key_map: "sort_key f (map g xs) = map g (sort_key (f \<circ> g) xs)"
  by (induction xs) (simp_all add: insort_key_map comp_def)

lemma sort_key_const: "\<forall>x\<in>set xs. f x = c \<Longrightarrow> sort_key f xs = xs"
proof -
  assume a: "\<forall>x\<in>set xs. f x = c"
  then have "map f xs = map (\<lambda>_. c) xs" by simp
  then have "sorted (map f xs)" by (simp add: map_replicate_const)
  then show ?thesis by (rule sort_key_id_if_sorted)
qed

lemma between_same: "between s s x \<longleftrightarrow> x = u64_as_i64 s"
  by (auto simp: between_def)

lemma i128_as_u64_less: "i128_as_u64 n < 2 ^ 64"
  by (simp add: i128_as_u64_def)

lemma coalesced_amounts:
  "(sig, mint, pre, post, dec) \<in> set (coalesce_token_balance_rows rows) \<Longrightarrow> pre < 2 ^ 64 \<and> post < 2 ^ 64"
  by (auto simp: by_tx_mint.coalesce_result by_tx_mint.net_row_def net_tuple_def
      i128_as_u64_less [simplified] split: if_splits)

text \<open>
  Balance changes survive the casts to the table's columns and back: reading a slot of a
  committed batch returns its netted rows, with the amounts, decimals, slot and time that were
  written, in the order of their signatures.
\<close>

lemma balance_changes_roundtrip:
  assumes "batch_ok batch" and "replace_all to_json batch d = Some d'" and "row \<in> set batch"
  shows "query_balance_changes_for_range (sb_slot row) (sb_slot row) d' =
    map (\<lambda>(sig, mint, pre, post, dec). (sig, sb_slot row, sb_block_time row, mint, pre, post, dec))
      (sort_key fst (coalesce_token_balance_rows (sb_token_changes row)))"
proof -
  let ?s = "sb_slot row" and ?rows = "coalesce_token_balance_rows (sb_token_changes row)"
  have s: "?s < 2 ^ 64" using assms(1,3) by (simp add: batch_ok_def)
  have "filter (\<lambda>r. between ?s ?s (tb_slot r)) (token_balance_changes d') = map (balance_row ?s (sb_block_time row)) ?rows"
    using replace_all_slot_rows(3) [OF assms] by (simp add: between_same new_balances_def)
  moreover have "tb_tx_signature \<circ> balance_row ?s (sb_block_time row) = fst"
    by (auto simp: balance_row_def fun_eq_iff)
  ultimately have q: "query_balance_changes_for_range ?s ?s d' =
      map (balance_change_of \<circ> balance_row ?s (sb_block_time row)) (sort_key fst ?rows)"
    unfolding query_balance_changes_for_range_def sort_key_map
    by (subst sort_key_const [where c = "u64_as_i64 ?s"]) (auto simp: sort_key_map balance_row_def split: prod.splits)
  show ?thesis unfolding q
  proof (rule map_cong [OF refl])
    fix t assume m: "t \<in> set (sort_key fst ?rows)"
    obtain sig mint pre post dec where t: "t = (sig, mint, pre, post, dec)" by (cases t) auto
    have "pre < 2 ^ 64" "post < 2 ^ 64" using coalesced_amounts m by (simp_all add: t)
    then show "(balance_change_of \<circ> balance_row ?s (sb_block_time row)) t =
        (case t of (sig, mint, pre, post, dec) \<Rightarrow> (sig, ?s, sb_block_time row, mint, pre, post, dec))"
      using s by (simp add: t balance_change_of_def balance_row_def i64_as_u64_inverse)
  qed
qed

lemma balance_changes_roundtrip_witness:
  "\<exists>d'. replace_all example_json [example_row] empty_db = Some d' \<and>
     query_balance_changes_for_range 1 1 d' = [(''sig'', 1, Some 1, ''mint'', 0, 5, 6)]"
proof -
  obtain d' where d': "replace_all example_json [example_row] empty_db = Some d'" using example_replace by blast
  from balance_changes_roundtrip [OF example_batch_ok d'] show ?thesis
    using d' by (simp add: example_coalesced) (simp add: example_row_def)
qed


subsection \<open>The contention summary\<close>

definition writable_locks :: "nat \<Rightarrow> nat \<Rightarrow> db \<Rightarrow> string \<Rightarrow> nat" where
  "writable_locks from_slot to_slot d a =
     length (filter (\<lambda>r. between from_slot to_slot (al_slot r) \<and> al_is_writable r \<and> al_account r = a) (account_locks d))"

lemma writable_lock_counts_eq:
  "set (writable_lock_counts f t d) = {(a, int (writable_locks f t d a)) | a. 0 < writable_locks f t d a}"
  "distinct (map fst (writable_lock_counts f t d))"
proof -
  let ?ls = "filter (\<lambda>r. between f t (al_slot r) \<and> al_is_writable r) (account_locks d)"
  have n: "length (filter (\<lambda>r. al_account r = a) ?ls) = writable_locks f t d a" for a
    by (simp add: writable_locks_def conj_ac)
  have "a \<in> al_account ` set ?ls \<longleftrightarrow> 0 < writable_locks f t d a" for a
    unfolding n [symmetric] length_greater_0_conv filter_empty_conv by auto
  note pos = this
  have "writable_lock_counts f t d = map (\<lambda>a. (a, int (writable_locks f t d a))) (remdups (map al_account ?ls))"
    unfolding writable_lock_counts_def Let_def n ..
  then have "set (writable_lock_counts f t d) = (\<lambda>a. (a, int (writable_locks f t d a))) ` (al_account ` set ?ls)"
    by simp
  also have "al_account ` set ?ls = {a. 0 < writable_locks f t d a}" using pos by blast
  finally show "set (writable_lock_counts f t d) = {(a, int (writable_locks f t d a)) | a. 0 < writable_locks f t d a}"
    by auto
  show "distinct (map fst (writable_lock_counts f t d))"
    by (simp add: writable_lock_counts_def Let_def comp_def)
qed

lemma take_sorted_top:
  assumes "sorted_wrt R xs" and "x \<in> set (take n xs)" and "y \<in> set xs" and "y \<notin> set (take n xs)"
  shows "R x y"
proof -
  have "y \<in> set (drop n xs)" using assms(3,4) by (metis Un_iff append_take_drop_id set_append)
  moreover have "sorted_wrt R (take n xs @ drop n xs)" using assms(1) by simp
  ultimately show ?thesis using assms(2) unfolding sorted_wrt_append by blast
qed

definition top_accounts :: "nat \<Rightarrow> nat \<Rightarrow> db \<Rightarrow> (string \<times> int) list" where
  "top_accounts from_slot to_slot d = cs_top_conflicting_accounts (query_contention_summary from_slot to_slot d)"

text \<open>
  C40. The accounts of the contention summary are the twenty with most writable locks in the slot
  range, or all when there are fewer: each comes once with its exact number of writable locks, in
  descending order, and no account left out has more than one that is listed.
\<close>

theorem contention_summary_top:
  "distinct (map fst (top_accounts f t d)) \<and> sorted_wrt (\<lambda>x y. snd y \<le> snd x) (top_accounts f t d) \<and>
    (\<forall>(a, n)\<in>set (top_accounts f t d). n = int (writable_locks f t d a) \<and> 0 < writable_locks f t d a) \<and>
    length (top_accounts f t d) = min 20 (card {a. 0 < writable_locks f t d a}) \<and>
    (\<forall>(a, n)\<in>set (top_accounts f t d). \<forall>b. b \<notin> fst ` set (top_accounts f t d) \<longrightarrow> int (writable_locks f t d b) \<le> n)"
proof -
  let ?c = "writable_lock_counts f t d" and ?w = "writable_locks f t d"
  let ?s = "sort_key (\<lambda>(a, n). - n) ?c"
  note C = writable_lock_counts_eq [of f t d]
  have top: "top_accounts f t d = take 20 ?s" by (simp add: top_accounts_def query_contention_summary_def)
  have "sorted_wrt (\<lambda>x y. (case x of (a, n) \<Rightarrow> - n) \<le> (case y of (a, n) \<Rightarrow> - n)) ?s"
    using sorted_sort_key [of "\<lambda>(a, n). - n" ?c] by (simp add: sorted_wrt_map)
  then have srt: "sorted_wrt (\<lambda>x y. snd y \<le> snd x) ?s"
    by (rule sorted_wrt_mono_rel [rotated]) (auto simp: case_prod_beta)
  have ss: "set ?s = set ?c" by simp
  have "mset (map fst ?s) = mset (map fst ?c)" by simp
  then have dist: "distinct (map fst ?s)" using C(2) mset_eq_imp_distinct_iff by blast
  have sub: "set (top_accounts f t d) \<subseteq> set ?c" unfolding top using set_take_subset [of 20 ?s] by simp
  have "length ?c = card (fst ` set ?c)" using C(2) by (metis distinct_card length_map set_map)
  also have "fst ` set ?c = {a. 0 < ?w a}" unfolding C(1) by force
  finally have len: "length (top_accounts f t d) = min 20 (card {a. 0 < ?w a})" by (simp add: top)
  have "int (?w b) \<le> n" if an: "(a, n) \<in> set (top_accounts f t d)" and b: "b \<notin> fst ` set (top_accounts f t d)" for a n b
  proof (cases "0 < ?w b")
    case True
    then have "(b, int (?w b)) \<in> set ?s" using C(1) ss by auto
    moreover have "(b, int (?w b)) \<notin> set (take 20 ?s)" using b unfolding top by force
    ultimately show ?thesis using take_sorted_top [OF srt] an unfolding top by fastforce
  next
    case False
    then show ?thesis using an sub C(1) by auto
  qed
  then show ?thesis
    using sorted_wrt_take [OF srt] distinct_take [OF dist] len sub C(1) unfolding top by (auto simp: take_map)
qed

definition three_locks :: db where
  "three_locks = empty_db\<lparr>account_locks := map (lock_row 7)
     [(''s1'', ''hot'', True), (''s2'', ''hot'', True), (''s1'', ''cold'', False), (''s2'', ''warm'', True)]\<rparr>"

theorem contention_summary_top_witness:
  "\<exists>n m. (''hot'', n) \<in> set (top_accounts 7 7 three_locks) \<and> (''warm'', m) \<in> set (top_accounts 7 7 three_locks) \<and>
     m = 1 \<and> n = 2 \<and> ''cold'' \<notin> fst ` set (top_accounts 7 7 three_locks)"
proof -
  have w: "writable_locks 7 7 three_locks a = (if a = ''hot'' then 2 else if a = ''warm'' then 1 else 0)" for a
    by (auto simp: writable_locks_def three_locks_def empty_db_def lock_row_def between_same)
  have "{a. 0 < writable_locks 7 7 three_locks a} = {''hot'', ''warm''}" by (auto simp: w)
  then have "card {a. 0 < writable_locks 7 7 three_locks a} = 2" by simp
  note T = contention_summary_top [of 7 7 three_locks, unfolded this]
  let ?t = "top_accounts 7 7 three_locks"
  have d: "distinct (map fst ?t)" and l: "length ?t = 2" using T by simp_all
  have n: "n = int (writable_locks 7 7 three_locks a)" "0 < writable_locks 7 7 three_locks a"
    if "(a, n) \<in> set ?t" for a n using T that by blast+
  have only: "a = ''hot'' \<or> a = ''warm''" if "(a, n) \<in> set ?t" for a n
    using n(2) [OF that] by (simp add: w split: if_splits)
  have "card (fst ` set ?t) = 2" using distinct_card [OF d] l by simp
  moreover have "fst ` set ?t \<subseteq> {''hot'', ''warm''}" by (auto dest: only)
  ultimately have t: "fst ` set ?t = {''hot'', ''warm''}" by (intro card_subset_eq) simp_all
  then have in_t: "''hot'' \<in> fst ` set ?t" "''warm'' \<in> fst ` set ?t" by simp_all
  have ex: "\<exists>n. (a, n) \<in> set ?t" if "a \<in> fst ` set ?t" for a using that by auto
  obtain h w' where hw: "(''hot'', h) \<in> set ?t" "(''warm'', w') \<in> set ?t"
    using ex [OF in_t(1)] ex [OF in_t(2)] by blast
  then have "h = 2" "w' = 1" using n(1) [OF hw(1)] n(1) [OF hw(2)] by (simp_all add: w)
  then show ?thesis using hw t by auto
qed

text \<open>The count is one of locks, not of conflicts: a single transaction that conflicts with nothing has one.\<close>

lemma summary_counts_locks_not_conflicts:
  "cs_top_conflicting_accounts (query_contention_summary 1 1
     (empty_db\<lparr>account_locks := [lock_row 1 (''sig'', ''acc'', True)]\<rparr>)) = [(''acc'', 1)]"
  "map_option sr_conflicts (build_schedule [\<lparr>tl_signature = ''sig'', tl_program_ids = [],
     tl_locks = [\<lparr>account = ''acc'', is_writable = True\<rparr>]\<rparr>]) = Some []"
  by (simp add: query_contention_summary_def writable_lock_counts_def lock_row_def between_same)
    code_simp

subsection \<open>Schedule steps\<close>

text \<open>The steps of the pairs, as one update of the table.\<close>

definition apply_steps :: "(string \<times> nat) list \<Rightarrow> transaction_row list \<Rightarrow> transaction_row list" where
  "apply_steps ps ts =
     map (\<lambda>r. case map_of (rev ps) (tr_signature r) of None \<Rightarrow> r | Some k \<Rightarrow> r\<lparr>tr_step := Some (usize_as_i32 k)\<rparr>) ts"

lemma write_steps_run:
  "cn_txn c = Idle \<Longrightarrow> write_steps ps c = (r, c') \<Longrightarrow>
     cn_txn c' = Idle \<and> set (cn_faults c') \<subseteq> set (cn_faults c) \<and>
     (\<exists>n \<le> length ps. cn_committed c' = (cn_committed c)
        \<lparr>transactions := apply_steps (take n ps) (transactions (cn_committed c))\<rparr> \<and>
        (r = Inr () \<longrightarrow> n = length ps)) \<and>
     (True \<notin> set (cn_faults c) \<longrightarrow> r = Inr ())"
proof (induction ps arbitrary: c)
  case Nil
  then show ?case by (simp add: apply_steps_def map_idI)
next
  case (Cons p ps)
  obtain sig k where p: "p = (sig, k)" by fastforce
  obtain r1 c1 where e: "execute (set_step sig (usize_as_i32 k)) c = (r1, c1)" by fastforce
  note E = execute_idle [OF Cons.prems(1) e]
  show ?case
  proof (cases r1)
    case (Inl err)
    then have "r = Inl err" "c' = c1" using Cons.prems(2) e p by (simp_all add: and_then_def)
    moreover have "cn_committed c1 = cn_committed c" using E(4) Inl by simp
    ultimately show ?thesis
      using E(1,2,5) Inl by (auto intro!: exI [of _ 0] simp: apply_steps_def set_step_def map_idI)
  next
    case (Inr u)
    then have k: "write_steps ps c1 = (r, c')" using Cons.prems(2) e p by (simp add: and_then_def)
    from Cons.IH [OF E(1) k] obtain n where n: "n \<le> length ps" "cn_txn c' = Idle" "r = Inr () \<longrightarrow> n = length ps"
      "cn_committed c' = (cn_committed c1)\<lparr>transactions := apply_steps (take n ps) (transactions (cn_committed c1))\<rparr>"
      "True \<notin> set (cn_faults c1) \<longrightarrow> r = Inr ()" "set (cn_faults c') \<subseteq> set (cn_faults c1)" by blast
    have c1: "set_step sig (usize_as_i32 k) (cn_committed c) = Some (cn_committed c1)" using E(3) Inr by simp
    have "apply_steps (take n ps) (map (\<lambda>r. if tr_signature r = sig then r\<lparr>tr_step := Some (usize_as_i32 k)\<rparr> else r) ts)
        = apply_steps (take (Suc n) (p # ps)) ts" for ts
      by (auto simp: apply_steps_def p map_add_def split: option.splits)
    moreover have "cn_committed c1 = (cn_committed c)\<lparr>transactions :=
        map (\<lambda>r. if tr_signature r = sig then r\<lparr>tr_step := Some (usize_as_i32 k)\<rparr> else r) (transactions (cn_committed c))\<rparr>"
      using c1 by (simp add: set_step_def)
    ultimately have "cn_committed c' = (cn_committed c)
        \<lparr>transactions := apply_steps (take (Suc n) (p # ps)) (transactions (cn_committed c))\<rparr>"
      unfolding n(4) by simp
    then show ?thesis using n E(2) by (intro conjI exI [of _ "Suc n"]) auto
  qed
qed

end
