(* ===== verification/Parse_Stage.thy ===== *)
theory Parse_Stage
  imports Block_Fetch Storage_Queries
begin

section \<open>The parse stage of the ingest pipeline\<close>

text \<open>
  \<open>ParsedOutcome\<close>, \<open>ParsedBlock\<close>, \<open>parse_outcome\<close> and \<open>parse_block\<close> of \<open>crates/cli/src/main.rs\<close>:
  a decoded block becomes the tuples that \<open>replace_slots_batch\<close> takes, together with its schedule.
  \<open>None\<close> is a panic of the scheduler inside the worker.
\<close>

record parsed_block =
  pb_slot :: nat
  pb_block_time :: "int option"
  pb_transactions :: "transaction_tuple list"
  pb_locks :: "lock_tuple list"
  pb_token_changes :: "token_balance_tuple list"
  pb_signatures :: "string list"
  pb_schedule :: schedule_result

datatype parsed_outcome =
    ParsedIngested parsed_block
  | ParsedSkipped nat
  | ParsedFailed nat string

fun parsed_slot :: "parsed_outcome \<Rightarrow> nat" where
  "parsed_slot (ParsedIngested b) = pb_slot b"
| "parsed_slot (ParsedSkipped s) = s"
| "parsed_slot (ParsedFailed s e) = s"

definition tx_locks_of :: "decoded_transaction \<Rightarrow> tx_locks" where
  "tx_locks_of t =
     \<lparr>tl_signature = dt_signature t, tl_program_ids = dt_program_ids t,
      tl_locks = map (\<lambda>l. \<lparr>account = cl_account l, is_writable = cl_is_writable l\<rparr>) (dt_locks t)\<rparr>"

definition lock_tuples :: "decoded_transaction \<Rightarrow> lock_tuple list" where
  "lock_tuples t = map (\<lambda>l. (dt_signature t, cl_account l, cl_is_writable l)) (dt_locks t)"

definition token_tuples :: "decoded_transaction \<Rightarrow> token_balance_tuple list" where
  "token_tuples t =
     map (\<lambda>d. (dt_signature t, tbc_mint d, tbc_pre_amount d, tbc_post_amount d, tbc_decimals d)) (dt_token_deltas t)"

definition parse_block :: "decoded_block \<Rightarrow> parsed_block option" where
  "parse_block block =
     (let ts = db_transactions block;
          transactions = map (\<lambda>t. (dt_signature t, dt_failed t, dt_program_ids t, None)) ts;
          locks = concat (map lock_tuples ts);
          token_changes = concat (map token_tuples (filter (\<lambda>t. \<not> dt_failed t) ts))
      in case build_schedule (map tx_locks_of ts) of
           None \<Rightarrow> None
         | Some schedule \<Rightarrow>
             Some \<lparr>pb_slot = db_slot block, pb_block_time = db_block_time block, pb_transactions = transactions,
                   pb_locks = locks, pb_token_changes = token_changes, pb_signatures = map dt_signature ts,
                   pb_schedule = schedule\<rparr>)"

fun parse_outcome :: "fetch_outcome \<Rightarrow> parsed_outcome option" where
  "parse_outcome (Skipped slot) = Some (ParsedSkipped slot)"
| "parse_outcome (Failed slot e) = Some (ParsedFailed slot e)"
| "parse_outcome (Ingested block) = map_option ParsedIngested (parse_block block)"

text \<open>The tuple that \<open>flush_parsed_batch\<close> hands to the repository, and the pairs of the step update.\<close>

definition slot_row :: "parsed_block \<Rightarrow> slot_batch_row" where
  "slot_row b = \<lparr>sb_slot = pb_slot b, sb_block_time = pb_block_time b, sb_transactions = pb_transactions b,
     sb_locks = pb_locks b, sb_token_changes = pb_token_changes b\<rparr>"

definition step_pairs :: "parsed_block \<Rightarrow> (string \<times> nat) list" where
  "step_pairs b = zip (pb_signatures b) (sr_steps (pb_schedule b))"

subsection \<open>Netting twice\<close>

text \<open>The balances of one transaction, as a validator reports them.\<close>

definition balances_ok :: "raw_token_balance list \<Rightarrow> raw_token_balance list \<Rightarrow> bool" where
  "balances_ok pre post \<longleftrightarrow>
     (\<forall>m. \<bar>mint_amount m post - mint_amount m pre\<bar> < 2 ^ 64) \<and>
     distinct (map rtb_account_index pre) \<and> distinct (map rtb_account_index post) \<and>
     (\<forall>p\<in>set pre. \<forall>q\<in>set post. rtb_account_index p = rtb_account_index q \<longrightarrow> rtb_mint p = rtb_mint q)"

definition raw_balances_ok :: "'v raw_tx_with_meta \<Rightarrow> bool" where
  "raw_balances_ok t \<longleftrightarrow>
     (case rtm_meta t of None \<Rightarrow> True | Some m \<Rightarrow> balances_ok (rme_pre_token_balances m) (rme_post_token_balances m))"

definition first_signature :: "'v raw_tx_with_meta \<Rightarrow> string" where
  "first_signature t = (case rt_signatures (rtm_transaction t) of [] \<Rightarrow> [] | s # _ \<Rightarrow> s)"

text \<open>At most one row per mint, each a pure gain or loss that fits the amounts' 64 bits.\<close>

definition netted_tx :: "decoded_transaction \<Rightarrow> bool" where
  "netted_tx t \<longleftrightarrow> distinct (map tbc_mint (dt_token_deltas t)) \<and>
     (\<forall>d\<in>set (dt_token_deltas t). (tbc_pre_amount d = 0 \<or> tbc_post_amount d = 0) \<and>
        \<bar>tbc_delta d\<bar> < 2 ^ 64 \<and> tbc_delta d \<noteq> 0)"

lemma parse_block_Some:
  "\<exists>r. build_schedule (map tx_locks_of (db_transactions b)) = Some r \<and> parse_block b =
     Some \<lparr>pb_slot = db_slot b, pb_block_time = db_block_time b,
       pb_transactions = map (\<lambda>t. (dt_signature t, dt_failed t, dt_program_ids t, None)) (db_transactions b),
       pb_locks = concat (map lock_tuples (db_transactions b)),
       pb_token_changes = concat (map token_tuples (filter (\<lambda>t. \<not> dt_failed t) (db_transactions b))),
       pb_signatures = map dt_signature (db_transactions b), pb_schedule = r\<rparr>"
proof -
  obtain r where "build_schedule (map tx_locks_of (db_transactions b)) = Some r"
    using build_schedule_spec by blast
  then show ?thesis by (simp add: parse_block_def Let_def)
qed

lemma distinct_tuple_keys:
  "distinct (map dt_signature ts) \<Longrightarrow> \<forall>t\<in>set ts. netted_tx t \<Longrightarrow>
     distinct (map tuple_key (concat (map token_tuples ts)))"
proof (induction ts)
  case (Cons t ts)
  have k: "map tuple_key (token_tuples t) = map (Pair (dt_signature t)) (map tbc_mint (dt_token_deltas t))" for t
    by (simp add: token_tuples_def tuple_key_def comp_def)
  have sig: "fst x = dt_signature t" if "x \<in> tuple_key ` set (token_tuples t)" for x t
    using that by (auto simp: token_tuples_def tuple_key_def)
  have "distinct (map tbc_mint (dt_token_deltas t))" using Cons.prems(2) by (simp add: netted_tx_def)
  then have "distinct (map tuple_key (token_tuples t))"
    unfolding k by (subst distinct_map) (simp add: inj_on_def)
  moreover have "tuple_key ` set (token_tuples t) \<inter> tuple_key ` (\<Union>u\<in>set ts. set (token_tuples u)) = {}"
  proof (rule ccontr)
    assume "\<not> ?thesis"
    then obtain u x where "u \<in> set ts" "x \<in> tuple_key ` set (token_tuples t)" "x \<in> tuple_key ` set (token_tuples u)"
      by blast
    then have "dt_signature t = dt_signature u" using sig [of x t] sig [of x u] by simp
    moreover have "dt_signature t \<notin> dt_signature ` set ts" using Cons.prems(1) by simp
    ultimately show False using \<open>u \<in> set ts\<close> by blast
  qed
  ultimately show ?case using Cons by auto
qed simp

lemma netted_tuple:
  assumes "netted_tx t" and "r \<in> set (token_tuples t)"
  shows "tuple_delta r \<noteq> 0 \<and> net_tuple (tuple_key r) (tuple_delta r) (tuple_decimals r) = r"
proof -
  obtain d where d: "d \<in> set (dt_token_deltas t)"
    "r = (dt_signature t, tbc_mint d, tbc_pre_amount d, tbc_post_amount d, tbc_decimals d)"
    using assms(2) by (auto simp: token_tuples_def)
  have "tbc_pre_amount d = 0 \<or> tbc_post_amount d = 0" "\<bar>tbc_delta d\<bar> < 2 ^ 64" "tbc_delta d \<noteq> 0"
    using assms(1) d(1) by (auto simp: netted_tx_def)
  then show ?thesis
    by (auto simp: d(2) tuple_delta_def tuple_key_def tuple_decimals_def net_tuple_def tbc_delta_def i128_as_u64_def)
qed

lemma netted_tuples_kept:
  assumes "distinct (map dt_signature ts)" and "\<forall>t\<in>set ts. netted_tx t"
  shows "coalesce_token_balance_rows (concat (map token_tuples ts)) = concat (map token_tuples ts)"
proof (rule by_tx_mint.coalesce_canonical [OF distinct_tuple_keys [OF assms]])
  fix r assume "r \<in> set (concat (map token_tuples ts))"
  then obtain t where "t \<in> set ts" "r \<in> set (token_tuples t)" by auto
  then show "tuple_delta r \<noteq> 0 \<and> net_tuple (tuple_key r) (tuple_delta r) (tuple_decimals r) = r"
    using netted_tuple [of t r] assms(2) by blast
qed

lemma decoded_netted:
  assumes "decode_transaction slot bt t = Some (Some d)" and "raw_balances_ok t"
  shows "netted_tx d"
proof (cases "rtm_meta t")
  case None
  then show ?thesis using decode_transaction_fields [OF assms(1)] by (simp add: netted_tx_def)
next
  case (Some m)
  have D: "dt_token_deltas d = build_token_deltas (rme_pre_token_balances m) (rme_post_token_balances m)"
    using decode_transaction_fields [OF assms(1)] Some by simp
  have ok: "balances_ok (rme_pre_token_balances m) (rme_post_token_balances m)"
    using assms(2) Some by (simp add: raw_balances_ok_def)
  let ?pre = "rme_pre_token_balances m" and ?post = "rme_post_token_balances m"
  have fits: "\<bar>mint_amount k ?post - mint_amount k ?pre\<bar> < 2 ^ 64" for k
    using ok unfolding balances_ok_def by blast
  have well: "distinct (map rtb_account_index ?pre)" "distinct (map rtb_account_index ?post)"
    "\<forall>p\<in>set ?pre. \<forall>q\<in>set ?post. rtb_account_index p = rtb_account_index q \<longrightarrow> rtb_mint p = rtb_mint q"
    using ok unfolding balances_ok_def by blast+
  show ?thesis unfolding netted_tx_def using netted_deltas [OF fits well, folded D] fits by metis
qed

lemma decode_block_transactions:
  obtains b where "decode_block slot raw = Some b"
    "list_all2 (\<lambda>t d. decode_transaction slot (rb_block_time raw) t = Some (Some d)) (rb_transactions raw) (db_transactions b)"
proof -
  obtain ds where "decode_transactions slot (rb_block_time raw) (rb_transactions raw) = Some ds"
    "length ds = length (rb_transactions raw)"
    "\<forall>i<length (rb_transactions raw).
       decode_transaction slot (rb_block_time raw) (rb_transactions raw ! i) = Some (Some (ds ! i))"
    using decode_transactions_Some by blast
  then show thesis by (intro that) (auto simp: decode_block_def list_all2_conv_all_nth)
qed

subsection \<open>Properties\<close>

text \<open>
  C38. The two nettings agree: for a block as validators report it (distinct signatures, distinct
  account indices on each side, an index with one mint, net changes within 64 bits), every token
  row that the block reader derives for a successful transaction is stored as it is; the second netting, in the
  repository, drops and merges nothing.  Neither decoding nor parsing fails.
\<close>

theorem storage_keeps_decoded_deltas:
  assumes "distinct (map first_signature (rb_transactions raw))"
    and "\<forall>t\<in>set (rb_transactions raw). raw_balances_ok t"
  shows "\<exists>b p. decode_block slot raw = Some b \<and> parse_block b = Some p \<and>
    coalesce_token_balance_rows (pb_token_changes p) =
      concat (map token_tuples (filter (\<lambda>t. \<not> dt_failed t) (db_transactions b)))"
proof -
  obtain b where b: "decode_block slot raw = Some b"
    "list_all2 (\<lambda>t d. decode_transaction slot (rb_block_time raw) t = Some (Some d)) (rb_transactions raw) (db_transactions b)"
    by (rule decode_block_transactions)
  have "map first_signature (rb_transactions raw) = map dt_signature (db_transactions b)"
    using b(2) by (induction rule: list_all2_induct) (auto simp: first_signature_def dest: decode_transaction_fields)
  then have sigs: "distinct (map dt_signature (filter (\<lambda>t. \<not> dt_failed t) (db_transactions b)))"
    using assms(1) by (simp add: distinct_map_filter)
  have "\<forall>t\<in>set (db_transactions b). netted_tx t"
    using b(2) assms(2) by (induction rule: list_all2_induct) (auto intro: decoded_netted)
  then have net: "\<forall>t\<in>set (filter (\<lambda>t. \<not> dt_failed t) (db_transactions b)). netted_tx t" by simp
  obtain p where "parse_block b = Some p"
    "pb_token_changes p = concat (map token_tuples (filter (\<lambda>t. \<not> dt_failed t) (db_transactions b)))"
    using parse_block_Some [of b] by auto
  then show ?thesis using b(1) netted_tuples_kept [OF sigs net] by auto
qed

definition sample_raw_block :: "sample_json raw_block" where
  "sample_raw_block =
     \<lparr>rb_block_time = Some 100, rb_transactions =
       [\<lparr>rtm_transaction = \<lparr>rt_message = \<lparr>rm_account_keys = [''Payer'', ''Program''],
            rm_header = \<lparr>rh_num_required_signatures = 1, rh_num_readonly_signed_accounts = 0,
              rh_num_readonly_unsigned_accounts = 1\<rparr>,
            rm_instructions = [\<lparr>ri_program_id_index = 1\<rparr>]\<rparr>, rt_signatures = [''sig'']\<rparr>,
         rtm_meta = Some \<lparr>rme_err = None, rme_pre_token_balances = sample_pre,
           rme_post_token_balances = sample_post, rme_loaded_addresses = None\<rparr>\<rparr>]\<rparr>"

lemma sample_raw_balances: "balances_ok sample_pre sample_post"
  unfolding balances_ok_def using sample_balances_ok by (simp add: sample_mint_amounts)

theorem storage_keeps_decoded_deltas_witness:
  "\<exists>b p. decode_block 7 sample_raw_block = Some b \<and> parse_block b = Some p \<and>
    coalesce_token_balance_rows (pb_token_changes p) =
      concat (map token_tuples (filter (\<lambda>t. \<not> dt_failed t) (db_transactions b)))"
  by (rule storage_keeps_decoded_deltas)
    (simp_all add: sample_raw_block_def raw_balances_ok_def sample_raw_balances)

end
