(* ===== verification/Store_Stage.thy ===== *)
theory Store_Stage
  imports Parse_Stage
begin

section \<open>The store stage of the ingest pipeline\<close>

text \<open>
  \<open>db_blocking\<close>, \<open>flush_parsed_batch\<close> and the body of the store task of
  \<open>crates/cli/src/main.rs\<close>.  The connection is shared behind a mutex; a panic while the lock is
  held poisons it, and every later \<open>lock().unwrap()\<close> panics.  A panic in a blocking worker comes
  back as an error with the caller's context.  The progress logs and the length of the simulated
  pause have no effect on the state.
\<close>

subsection \<open>The shared connection\<close>

record shared =
  mx_conn :: conn
  mx_poisoned :: bool

datatype cli_error = StorageFailed storage_error | WorkerPanicked string

text \<open>What a worker does under the lock; \<open>None\<close> is a panic.\<close>

type_synonym 'a job = "conn \<Rightarrow> (storage_error + 'a) option \<times> conn"

definition no_panic :: "'a repo \<Rightarrow> 'a job" where
  "no_panic m c = (case m c of (r, c') \<Rightarrow> (Some r, c'))"

definition db_blocking :: "string \<Rightarrow> 'a job \<Rightarrow> shared \<Rightarrow> (cli_error + 'a) \<times> shared" where
  "db_blocking context job sh =
     (if mx_poisoned sh then (Inl (WorkerPanicked context), sh)
      else case job (mx_conn sh) of
             (None, c) \<Rightarrow> (Inl (WorkerPanicked context), \<lparr>mx_conn = c, mx_poisoned = True\<rparr>)
           | (Some (Inl e), c) \<Rightarrow> (Inl (StorageFailed e), sh\<lparr>mx_conn := c\<rparr>)
           | (Some (Inr v), c) \<Rightarrow> (Inr v, sh\<lparr>mx_conn := c\<rparr>))"

definition quiet :: "shared \<Rightarrow> bool" where
  "quiet sh \<longleftrightarrow> \<not> mx_poisoned sh \<and> cn_txn (mx_conn sh) = Idle \<and> True \<notin> set (cn_faults (mx_conn sh))"

abbreviation committed :: "shared \<Rightarrow> db" where
  "committed sh \<equiv> cn_committed (mx_conn sh)"

text \<open>
  The contract of everything that runs a job under the lock: \<open>db_blocking\<close> here and \<open>run_db\<close> of the API
  (theory \<open>Api\<close>), which differ in the errors they make of a poisoned mutex and a panic.
\<close>

locale lock_runner =
  fixes run :: "'a job \<Rightarrow> shared \<Rightarrow> ('e + 'a) \<times> shared"
    and poisoned :: 'e and panicked :: 'e and refused :: "storage_error \<Rightarrow> 'e"
  assumes run_eq: "run job sh =
      (if mx_poisoned sh then (Inl poisoned, sh)
       else case job (mx_conn sh) of
              (None, c) \<Rightarrow> (Inl panicked, \<lparr>mx_conn = c, mx_poisoned = True\<rparr>)
            | (Some (Inl e), c) \<Rightarrow> (Inl (refused e), sh\<lparr>mx_conn := c\<rparr>)
            | (Some (Inr v), c) \<Rightarrow> (Inr v, sh\<lparr>mx_conn := c\<rparr>))"
begin

lemma run_quiet:
  assumes "quiet sh" and "m (mx_conn sh) = (Inr v, c')" and "cn_txn c' = Idle" and "True \<notin> set (cn_faults c')"
  shows "run (no_panic m) sh = (Inr v, sh\<lparr>mx_conn := c'\<rparr>)" and "quiet (sh\<lparr>mx_conn := c'\<rparr>)"
  using assms by (simp_all add: run_eq no_panic_def quiet_def)

text \<open>What a job keeps of the connection, the run keeps, panics included.\<close>

lemma run_keeps:
  assumes "\<And>r c'. job (mx_conn sh) = (r, c') \<Longrightarrow> P c'" and "P (mx_conn sh)" and "run job sh = (r, sh')"
  shows "P (mx_conn sh')"
  using assms by (cases "job (mx_conn sh)") (auto simp: run_eq split: if_splits option.splits sum.splits)

lemma run_poisoned: "mx_poisoned sh \<Longrightarrow> run job sh = (Inl poisoned, sh)"
  by (simp add: run_eq)

lemma run_query:
  "run (no_panic (query q)) sh =
     (if mx_poisoned sh then (Inl poisoned, sh)
      else let (fault, c) = take_fault (mx_conn sh)
           in (if fault then Inl (refused DuckDb) else Inr (q (committed sh)), sh\<lparr>mx_conn := c\<rparr>))"
  by (auto simp: run_eq no_panic_def query_def take_fault_def split: list.split)

lemma run_query_quiet:
  assumes "quiet sh"
  obtains sh' where "run (no_panic (query q)) sh = (Inr (q (committed sh)), sh')" "quiet sh'" "committed sh' = committed sh"
proof -
  obtain b c where t: "take_fault (mx_conn sh) = (b, c)" by fastforce
  then show thesis
    using that [of "sh\<lparr>mx_conn := c\<rparr>"] take_fault_facts [OF t] assms by (auto simp: run_query quiet_def)
qed

end

interpretation blocking: lock_runner "db_blocking ctx" "WorkerPanicked ctx" "WorkerPanicked ctx" StorageFailed
  for ctx by unfold_locales (simp add: db_blocking_def)

subsection \<open>Flushing a batch\<close>

fun write_all_steps :: "parsed_block list \<Rightarrow> unit repo" where
  "write_all_steps [] = Pair (Inr ())"
| "write_all_steps (b # bs) =
     and_then (write_schedule_steps (pb_signatures b) (pb_schedule b)) (write_all_steps bs)"

definition flush_parsed_batch :: "(string list \<Rightarrow> string option) \<Rightarrow> parsed_block list \<Rightarrow> unit repo" where
  "flush_parsed_batch to_json bs =
     and_then (replace_slots_batch to_json (map slot_row bs)) (write_all_steps bs)"

subsection \<open>The store task\<close>

record store_args =
  sa_batch_size :: nat
  sa_simulate_pause_secs :: nat

record store_state =
  pending_batch :: "parsed_block list"
  ingested :: nat
  ingested_txs :: nat
  skipped :: nat
  failed :: nat
  did_pause :: bool

definition store_init :: store_state where
  "store_init = \<lparr>pending_batch = [], ingested = 0, ingested_txs = 0, skipped = 0, failed = 0, did_pause = False\<rparr>"

fun status_of :: "parsed_outcome \<Rightarrow> nat \<times> string \<times> string option" where
  "status_of (ParsedIngested b) = (pb_slot b, ''ingested'', None)"
| "status_of (ParsedSkipped slot) = (slot, ''skipped'', None)"
| "status_of (ParsedFailed slot e) = (slot, ''failed'', Some e)"

fun count_outcome :: "parsed_outcome \<Rightarrow> store_state \<Rightarrow> store_state" where
  "count_outcome (ParsedIngested b) st =
     st\<lparr>ingested_txs := ingested_txs st + length (pb_transactions b), pending_batch := pending_batch st @ [b],
        ingested := ingested st + 1\<rparr>"
| "count_outcome (ParsedSkipped slot) st = st\<lparr>skipped := skipped st + 1\<rparr>"
| "count_outcome (ParsedFailed slot e) st = st\<lparr>failed := failed st + 1\<rparr>"

definition record_outcome ::
  "parsed_outcome \<Rightarrow> store_state \<Rightarrow> shared \<Rightarrow> (cli_error + store_state) \<times> shared" where
  "record_outcome p st sh =
     (let (slot, status, note) = status_of p
      in case db_blocking ''db worker panicked'' (no_panic (upsert_ingestion_status slot status note)) sh of
           (Inl e, sh') \<Rightarrow> (Inl e, sh')
         | (Inr _, sh') \<Rightarrow> (Inr (count_outcome p st), sh'))"

text \<open>A batch that the storage refuses is logged and dropped; only a panic ends the task.\<close>

definition flush_if_full ::
  "(string list \<Rightarrow> string option) \<Rightarrow> nat \<Rightarrow> store_state \<Rightarrow> shared \<Rightarrow> (cli_error + store_state) \<times> shared" where
  "flush_if_full to_json batch_size st sh =
     (if batch_size \<le> length (pending_batch st)
      then case db_blocking ''flush worker panicked'' (no_panic (flush_parsed_batch to_json (pending_batch st))) sh of
             (Inl (WorkerPanicked e), sh') \<Rightarrow> (Inl (WorkerPanicked e), sh')
           | (Inl (StorageFailed e), sh') \<Rightarrow> (Inr (st\<lparr>pending_batch := []\<rparr>), sh')
           | (Inr _, sh') \<Rightarrow> (Inr (st\<lparr>pending_batch := []\<rparr>), sh')
      else (Inr st, sh))"

definition pause_once :: "store_args \<Rightarrow> store_state \<Rightarrow> store_state" where
  "pause_once args st = (if \<not> did_pause st \<and> 0 < sa_simulate_pause_secs args then st\<lparr>did_pause := True\<rparr> else st)"

fun store_loop ::
  "(string list \<Rightarrow> string option) \<Rightarrow> store_args \<Rightarrow> parsed_outcome list \<Rightarrow> store_state \<Rightarrow> shared \<Rightarrow>
     (cli_error + store_state) \<times> shared" where
  "store_loop to_json args [] st sh = (Inr st, sh)"
| "store_loop to_json args (p # ps) st sh =
     (case record_outcome p (pause_once args st) sh of
        (Inl e, sh1) \<Rightarrow> (Inl e, sh1)
      | (Inr st1, sh1) \<Rightarrow>
          (case flush_if_full to_json (sa_batch_size args) st1 sh1 of
             (Inl e, sh2) \<Rightarrow> (Inl e, sh2)
           | (Inr st2, sh2) \<Rightarrow> store_loop to_json args ps st2 sh2))"

text \<open>The final flush, unlike those inside the loop, reports its error.\<close>

definition final_flush ::
  "(string list \<Rightarrow> string option) \<Rightarrow> store_state \<Rightarrow> shared \<Rightarrow> (cli_error + store_state) \<times> shared" where
  "final_flush to_json st sh =
     (if pending_batch st = [] then (Inr st, sh)
      else case db_blocking ''flush worker panicked'' (no_panic (flush_parsed_batch to_json (pending_batch st))) sh of
             (Inl e, sh') \<Rightarrow> (Inl e, sh')
           | (Inr _, sh') \<Rightarrow> (Inr (st\<lparr>pending_batch := []\<rparr>), sh'))"

definition store_stage ::
  "(string list \<Rightarrow> string option) \<Rightarrow> store_args \<Rightarrow> parsed_outcome list \<Rightarrow> shared \<Rightarrow> (cli_error + store_state) \<times> shared" where
  "store_stage to_json args ps sh =
     (case store_loop to_json args ps store_init sh of
        (Inl e, sh1) \<Rightarrow> (Inl e, sh1)
      | (Inr st, sh1) \<Rightarrow> final_flush to_json st sh1)"

subsection \<open>Runs on a healthy connection\<close>

definition status_row_of :: "parsed_outcome \<Rightarrow> status_row" where
  "status_row_of p = (case status_of p of (slot, status, note) \<Rightarrow> \<lparr>st_slot = u64_as_i64 slot, st_status = status, st_note = note\<rparr>)"

lemma record_outcome_quiet:
  assumes "quiet sh"
  obtains sh' where "record_outcome p st sh = (Inr (count_outcome p st), sh')" "quiet sh'"
    "committed sh' = (committed sh)\<lparr>ingestion_status := put_status (status_row_of p) (ingestion_status (committed sh))\<rparr>"
proof -
  obtain slot status memo where s: "status_of p = (slot, status, memo)" by (cases "status_of p") auto
  obtain r c' where r: "upsert_ingestion_status slot status memo (mx_conn sh) = (r, c')" by fastforce
  have idle: "cn_txn (mx_conn sh) = Idle" using assms by (simp add: quiet_def)
  note E = execute_idle [OF idle r [unfolded upsert_ingestion_status_def]]
  have ok: "r = Inr ()" using E(5) assms by (simp add: quiet_def)
  moreover have "True \<notin> set (cn_faults c')" using E(2) assms by (auto simp: quiet_def)
  moreover have "cn_committed c' = (committed sh)\<lparr>ingestion_status := put_status (status_row_of p) (ingestion_status (committed sh))\<rparr>"
    using E(3) ok by (simp add: status_row_of_def s)
  ultimately show thesis
    using that [of "sh\<lparr>mx_conn := c'\<rparr>"] blocking.run_quiet [of sh "upsert_ingestion_status slot status memo", OF assms r [unfolded ok] E(1)]
    by (simp add: record_outcome_def s)
qed

lemma apply_steps_append: "apply_steps (ps @ qs) ts = apply_steps qs (apply_steps ps ts)"
  by (auto simp: apply_steps_def map_add_def split: option.splits)

lemma apply_steps_Nil [simp]: "apply_steps [] ts = ts"
  by (simp add: apply_steps_def map_idI)

lemma write_all_steps_run:
  "cn_txn c = Idle \<Longrightarrow> True \<notin> set (cn_faults c) \<Longrightarrow>
     \<exists>c'. write_all_steps bs c = (Inr (), c') \<and> cn_txn c' = Idle \<and> True \<notin> set (cn_faults c') \<and>
       cn_committed c' = (cn_committed c)\<lparr>transactions :=
         apply_steps (concat (map step_pairs bs)) (transactions (cn_committed c))\<rparr>"
proof (induction bs arbitrary: c)
  case (Cons b bs)
  obtain r c1 where 1: "write_steps (step_pairs b) c = (r, c1)" by fastforce
  from write_steps_run [OF Cons.prems(1) 1] Cons.prems(2) have W: "r = Inr ()" "cn_txn c1 = Idle" "True \<notin> set (cn_faults c1)"
    "cn_committed c1 = (cn_committed c)\<lparr>transactions := apply_steps (step_pairs b) (transactions (cn_committed c))\<rparr>"
    by auto
  from Cons.IH [OF W(2,3)] show ?case
    using 1 W(1,4) by (auto simp: and_then_def write_schedule_steps_def step_pairs_def apply_steps_append)
qed simp

lemma flush_quiet:
  assumes "quiet sh" and "replace_all to_json (map slot_row bs) (committed sh) = Some d1"
  obtains sh' where "db_blocking ctx (no_panic (flush_parsed_batch to_json bs)) sh = (Inr (), sh')" "quiet sh'"
    "committed sh' = d1\<lparr>transactions := apply_steps (concat (map step_pairs bs)) (transactions d1)\<rparr>"
proof -
  obtain r c1 where b: "replace_slots_batch to_json (map slot_row bs) (mx_conn sh) = (r, c1)" by fastforce
  have idle: "cn_txn (mx_conn sh) = Idle" and f: "True \<notin> set (cn_faults (mx_conn sh))"
    using assms by (simp_all add: quiet_def)
  note B = replace_slots_batch_run [OF idle b]
  have r: "r = Inr ()" and c1: "cn_txn c1 = Idle" "True \<notin> set (cn_faults c1)" "cn_committed c1 = d1"
    using B f assms(2) by auto
  from write_all_steps_run [OF c1(1,2), of bs] obtain c' where c': "write_all_steps bs c1 = (Inr (), c')"
    "cn_txn c' = Idle" "True \<notin> set (cn_faults c')"
    "cn_committed c' = d1\<lparr>transactions := apply_steps (concat (map step_pairs bs)) (transactions d1)\<rparr>"
    using c1(3) by auto
  have "flush_parsed_batch to_json bs (mx_conn sh) = (Inr (), c')"
    using b c'(1) r by (simp add: flush_parsed_batch_def and_then_def)
  from blocking.run_quiet [of sh "flush_parsed_batch to_json bs", OF assms(1) this c'(2,3)] show thesis using that c'(4) by simp
qed

subsection \<open>Batching is transparent\<close>

text \<open>
  The database that one single batch of the given blocks, all their steps and the given status
  rows make of \<open>d\<close>.
\<close>

definition staged ::
  "(string list \<Rightarrow> string option) \<Rightarrow> parsed_block list \<Rightarrow> status_row list \<Rightarrow> db \<Rightarrow> db option" where
  "staged to_json bs sts d =
     map_option (\<lambda>d'. d'\<lparr>transactions := apply_steps (concat (map step_pairs bs)) (transactions d'),
         ingestion_status := fold put_status sts (ingestion_status d')\<rparr>)
       (replace_all to_json (map slot_row bs) d)"

fun blocks_of :: "parsed_outcome list \<Rightarrow> parsed_block list" where
  "blocks_of [] = []"
| "blocks_of (ParsedIngested b # ps) = b # blocks_of ps"
| "blocks_of (ParsedSkipped s # ps) = blocks_of ps"
| "blocks_of (ParsedFailed s e # ps) = blocks_of ps"

lemma blocks_of_append [simp]: "blocks_of (ps @ qs) = blocks_of ps @ blocks_of qs"
  by (induction ps rule: blocks_of.induct) simp_all

lemma sql_append_map:
  assumes "\<And>r. key (f r) = key r" and "\<And>r. slot_of (f r) = slot_of r" and "map f new = new"
  shows "sql_append key new (sql_delete (\<lambda>r. slot_of r = s) (map f t)) =
    map_option (map f) (sql_append key new (sql_delete (\<lambda>r. slot_of r = s) t))"
proof -
  have "filter (\<lambda>r. slot_of r \<noteq> s) (map f t) = map f (filter (\<lambda>r. slot_of r \<noteq> s) t)"
    by (simp add: filter_map comp_def assms(2))
  then show ?thesis
    using assms(1) by (simp add: sql_append_def sql_delete_def comp_def assms(3))
qed

lemma replace_all_map:
  assumes f: "\<And>r. tr_signature (f r) = tr_signature r" "\<And>r. tr_slot (f r) = tr_slot r"
    and "\<forall>row\<in>set batch. map f (new_transactions to_json row) = new_transactions to_json row"
  shows "replace_all to_json batch (d\<lparr>transactions := map f (transactions d), ingestion_status := sts\<rparr>) =
    map_option (\<lambda>d'. d'\<lparr>transactions := map f (transactions d'), ingestion_status := sts\<rparr>) (replace_all to_json batch d)"
  using assms(3)
proof (induction batch arbitrary: d)
  case (Cons row batch)
  have "replace_slot to_json row (d\<lparr>transactions := map f (transactions d), ingestion_status := sts\<rparr>) =
    map_option (\<lambda>d'. d'\<lparr>transactions := map f (transactions d'), ingestion_status := sts\<rparr>) (replace_slot to_json row d)"
    using Cons.prems unfolding replace_slot_eq
    by (simp add: sql_append_map [of tr_signature f tr_slot, OF f] map_option_bind bind_map_option comp_def
        split: Option.bind_split)
  then show ?case using Cons by (simp add: bind_map_option map_option_bind comp_def)
qed simp

definition step_update :: "(string \<times> nat) list \<Rightarrow> transaction_row \<Rightarrow> transaction_row" where
  "step_update ps r = (case map_of (rev ps) (tr_signature r) of None \<Rightarrow> r | Some k \<Rightarrow> r\<lparr>tr_step := Some (usize_as_i32 k)\<rparr>)"

lemma apply_steps_eq: "apply_steps ps = map (step_update ps)"
  by (auto simp: apply_steps_def step_update_def)

lemma step_update_keeps [simp]:
  "tr_signature (step_update ps r) = tr_signature r" "tr_slot (step_update ps r) = tr_slot r"
  by (simp_all add: step_update_def split: option.split)

lemma step_update_absent: "tr_signature r \<notin> fst ` set ps \<Longrightarrow> step_update ps r = r"
proof -
  assume "tr_signature r \<notin> fst ` set ps"
  then have "map_of (rev ps) (tr_signature r) = None" by (simp add: map_of_eq_None_iff)
  then show ?thesis by (simp add: step_update_def)
qed

lemma new_transactions_sigs: "map tr_signature (new_transactions to_json (slot_row b)) = map fst (pb_transactions b)"
  by (auto simp: new_transactions_def transaction_row_of_def slot_row_def)

lemma replace_all_append:
  "replace_all to_json (xs @ ys) d = Option.bind (replace_all to_json xs d) (replace_all to_json ys)"
  by (induction xs arbitrary: d) (auto simp: bind_eq_Some_conv split: Option.bind_splits)

text \<open>The steps of a block name its own transactions only.\<close>

definition pairs_ok :: "parsed_block \<Rightarrow> bool" where
  "pairs_ok b \<longleftrightarrow> pb_signatures b = map fst (pb_transactions b)"

lemma staged_flush:
  assumes "staged to_json F sts d0 = Some d" and "\<forall>b\<in>set (F @ Q). pairs_ok b"
    and "distinct (concat (map pb_signatures (F @ Q)))"
  shows "map_option (\<lambda>d1. d1\<lparr>transactions := apply_steps (concat (map step_pairs Q)) (transactions d1)\<rparr>)
      (replace_all to_json (map slot_row Q) d) = staged to_json (F @ Q) sts d0"
proof -
  let ?ps = "concat (map step_pairs F)"
  obtain d1 where d1: "replace_all to_json (map slot_row F) d0 = Some d1"
    "d = d1\<lparr>transactions := map (step_update ?ps) (transactions d1), ingestion_status := fold put_status sts (ingestion_status d1)\<rparr>"
    using assms(1) by (auto simp: staged_def apply_steps_eq)
  have ps: "fst ` set ?ps \<subseteq> set (concat (map pb_signatures F))"
    by (force simp: step_pairs_def dest: set_zip_leftD)
  have "map (step_update ?ps) (new_transactions to_json (slot_row b)) = new_transactions to_json (slot_row b)"
    if b: "b \<in> set Q" for b
  proof (rule map_idI)
    fix r assume "r \<in> set (new_transactions to_json (slot_row b))"
    then have "tr_signature r \<in> set (pb_signatures b)"
      using new_transactions_sigs [of to_json b] assms(2) b unfolding pairs_ok_def by (metis Un_iff image_eqI list.set_map set_append)
    then have "tr_signature r \<in> set (concat (map pb_signatures Q))" using b by auto
    then have "tr_signature r \<notin> fst ` set ?ps" using ps assms(3) by auto
    then show "step_update ?ps r = r" by (rule step_update_absent)
  qed
  then have "\<forall>row\<in>set (map slot_row Q). map (step_update ?ps) (new_transactions to_json row) = new_transactions to_json row"
    by auto
  note R = replace_all_map [OF step_update_keeps this, where d = d1 and sts = "fold put_status sts (ingestion_status d1)", folded d1(2)]
  have status: "ingestion_status d2 = ingestion_status d1" if "replace_all to_json rows d1 = Some d2" for rows d2
    using that unfolding replace_all_iff by auto
  show ?thesis
    unfolding R staged_def using d1(1) status
    by (auto simp: replace_all_append apply_steps_append apply_steps_eq [of ?ps] option.map_comp comp_def
        intro!: map_option_cong)
qed

lemma staged_status:
  "staged to_json F (sts @ [r]) d0 =
     map_option (\<lambda>d. d\<lparr>ingestion_status := put_status r (ingestion_status d)\<rparr>) (staged to_json F sts d0)"
  by (simp add: staged_def option.map_comp comp_def)

text \<open>What can be written to \<open>d0\<close> in one batch, with signatures that occur once.\<close>

definition storable :: "(string list \<Rightarrow> string option) \<Rightarrow> parsed_block list \<Rightarrow> db \<Rightarrow> bool" where
  "storable to_json bs d0 \<longleftrightarrow> replace_all to_json (map slot_row bs) d0 \<noteq> None \<and>
     (\<forall>b\<in>set bs. pairs_ok b) \<and> distinct (concat (map pb_signatures bs))"

lemma storable_prefix: "storable to_json (xs @ ys) d0 \<Longrightarrow> storable to_json xs d0"
  by (auto simp: storable_def replace_all_append split: Option.bind_splits)

lemma flush_staged:
  assumes "quiet sh" and "staged to_json F sts d0 = Some (committed sh)" and "storable to_json (F @ Q) d0"
  obtains sh' where "db_blocking ctx (no_panic (flush_parsed_batch to_json Q)) sh = (Inr (), sh')" "quiet sh'"
    "staged to_json (F @ Q) sts d0 = Some (committed sh')"
proof -
  note S = staged_flush [OF assms(2), of Q, symmetric]
  have ok: "\<forall>b\<in>set (F @ Q). pairs_ok b" "distinct (concat (map pb_signatures (F @ Q)))"
    "replace_all to_json (map slot_row (F @ Q)) d0 \<noteq> None"
    using assms(3) unfolding storable_def by blast+
  then have "staged to_json (F @ Q) sts d0 \<noteq> None" by (simp add: staged_def)
  then obtain d1 where d1: "replace_all to_json (map slot_row Q) (committed sh) = Some d1"
    using S [OF ok(1,2)] by (cases "replace_all to_json (map slot_row Q) (committed sh)") auto
  from flush_quiet [OF assms(1) d1] obtain sh' where
    "db_blocking ctx (no_panic (flush_parsed_batch to_json Q)) sh = (Inr (), sh')" "quiet sh'"
    "committed sh' = d1\<lparr>transactions := apply_steps (concat (map step_pairs Q)) (transactions d1)\<rparr>" .
  then show thesis using that S [OF ok(1,2)] d1 by simp
qed

definition count_txs :: "parsed_block list \<Rightarrow> nat" where
  "count_txs bs = sum_list (map (length \<circ> pb_transactions) bs)"

fun is_skipped :: "parsed_outcome \<Rightarrow> bool" where
  "is_skipped (ParsedSkipped s) = True"
| "is_skipped p = False"

fun is_failed :: "parsed_outcome \<Rightarrow> bool" where
  "is_failed (ParsedFailed s e) = True"
| "is_failed p = False"

definition counted :: "parsed_outcome list \<Rightarrow> store_state \<Rightarrow> store_state \<Rightarrow> bool" where
  "counted ps st st' \<longleftrightarrow>
     ingested st' = ingested st + length (blocks_of ps) \<and> ingested_txs st' = ingested_txs st + count_txs (blocks_of ps) \<and>
     skipped st' = skipped st + length (filter is_skipped ps) \<and> failed st' = failed st + length (filter is_failed ps)"

lemma pause_once_keeps [simp]:
  "pending_batch (pause_once args st) = pending_batch st" "ingested (pause_once args st) = ingested st"
  "ingested_txs (pause_once args st) = ingested_txs st" "skipped (pause_once args st) = skipped st"
  "failed (pause_once args st) = failed st"
  by (simp_all add: pause_once_def)

lemma count_outcome_one:
  "pending_batch (count_outcome p st) = pending_batch st @ blocks_of [p]" "counted [p] st (count_outcome p st)"
  by (cases p; simp add: counted_def count_txs_def)+

lemma counted_Cons:
  "counted [p] st st1 \<Longrightarrow> counted ps st1 st2 \<Longrightarrow> counted (p # ps) st st2"
  by (cases p) (auto simp: counted_def count_txs_def)

lemma store_loop_run:
  "quiet sh \<Longrightarrow> staged to_json F sts d0 = Some (committed sh) \<Longrightarrow>
     storable to_json (F @ pending_batch st @ blocks_of ps) d0 \<Longrightarrow>
     \<exists>st' sh' F'. store_loop to_json args ps st sh = (Inr st', sh') \<and> quiet sh' \<and>
       staged to_json F' (sts @ map status_row_of ps) d0 = Some (committed sh') \<and>
       F' @ pending_batch st' = F @ pending_batch st @ blocks_of ps \<and> counted ps st st'"
proof (induction ps arbitrary: st sh F sts)
  case Nil
  then show ?case by (auto simp: counted_def count_txs_def)
next
  case (Cons p ps)
  let ?st1 = "count_outcome p (pause_once args st)"
  from record_outcome_quiet [OF Cons.prems(1), of p "pause_once args st"] obtain sh1 where
    R: "record_outcome p (pause_once args st) sh = (Inr ?st1, sh1)" "quiet sh1"
    "committed sh1 = (committed sh)\<lparr>ingestion_status := put_status (status_row_of p) (ingestion_status (committed sh))\<rparr>" .
  have S1: "staged to_json F (sts @ [status_row_of p]) d0 = Some (committed sh1)"
    by (simp add: staged_status Cons.prems(2) R(3))
  have all: "F @ pending_batch st @ blocks_of (p # ps) = (F @ pending_batch ?st1) @ blocks_of ps"
    using blocks_of_append [of "[p]" ps] by (simp add: count_outcome_one(1) del: blocks_of_append)
  have c: "counted [p] st ?st1" using count_outcome_one(2) [of p "pause_once args st"] by (simp add: counted_def)
  show ?case
  proof (cases "sa_batch_size args \<le> length (pending_batch ?st1)")
    case False
    then have L: "store_loop to_json args (p # ps) st sh = store_loop to_json args ps ?st1 sh1"
      by (simp add: R(1) flush_if_full_def)
    have sto: "storable to_json (F @ pending_batch ?st1 @ blocks_of ps) d0" using Cons.prems(3) unfolding all by simp
    from Cons.IH [OF R(2) S1 sto] show ?thesis
      unfolding L all using c by (auto intro: counted_Cons)
  next
    case True
    have sto: "storable to_json (F @ pending_batch ?st1) d0"
      using Cons.prems(3) unfolding all by (rule storable_prefix)
    from flush_staged [OF R(2) S1 sto, of "''flush worker panicked''"] obtain sh2 where
      f: "db_blocking ''flush worker panicked'' (no_panic (flush_parsed_batch to_json (pending_batch ?st1))) sh1 = (Inr (), sh2)"
      "quiet sh2" "staged to_json (F @ pending_batch ?st1) (sts @ [status_row_of p]) d0 = Some (committed sh2)" .
    let ?st2 = "?st1\<lparr>pending_batch := []\<rparr>"
    have L: "store_loop to_json args (p # ps) st sh = store_loop to_json args ps ?st2 sh2"
      using True by (simp add: R(1) flush_if_full_def f(1))
    have sto2: "storable to_json ((F @ pending_batch ?st1) @ pending_batch ?st2 @ blocks_of ps) d0"
      using Cons.prems(3) unfolding all by simp
    have c2: "counted [p] st ?st2" using c by (simp add: counted_def)
    from Cons.IH [OF f(2,3) sto2] show ?thesis
      unfolding L all using c2 by (auto intro: counted_Cons)
  qed
qed

lemma store_stage_run:
  assumes "quiet sh" and "storable to_json (blocks_of ps) (committed sh)"
  shows "\<exists>st sh'. store_stage to_json args ps sh = (Inr st, sh') \<and> quiet sh' \<and>
    staged to_json (blocks_of ps) (map status_row_of ps) (committed sh) = Some (committed sh') \<and>
    ingested st = length (blocks_of ps) \<and> ingested_txs st = count_txs (blocks_of ps) \<and>
    skipped st = length (filter is_skipped ps) \<and> failed st = length (filter is_failed ps)"
proof -
  have "staged to_json [] [] (committed sh) = Some (committed sh)" by (simp add: staged_def)
  moreover have "storable to_json ([] @ pending_batch store_init @ blocks_of ps) (committed sh)"
    using assms(2) by (simp add: store_init_def)
  ultimately obtain st sh1 F where L: "store_loop to_json args ps store_init sh = (Inr st, sh1)" "quiet sh1"
    "staged to_json F (map status_row_of ps) (committed sh) = Some (committed sh1)"
    "F @ pending_batch st = blocks_of ps" "counted ps store_init st"
    using store_loop_run [OF assms(1), of to_json "[]" "[]"] by (fastforce simp: store_init_def)
  show ?thesis
  proof (cases "pending_batch st = []")
    case True
    then show ?thesis using L by (auto simp: store_stage_def final_flush_def counted_def store_init_def)
  next
    case False
    have "storable to_json (F @ pending_batch st) (committed sh)" using assms(2) L(4) by simp
    from flush_staged [OF L(2,3) this, of "''flush worker panicked''"] obtain sh2 where
      "db_blocking ''flush worker panicked'' (no_panic (flush_parsed_batch to_json (pending_batch st))) sh1 = (Inr (), sh2)"
      "quiet sh2" "staged to_json (F @ pending_batch st) (map status_row_of ps) (committed sh) = Some (committed sh2)" .
    then show ?thesis using L False by (auto simp: store_stage_def final_flush_def counted_def store_init_def)
  qed
qed

subsection \<open>The steps of a stored block\<close>

definition parsed :: "parsed_block \<Rightarrow> bool" where
  "parsed b \<longleftrightarrow> (\<exists>block. parse_block block = Some b) \<and> length (pb_transactions b) < 2 ^ 31"

lemma parsed_facts:
  assumes "parsed b"
  shows "pairs_ok b" and "map fst (step_pairs b) = pb_signatures b" and "map snd (step_pairs b) = sr_steps (pb_schedule b)"
    and "sr_depth (pb_schedule b) = schedule_depth (sr_steps (pb_schedule b))"
    and "\<And>k. k \<in> set (sr_steps (pb_schedule b)) \<Longrightarrow> k < 2 ^ 31"
proof -
  obtain block where pb: "parse_block block = Some b" using assms by (auto simp: parsed_def)
  obtain r where r: "build_schedule (map tx_locks_of (db_transactions block)) = Some r"
    and b: "pb_transactions b = map (\<lambda>t. (dt_signature t, dt_failed t, dt_program_ids t, None)) (db_transactions block)"
      "pb_signatures b = map dt_signature (db_transactions block)" "pb_schedule b = r"
    using parse_block_Some [of block] by (auto simp: pb)
  note D = build_scheduleD [OF r]
  have len: "length (sr_steps r) = length (db_transactions block)" by (simp add: D(1) length_spec_steps)
  show "pairs_ok b" by (simp add: pairs_ok_def b comp_def)
  show "map fst (step_pairs b) = pb_signatures b" "map snd (step_pairs b) = sr_steps (pb_schedule b)"
    by (simp_all add: step_pairs_def b len)
  show "sr_depth (pb_schedule b) = schedule_depth (sr_steps (pb_schedule b))" by (simp add: b D(2))
  fix k assume "k \<in> set (sr_steps (pb_schedule b))"
  then obtain j where "j < length (db_transactions block)" "k = sr_steps r ! j" by (auto simp: b in_set_conv_nth len)
  then have "k < length (db_transactions block)"
    using sched.step_le_index [of j "map tx_locks_of (db_transactions block)"] by (simp add: D(1))
  moreover have "length (db_transactions block) < 2 ^ 31" using assms by (simp add: parsed_def b)
  ultimately show "k < 2 ^ 31" by linarith
qed

lemma usize_as_i32_small: "k < 2 ^ 31 \<Longrightarrow> usize_as_i32 k = int k"
  by (simp add: usize_as_i32_def signed_of_nat signed_take_bit_int_eq_self_iff)

lemma map_of_step_pairs:
  assumes "b \<in> set bs" and "distinct (concat (map pb_signatures bs))" and "\<forall>b\<in>set bs. parsed b"
    and "(sig, k) \<in> set (step_pairs b)"
  shows "map_of (rev (concat (map step_pairs bs))) sig = Some k"
proof -
  have "map fst (concat (map step_pairs bs)) = concat (map pb_signatures bs)"
    using assms(3) by (induction bs) (simp_all add: parsed_facts(2))
  then have "distinct (map fst (rev (concat (map step_pairs bs))))"
    using assms(2) by (simp only: rev_map [symmetric] distinct_rev)
  moreover have "(sig, k) \<in> set (rev (concat (map step_pairs bs)))" using assms(1,4) by auto
  ultimately show ?thesis by simp
qed

lemma map_filter_Some: "map f xs = map Some ys \<Longrightarrow> List.map_filter f xs = ys"
  by (induction xs arbitrary: ys) (auto simp: List.map_filter_simps split: option.split)

lemma schedule_depth_Max: "schedule_depth ss = (if ss = [] then 0 else Max (set ss) + 1)"
  by (cases ss) (simp_all add: schedule_depth_def Max.set_eq_fold [symmetric])

lemma max_step_of_rows:
  assumes "map (\<lambda>r. (tr_signature r, tr_step r)) (filter (\<lambda>r. tr_slot r = u64_as_i64 slot) (transactions d)) =
    map (\<lambda>(sig, k). (sig, Some (int k))) ps"
  shows "nat (max 0 (max_step slot slot d + 1)) = schedule_depth (map snd ps)"
proof -
  let ?rows = "filter (\<lambda>r. tr_slot r = u64_as_i64 slot) (transactions d)"
  have "map tr_step ?rows = map snd (map (\<lambda>r. (tr_signature r, tr_step r)) ?rows)" by simp
  also have "\<dots> = map Some (map int (map snd ps))" unfolding assms by auto
  finally have "map tr_step ?rows = map Some (map int (map snd ps))" .
  from map_filter_Some [OF this] have "List.map_filter tr_step ?rows = map int (map snd ps)" .
  then have steps: "max_step slot slot d = (if ps = [] then -1 else Max (int ` set (map snd ps)))"
    by (simp add: max_step_def between_same image_image)
  show ?thesis
  proof (cases "ps = []")
    case False
    then have "Max (int ` set (map snd ps)) = int (Max (set (map snd ps)))"
      by (intro mono_Max_commute [symmetric]) (auto simp: mono_def)
    then show ?thesis using False by (simp add: steps schedule_depth_Max del: set_map)
  qed (simp add: steps schedule_depth_Max)
qed

lemma staged_block_steps:
  assumes "staged to_json bs sts d0 = Some d" and "storable to_json bs d0" and "batch_ok (map slot_row bs)"
    and "\<forall>b\<in>set bs. parsed b" and b: "b \<in> set bs"
  shows "map (\<lambda>r. (tr_signature r, tr_step r)) (filter (\<lambda>r. tr_slot r = u64_as_i64 (pb_slot b)) (transactions d)) =
    map (\<lambda>(sig, k). (sig, Some (int k))) (step_pairs b)"
proof -
  let ?ps = "concat (map step_pairs bs)"
  obtain d1 where d1: "replace_all to_json (map slot_row bs) d0 = Some d1"
    "transactions d = map (step_update ?ps) (transactions d1)"
    using assms(1) by (auto simp: staged_def apply_steps_eq)
  have row: "slot_row b \<in> set (map slot_row bs)" using b by simp
  have slot: "sb_slot (slot_row b) = pb_slot b" by (simp add: slot_row_def)
  have "filter (\<lambda>r. tr_slot r = u64_as_i64 (pb_slot b)) (transactions d) =
      map (step_update ?ps) (new_transactions to_json (slot_row b))"
    using replace_all_slot_rows(1) [OF assms(3) d1(1) row] by (simp add: d1(2) filter_map comp_def slot)
  also have "map (\<lambda>r. (tr_signature r, tr_step r)) \<dots> = map (\<lambda>(sig, k). (sig, Some (int k))) (step_pairs b)"
  proof (rule nth_equalityI)
    have sigs: "map tr_signature (new_transactions to_json (slot_row b)) = map fst (step_pairs b)"
      using parsed_facts(1,2) assms(4) b by (simp add: new_transactions_sigs pairs_ok_def)
    then have len: "length (new_transactions to_json (slot_row b)) = length (step_pairs b)" by (rule map_eq_imp_length_eq)
    then show "length (map (\<lambda>r. (tr_signature r, tr_step r)) (map (step_update ?ps) (new_transactions to_json (slot_row b)))) =
        length (map (\<lambda>(sig, k). (sig, Some (int k))) (step_pairs b))" by simp
    fix i assume "i < length (map (\<lambda>r. (tr_signature r, tr_step r)) (map (step_update ?ps) (new_transactions to_json (slot_row b))))"
    then have i: "i < length (step_pairs b)" by (simp add: len)
    obtain sig k where p: "step_pairs b ! i = (sig, k)" by fastforce
    then have m: "(sig, k) \<in> set (step_pairs b)" using i nth_mem by metis
    have s: "tr_signature (new_transactions to_json (slot_row b) ! i) = sig"
      using sigs i len p by (metis fst_conv nth_map)
    have "k \<in> set (sr_steps (pb_schedule b))" using m parsed_facts(3) assms(4) b by (metis image_eqI list.set_map snd_conv)
    then have "k < 2 ^ 31" using parsed_facts(5) assms(4) b by blast
    moreover have "map_of (rev ?ps) sig = Some k"
      using map_of_step_pairs [OF b _ assms(4) m] assms(2) by (simp add: storable_def)
    ultimately have "tr_step (step_update ?ps (new_transactions to_json (slot_row b) ! i)) = Some (int k)"
      by (simp add: step_update_def s usize_as_i32_small)
    then show "map (\<lambda>r. (tr_signature r, tr_step r)) (map (step_update ?ps) (new_transactions to_json (slot_row b))) ! i =
        map (\<lambda>(sig, k). (sig, Some (int k))) (step_pairs b) ! i"
      using i len p s by simp
  qed
  finally show ?thesis .
qed

subsection \<open>Runs under any engine faults\<close>

text \<open>Everything stored for one slot, up to the steps, and what a whole block leaves there.\<close>

definition clear_step :: "transaction_row \<Rightarrow> transaction_row" where
  "clear_step r = r\<lparr>tr_step := None\<rparr>"

definition slot_view ::
  "int \<Rightarrow> db \<Rightarrow> block_row option \<times> transaction_row list \<times> account_lock_row list \<times> token_balance_row list" where
  "slot_view s d =
     (map_of (map (\<lambda>x. (bl_slot x, x)) (blocks d)) s, map clear_step (filter (\<lambda>r. tr_slot r = s) (transactions d)),
      filter (\<lambda>r. al_slot r = s) (account_locks d), filter (\<lambda>r. tb_slot r = s) (token_balance_changes d))"

definition block_view ::
  "(string list \<Rightarrow> string option) \<Rightarrow> slot_batch_row \<Rightarrow>
     block_row option \<times> transaction_row list \<times> account_lock_row list \<times> token_balance_row list" where
  "block_view to_json row =
     (Some (new_block row), map clear_step (new_transactions to_json row), new_locks row, new_balances row)"

lemma slot_view_steps [simp]: "slot_view s (d\<lparr>transactions := apply_steps ps (transactions d)\<rparr>) = slot_view s d"
proof -
  have "clear_step (step_update ps r) = clear_step r" for r by (simp add: clear_step_def step_update_def split: option.split)
  then show ?thesis by (simp add: slot_view_def apply_steps_eq filter_map comp_def)
qed

lemma slot_view_status [simp]: "slot_view s (d\<lparr>ingestion_status := x\<rparr>) = slot_view s d"
  by (simp add: slot_view_def)

lemma replace_all_view:
  assumes "batch_ok batch" and "replace_all to_json batch d = Some d'"
  shows "row \<in> set batch \<Longrightarrow> slot_view (u64_as_i64 (sb_slot row)) d' = block_view to_json row"
    and "outside batch s \<Longrightarrow> slot_view s d' = slot_view s d"
proof -
  show "slot_view (u64_as_i64 (sb_slot row)) d' = block_view to_json row" if row: "row \<in> set batch"
    using replace_all_slot_rows [OF assms row] replace_all_blocks(1) [OF assms row]
    by (simp add: slot_view_def block_view_def)
  show "slot_view s d' = slot_view s d" if out: "outside batch s"
  proof -
    note blk = replace_all_blocks(2) [OF assms out]
    have keep: "filter (\<lambda>r. f r = s) (filter (\<lambda>r. outside batch (f r)) t @ concat (map g batch)) = filter (\<lambda>r. f r = s) t"
      if g: "\<And>row r. r \<in> set (g row) \<Longrightarrow> f r = u64_as_i64 (sb_slot row)" for f :: "'r \<Rightarrow> int" and g t
    proof -
      have "filter (\<lambda>r. f r = s) (concat (map g batch)) = []"
        using out g by (force simp: filter_empty_conv outside_def)
      moreover have "filter (\<lambda>r. f r = s) (filter (\<lambda>r. outside batch (f r)) t) = filter (\<lambda>r. f r = s) t"
        using out by (auto simp: filter_filter intro: filter_cong)
      ultimately show ?thesis by simp
    qed
    note T = replace_all_tables [OF assms]
    have "filter (\<lambda>r. tr_slot r = s) (transactions d') = filter (\<lambda>r. tr_slot r = s) (transactions d)"
      unfolding conjunct1 [OF T] by (rule keep) (rule new_rows_slot)
    moreover have "filter (\<lambda>r. al_slot r = s) (account_locks d') = filter (\<lambda>r. al_slot r = s) (account_locks d)"
      unfolding conjunct1 [OF conjunct2 [OF T]] by (rule keep) (rule new_rows_slot)
    moreover have "filter (\<lambda>r. tb_slot r = s) (token_balance_changes d') = filter (\<lambda>r. tb_slot r = s) (token_balance_changes d)"
      unfolding conjunct1 [OF conjunct2 [OF conjunct2 [OF T]]] by (rule keep) (rule new_rows_slot)
    ultimately show ?thesis using blk by (simp add: slot_view_def)
  qed
qed

text \<open>Every slot holds what it held in \<open>d0\<close> or one whole block of \<open>B\<close>.\<close>

definition untorn ::
  "(string list \<Rightarrow> string option) \<Rightarrow> parsed_block set \<Rightarrow> db \<Rightarrow> db \<Rightarrow> bool" where
  "untorn to_json B d0 d \<longleftrightarrow>
     (\<forall>s. slot_view s d = slot_view s d0 \<or>
        (\<exists>b\<in>B. s = u64_as_i64 (pb_slot b) \<and> slot_view s d = block_view to_json (slot_row b)))"

lemma write_all_steps_any:
  "cn_txn c = Idle \<Longrightarrow> write_all_steps bs c = (r, c') \<Longrightarrow>
     cn_txn c' = Idle \<and>
     (\<exists>ps. cn_committed c' = (cn_committed c)\<lparr>transactions := apply_steps ps (transactions (cn_committed c))\<rparr>)"
proof (induction bs arbitrary: c)
  case Nil
  then show ?case by (auto intro!: exI [of _ "[]"])
next
  case (Cons b bs)
  obtain r1 c1 where 1: "write_steps (step_pairs b) c = (r1, c1)" by fastforce
  from write_steps_run [OF Cons.prems(1) 1] obtain ps where W: "cn_txn c1 = Idle"
    "cn_committed c1 = (cn_committed c)\<lparr>transactions := apply_steps ps (transactions (cn_committed c))\<rparr>" by blast
  show ?case
  proof (cases r1)
    case (Inl e)
    then have "c' = c1" using Cons.prems(2) 1 by (simp add: and_then_def write_schedule_steps_def step_pairs_def)
    then show ?thesis using W by blast
  next
    case (Inr u)
    then have "write_all_steps bs c1 = (r, c')"
      using Cons.prems(2) 1 by (simp add: and_then_def write_schedule_steps_def step_pairs_def)
    from Cons.IH [OF W(1) this] obtain qs where "cn_txn c' = Idle"
      "cn_committed c' = (cn_committed c1)\<lparr>transactions := apply_steps qs (transactions (cn_committed c1))\<rparr>" by blast
    then show ?thesis unfolding W(2) by (auto simp: apply_steps_append [symmetric])
  qed
qed

lemma flush_untorn:
  assumes "cn_txn c = Idle" and "flush_parsed_batch to_json bs c = (r, c')"
    and "batch_ok (map slot_row bs)" and "set bs \<subseteq> B" and "untorn to_json B d0 (cn_committed c)"
  shows "cn_txn c' = Idle" and "untorn to_json B d0 (cn_committed c')"
proof -
  obtain r1 c1 where 1: "replace_slots_batch to_json (map slot_row bs) c = (r1, c1)" by fastforce
  note R = replace_slots_batch_run [OF assms(1) 1]
  have "cn_txn c' = Idle \<and> untorn to_json B d0 (cn_committed c')"
  proof (cases r1)
    case (Inl e)
    then show ?thesis using assms(2,5) 1 R by (auto simp: flush_parsed_batch_def and_then_def)
  next
    case (Inr u)
    then have w: "write_all_steps bs c1 = (r, c')" using assms(2) 1 by (simp add: flush_parsed_batch_def and_then_def)
    have d1: "cn_txn c1 = Idle" "replace_all to_json (map slot_row bs) (cn_committed c) = Some (cn_committed c1)"
      using R Inr by auto
    from write_all_steps_any [OF d1(1) w] have c': "cn_txn c' = Idle"
      "slot_view s (cn_committed c') = slot_view s (cn_committed c1)" for s by (auto simp del: fun_upd_apply)
    have "slot_view s (cn_committed c1) = slot_view s d0 \<or>
        (\<exists>b\<in>B. s = u64_as_i64 (pb_slot b) \<and> slot_view s (cn_committed c1) = block_view to_json (slot_row b))" for s
    proof (cases "outside (map slot_row bs) s")
      case True
      then show ?thesis using replace_all_view(2) [OF assms(3) d1(2) True] assms(5) by (simp add: untorn_def)
    next
      case False
      then obtain b where b: "b \<in> set bs" "s = u64_as_i64 (sb_slot (slot_row b))" by (auto simp: outside_def)
      then show ?thesis
        using replace_all_view(1) [OF assms(3) d1(2), of "slot_row b"] assms(4) by (auto simp: slot_row_def)
    qed
    then show ?thesis using c' by (simp add: untorn_def)
  qed
  then show "cn_txn c' = Idle" and "untorn to_json B d0 (cn_committed c')" by simp_all
qed

text \<open>The invariant of the store task, whatever fails.\<close>

definition store_inv ::
  "(string list \<Rightarrow> string option) \<Rightarrow> parsed_block set \<Rightarrow> db \<Rightarrow> shared \<Rightarrow> bool" where
  "store_inv to_json B d0 sh \<longleftrightarrow> cn_txn (mx_conn sh) = Idle \<and> untorn to_json B d0 (committed sh)"

lemma db_blocking_inv:
  assumes "\<And>r c'. m (mx_conn sh) = (r, c') \<Longrightarrow> cn_txn c' = Idle \<and> untorn to_json B d0 (cn_committed c')"
    and "store_inv to_json B d0 sh" and "db_blocking ctx (no_panic m) sh = (r, sh')"
  shows "store_inv to_json B d0 sh'"
  using blocking.run_keeps [where P = "\<lambda>c. cn_txn c = Idle \<and> untorn to_json B d0 (cn_committed c)", OF _ _ assms(3)] assms(1,2)
  by (fastforce simp: store_inv_def no_panic_def split: prod.splits)

lemma record_outcome_inv:
  assumes "store_inv to_json B d0 sh" and "record_outcome p st sh = (r, sh')"
  shows "store_inv to_json B d0 sh'"
proof -
  obtain slot status memo where s: "status_of p = (slot, status, memo)" by (cases "status_of p") auto
  obtain r1 where d: "db_blocking ''db worker panicked'' (no_panic (upsert_ingestion_status slot status memo)) sh = (r1, sh')"
    using assms(2) by (auto simp: record_outcome_def s split: prod.splits sum.splits)
  show ?thesis
  proof (rule db_blocking_inv [OF _ assms(1) d])
    fix r c' assume m: "upsert_ingestion_status slot status memo (mx_conn sh) = (r, c')"
    have idle: "cn_txn (mx_conn sh) = Idle" using assms(1) by (simp add: store_inv_def)
    note E = execute_idle [OF idle m [unfolded upsert_ingestion_status_def]]
    have "cn_committed c' = committed sh \<or> (\<exists>x. cn_committed c' = (committed sh)\<lparr>ingestion_status := x\<rparr>)"
      using E(3,4) by (metis option.inject)
    then have "slot_view s (cn_committed c') = slot_view s (committed sh)" for s by auto
    then show "cn_txn c' = Idle \<and> untorn to_json B d0 (cn_committed c')"
      using E(1) assms(1) by (simp add: store_inv_def untorn_def)
  qed
qed

lemma flush_inv:
  assumes "store_inv to_json B d0 sh" and "batch_ok (map slot_row bs)" and "set bs \<subseteq> B"
    and "db_blocking ctx (no_panic (flush_parsed_batch to_json bs)) sh = (r, sh')"
  shows "store_inv to_json B d0 sh'"
proof (rule db_blocking_inv [OF _ assms(1,4)])
  fix r c' assume "flush_parsed_batch to_json bs (mx_conn sh) = (r, c')"
  from flush_untorn [OF _ this assms(2,3)] assms(1)
  show "cn_txn c' = Idle \<and> untorn to_json B d0 (cn_committed c')" by (auto simp: store_inv_def)
qed

lemma batch_ok_parts: "batch_ok (xs @ ys) \<Longrightarrow> batch_ok xs \<and> batch_ok ys"
  by (auto simp: batch_ok_def)

lemma pending_after:
  "record_outcome p st sh = (Inr st1, sh1) \<Longrightarrow> pending_batch st1 = pending_batch st @ blocks_of [p]"
  using count_outcome_one(1) [of p st] by (auto simp: record_outcome_def split: prod.splits sum.splits)

lemma store_loop_inv:
  "store_inv to_json B d0 sh \<Longrightarrow> batch_ok (map slot_row (pending_batch st @ blocks_of ps)) \<Longrightarrow>
     set (pending_batch st @ blocks_of ps) \<subseteq> B \<Longrightarrow> store_loop to_json args ps st sh = (r, sh') \<Longrightarrow>
     store_inv to_json B d0 sh' \<and>
     (\<forall>st'. r = Inr st' \<longrightarrow> batch_ok (map slot_row (pending_batch st')) \<and> set (pending_batch st') \<subseteq> B)"
proof (induction ps arbitrary: st sh)
  case (Cons p ps)
  have split: "blocks_of (p # ps) = blocks_of [p] @ blocks_of ps" using blocks_of_append [of "[p]" ps] by simp
  obtain r1 sh1 where 1: "record_outcome p (pause_once args st) sh = (r1, sh1)" by fastforce
  note I1 = record_outcome_inv [OF Cons.prems(1) 1]
  show ?case
  proof (cases r1)
    case (Inl e)
    then show ?thesis using Cons.prems(4) 1 I1 by auto
  next
    case (Inr st1)
    have p1: "pending_batch st1 = pending_batch st @ blocks_of [p]"
      using pending_after [OF 1 [unfolded Inr]] by simp
    have ok1: "batch_ok (map slot_row (pending_batch st1 @ blocks_of ps))" "set (pending_batch st1 @ blocks_of ps) \<subseteq> B"
      using Cons.prems(2,3) unfolding split p1 by simp_all
    show ?thesis
    proof (cases "sa_batch_size args \<le> length (pending_batch st1)")
      case False
      then have "store_loop to_json args ps st1 sh1 = (r, sh')" using Cons.prems(4) 1 Inr by (simp add: flush_if_full_def)
      then show ?thesis using Cons.IH [OF I1 ok1] by simp
    next
      case True
      obtain r2 sh2 where 2: "db_blocking ''flush worker panicked'' (no_panic (flush_parsed_batch to_json (pending_batch st1))) sh1 = (r2, sh2)"
        by fastforce
      have I2: "store_inv to_json B d0 sh2" using ok1 by (intro flush_inv [OF I1 _ _ 2]) (auto dest: batch_ok_parts)
      have ok2: "batch_ok (map slot_row (pending_batch (st1\<lparr>pending_batch := []\<rparr>) @ blocks_of ps))"
        "set (pending_batch (st1\<lparr>pending_batch := []\<rparr>) @ blocks_of ps) \<subseteq> B"
        using ok1 by (auto dest: batch_ok_parts)
      have L: "store_loop to_json args (p # ps) st sh =
        (case r2 of Inl (WorkerPanicked e) \<Rightarrow> (Inl (WorkerPanicked e), sh2)
         | _ \<Rightarrow> store_loop to_json args ps (st1\<lparr>pending_batch := []\<rparr>) sh2)"
        using True by (simp add: 1 Inr flush_if_full_def 2 split: sum.split cli_error.split)
      show ?thesis
      proof (cases "\<exists>e. r2 = Inl (WorkerPanicked e)")
        case True
        then show ?thesis using Cons.prems(4) L I2 by auto
      next
        case False
        then have "store_loop to_json args ps (st1\<lparr>pending_batch := []\<rparr>) sh2 = (r, sh')"
          using Cons.prems(4) L by (auto split: sum.splits cli_error.splits)
        then show ?thesis using Cons.IH [OF I2 ok2] by simp
      qed
    qed
  qed
qed auto

subsection \<open>Properties\<close>

text \<open>
  C18. Batching is transparent and loses nothing: on a healthy connection, storing any sequence of outcomes
  with any batch size (zero included) leaves the database that one single batch of all the blocks
  would, with the steps of every block and one status row per slot, the last one reported; the run
  succeeds and its four counters are exact.
\<close>

theorem store_stage_equals_one_batch:
  assumes "quiet sh" and "storable to_json (blocks_of ps) (committed sh)"
  shows "\<exists>st sh'. store_stage to_json args ps sh = (Inr st, sh') \<and> quiet sh' \<and>
    staged to_json (blocks_of ps) (map status_row_of ps) (committed sh) = Some (committed sh') \<and>
    ingested st = length (blocks_of ps) \<and> ingested_txs st = count_txs (blocks_of ps) \<and>
    skipped st = length (filter is_skipped ps) \<and> failed st = length (filter is_failed ps)"
  using assms by (rule store_stage_run)

text \<open>
  C13. What is stored is the block's schedule: after a run on a healthy connection, the
  transactions of every ingested slot carry exactly the steps that \<open>build_schedule\<close> gave them, in block order, and
  the depth the API reports for the slot is the depth of that schedule.
\<close>

theorem stored_steps_are_the_schedule:
  assumes "quiet sh" and "storable to_json (blocks_of ps) (committed sh)"
    and "batch_ok (map slot_row (blocks_of ps))" and "\<forall>b\<in>set (blocks_of ps). parsed b"
    and "store_stage to_json args ps sh = (Inr st, sh')" and "b \<in> set (blocks_of ps)"
  shows "map (\<lambda>r. (tr_signature r, tr_step r))
      (filter (\<lambda>r. tr_slot r = u64_as_i64 (pb_slot b)) (transactions (committed sh'))) =
      map (\<lambda>(sig, k). (sig, Some (int k))) (step_pairs b) \<and>
    cs_depth (query_contention_summary (pb_slot b) (pb_slot b) (committed sh')) = sr_depth (pb_schedule b)"
proof -
  have "staged to_json (blocks_of ps) (map status_row_of ps) (committed sh) = Some (committed sh')"
    using store_stage_run [OF assms(1,2), of args] assms(5) by auto
  note rows = staged_block_steps [OF this assms(2-4,6)]
  have ok: "parsed b" using assms(4,6) by blast
  show ?thesis using rows max_step_of_rows [OF rows] parsed_facts(3,4) [OF ok]
    by (simp add: query_contention_summary_def)
qed

text \<open>
  C2. No torn block, whatever fails: under any engine faults, constraint violations and panics, and
  whether the run ends in success or in an error, each slot holds afterwards exactly what it held before or the
  whole of one of the run's blocks (block row, transactions, locks and netted balances together;
  only the steps of its transactions may be missing).
\<close>

theorem store_stage_never_tears_a_block:
  assumes "cn_txn (mx_conn sh) = Idle" and "batch_ok (map slot_row (blocks_of ps))"
    and "store_stage to_json args ps sh = (r, sh')"
  shows "slot_view s (committed sh') = slot_view s (committed sh) \<or>
    (\<exists>b\<in>set (blocks_of ps). s = u64_as_i64 (pb_slot b) \<and>
       slot_view s (committed sh') = block_view to_json (slot_row b))"
proof -
  let ?B = "set (blocks_of ps)"
  have I: "store_inv to_json ?B (committed sh) sh" using assms(1) by (simp add: store_inv_def untorn_def)
  obtain r1 sh1 where 1: "store_loop to_json args ps store_init sh = (r1, sh1)" by fastforce
  have L: "store_inv to_json ?B (committed sh) sh1"
    "\<And>st. r1 = Inr st \<Longrightarrow> batch_ok (map slot_row (pending_batch st)) \<and> set (pending_batch st) \<subseteq> ?B"
    using store_loop_inv [OF I _ _ 1] assms(2) by (auto simp: store_init_def)
  have "store_inv to_json ?B (committed sh) sh'"
  proof (cases "\<exists>st. r1 = Inr st \<and> pending_batch st \<noteq> []")
    case True
    then obtain st where st: "r1 = Inr st" "pending_batch st \<noteq> []" by blast
    obtain r2 where "db_blocking ''flush worker panicked'' (no_panic (flush_parsed_batch to_json (pending_batch st))) sh1 = (r2, sh')"
      using assms(3) st by (auto simp: store_stage_def 1 final_flush_def split: prod.splits sum.splits)
    then show ?thesis using flush_inv [OF L(1)] L(2) [OF st(1)] by blast
  next
    case False
    then show ?thesis using assms(3) L(1) by (auto simp: store_stage_def 1 final_flush_def split: sum.splits)
  qed
  then show ?thesis by (simp add: store_inv_def untorn_def)
qed

subsection \<open>An example block\<close>

definition sample_tx :: "string \<Rightarrow> bool \<Rightarrow> token_balance_change list \<Rightarrow> decoded_transaction" where
  "sample_tx sig f deltas =
     \<lparr>dt_signature = sig, dt_slot = 3, dt_block_time = Some 100, dt_program_ids = [''P''],
      dt_locks = [\<lparr>cl_account = ''X'', cl_is_writable = True\<rparr>], dt_token_deltas = deltas, dt_failed = f\<rparr>"

definition sample_decoded :: decoded_block where
  "sample_decoded = \<lparr>db_slot = 3, db_block_time = Some 100, db_transactions =
     [sample_tx ''t1'' False [\<lparr>tbc_mint = ''M'', tbc_pre_amount = 0, tbc_post_amount = 5, tbc_decimals = 6\<rparr>],
      sample_tx ''t2'' True []]\<rparr>"

definition sample_parsed :: parsed_block where
  "sample_parsed = the (parse_block sample_decoded)"

lemma sample_parse:
  "parse_block sample_decoded = Some sample_parsed" "pb_slot sample_parsed = 3"
  "pb_transactions sample_parsed = [(''t1'', False, [''P''], None), (''t2'', True, [''P''], None)]"
  "pb_locks sample_parsed = [(''t1'', ''X'', True), (''t2'', ''X'', True)]"
  "pb_token_changes sample_parsed = [(''t1'', ''M'', 0, 5, 6)]" "pb_signatures sample_parsed = [''t1'', ''t2'']"
  "build_schedule (map tx_locks_of (db_transactions sample_decoded)) = Some (pb_schedule sample_parsed)"
  "pb_block_time sample_parsed = Some 100"
  using parse_block_Some [of sample_decoded]
  by (auto simp: sample_parsed_def sample_decoded_def sample_tx_def lock_tuples_def token_tuples_def)

lemma sample_depth: "sr_depth (pb_schedule sample_parsed) = 2"
proof -
  have "schedule_depth (spec_steps [] (map tx_locks_of (db_transactions sample_decoded))) = 2" by code_simp
  then show ?thesis using build_scheduleD [OF sample_parse(7)] by simp
qed

definition fresh_shared :: shared where
  "fresh_shared = \<lparr>mx_conn = fresh_conn, mx_poisoned = False\<rparr>"

declare fresh_shared_def [example_defs]

definition sample_outcomes :: "parsed_outcome list" where
  "sample_outcomes = [ParsedSkipped 2, ParsedIngested sample_parsed, ParsedFailed 4 ''timeout'']"

lemma sample_coalesced: "coalesce_token_balance_rows (pb_token_changes sample_parsed) = [(''t1'', ''M'', 0, 5, 6)]"
  by (simp add: sample_parse coalesce_token_balance_rows_def coalesce_row_step_def net_tuple_def i128_as_u64_def Let_def
      map_filter_simps)

lemma sample_storable: "storable example_json (blocks_of sample_outcomes) (committed fresh_shared)"
proof -
  have "replace_slot example_json (slot_row sample_parsed) empty_db \<noteq> None"
    by (simp add: replace_slot_eq new_balances_def slot_row_def sample_coalesced)
      (simp add: json_ok_def example_json_def sample_parse empty_db_def sql_append_def sql_delete_def
        new_transactions_def transaction_row_of_def new_locks_def lock_row_def lock_key_def balance_row_def
        balance_fits_def u64_as_i64_def)
  then show ?thesis
    by (auto simp: storable_def sample_outcomes_def example_defs pairs_ok_def sample_parse)
qed

lemma sample_ok:
  "quiet fresh_shared" "batch_ok (map slot_row (blocks_of sample_outcomes))" "\<forall>b\<in>set (blocks_of sample_outcomes). parsed b"
  "sample_parsed \<in> set (blocks_of sample_outcomes)" "blocks_of sample_outcomes = [sample_parsed]"
  using exI [of "\<lambda>x. parse_block x = Some sample_parsed", OF sample_parse(1)]
  by (auto simp: quiet_def example_defs sample_outcomes_def batch_ok_def slot_row_def parsed_def sample_parse)

definition batch_of :: "nat \<Rightarrow> store_args" where
  "batch_of n = \<lparr>sa_batch_size = n, sa_simulate_pause_secs = 0\<rparr>"

theorem store_stage_equals_one_batch_witness:
  "\<exists>st sh'. store_stage example_json (batch_of 25) sample_outcomes fresh_shared = (Inr st, sh') \<and>
     ingested st = 1 \<and> ingested_txs st = 2 \<and> skipped st = 1 \<and> failed st = 1"
  using store_stage_equals_one_batch [OF sample_ok(1) sample_storable, of "batch_of 25"]
  by (auto simp: sample_outcomes_def count_txs_def sample_parse)

theorem stored_steps_are_the_schedule_witness:
  "\<exists>st sh'. store_stage example_json (batch_of 1) sample_outcomes fresh_shared = (Inr st, sh') \<and>
     cs_depth (query_contention_summary 3 3 (committed sh')) = 2"
proof -
  obtain st sh' where r: "store_stage example_json (batch_of 1) sample_outcomes fresh_shared = (Inr st, sh')"
    using store_stage_run [OF sample_ok(1) sample_storable] by blast
  from stored_steps_are_the_schedule [OF sample_ok(1) sample_storable sample_ok(2,3) r sample_ok(4)]
  show ?thesis using r by (simp add: sample_parse sample_depth)
qed

text \<open>A connection on which the second statement, the first one of the flush, is refused.\<close>

definition failing_shared :: shared where
  "failing_shared = \<lparr>mx_conn = fresh_conn\<lparr>cn_faults := [False, True]\<rparr>, mx_poisoned = False\<rparr>"

declare failing_shared_def [example_defs]

theorem store_stage_never_tears_a_block_witness:
  "\<exists>r sh'. store_stage example_json (batch_of 1) sample_outcomes failing_shared = (r, sh') \<and>
     (slot_view 3 (committed sh') = slot_view 3 empty_db \<or>
      slot_view 3 (committed sh') = block_view example_json (slot_row sample_parsed))"
proof -
  obtain r sh' where r: "store_stage example_json (batch_of 1) sample_outcomes failing_shared = (r, sh')" by fastforce
  have "cn_txn (mx_conn failing_shared) = Idle" by (simp add: example_defs)
  from store_stage_never_tears_a_block [OF this sample_ok(2) r, of 3] show ?thesis
    using r by (auto simp: sample_ok(5) example_defs)
qed

text \<open>
  The status row is written before the data and an error of a flush inside the loop is only
  logged: the run below ends in success, counts the block and leaves it marked as ingested, and nothing of the block is stored.
\<close>

lemma ingested_without_data:
  "\<exists>st sh'. store_stage example_json (batch_of 1) [ParsedIngested sample_parsed] failing_shared = (Inr st, sh') \<and>
     ingested st = 1 \<and> blocks (committed sh') = [] \<and> transactions (committed sh') = [] \<and>
     ingestion_status (committed sh') = [\<lparr>st_slot = 3, st_status = ''ingested'', st_note = None\<rparr>]"
  by (simp add: store_stage_def record_outcome_def db_blocking_def no_panic_def upsert_ingestion_status_def execute_def
      take_fault_def example_defs empty_db_def put_status_def sql_upsert_def sample_parse
      pause_once_def batch_of_def store_init_def flush_if_full_def flush_parsed_batch_def replace_slots_batch_def
      and_then_def begin_transaction_def final_flush_def u64_as_i64_def Let_def)

end
