(* ===== verification/Candle_Stage.thy ===== *)
theory Candle_Stage
  imports Store_Stage
begin

section \<open>The candle pass and the whole ingest run\<close>

text \<open>
  \<open>snapshots_from_balance_rows\<close>, \<open>build_and_store_candles\<close> and the sequence of \<open>run_ingest\<close> in
  \<open>crates/cli/src/main.rs\<close>.  The order in which Rust's \<open>HashMap\<close> iterates is unspecified; the two
  maps that are iterated here take it as an argument, of which only \<open>iterates\<close> is assumed.
\<close>

definition iterates :: "(('k \<rightharpoonup> 'v) \<Rightarrow> ('k \<times> 'v) list) \<Rightarrow> bool" where
  "iterates it \<longleftrightarrow> (\<forall>m. finite (dom m) \<longrightarrow> distinct (map fst (it m)) \<and> map_of (it m) = m)"

subsection \<open>Snapshots\<close>

definition push_balance_row :: "balance_change_row \<Rightarrow> (string \<rightharpoonup> tx_snapshot) \<Rightarrow> (string \<rightharpoonup> tx_snapshot)" where
  "push_balance_row = (\<lambda>(signature, slot, block_time, mint, pre, post, decimals) by_sig.
     (case block_time of
        None \<Rightarrow> by_sig
      | Some t \<Rightarrow>
          let tx = (case by_sig signature of
                      None \<Rightarrow> \<lparr>ts_signature = signature, ts_block_time = t, ts_token_deltas = []\<rparr>
                    | Some tx \<Rightarrow> tx)
          in by_sig(signature \<mapsto> tx\<lparr>ts_token_deltas := ts_token_deltas tx @
               [\<lparr>td_mint = mint, td_pre_amount = pre, td_post_amount = post, td_decimals = decimals\<rparr>]\<rparr>)))"

definition snapshots_from_balance_rows ::
  "((string \<rightharpoonup> tx_snapshot) \<Rightarrow> (string \<times> tx_snapshot) list) \<Rightarrow> balance_change_row list \<Rightarrow> tx_snapshot list" where
  "snapshots_from_balance_rows it rows = map snd (it (fold push_balance_row rows Map.empty))"

subsection \<open>The candle pass\<close>

fun store_series :: "int \<Rightarrow> (string \<times> candle list) list \<Rightarrow> unit repo" where
  "store_series iv [] = Pair (Inr ())"
| "store_series iv ((mint, cs) # rest) = and_then (upsert_candles mint iv cs) (store_series iv rest)"

text \<open>\<open>build_candles\<close> may panic, and the lock is held then.\<close>

fun store_intervals ::
  "((string \<rightharpoonup> candle list) \<Rightarrow> (string \<times> candle list) list) \<Rightarrow> inferred_trade list \<Rightarrow> int list \<Rightarrow> unit job" where
  "store_intervals it trades [] c = (Some (Inr ()), c)"
| "store_intervals it trades (iv # ivs) c =
     (case build_candles trades iv of
        None \<Rightarrow> (None, c)
      | Some by_mint \<Rightarrow>
          (case store_series iv (it by_mint) c of
             (Inl e, c1) \<Rightarrow> (Some (Inl e), c1)
           | (Inr _, c1) \<Rightarrow> store_intervals it trades ivs c1))"

record hash_order =
  ho_snapshots :: "(string \<rightharpoonup> tx_snapshot) \<Rightarrow> (string \<times> tx_snapshot) list"
  ho_candles :: "(string \<rightharpoonup> candle list) \<Rightarrow> (string \<times> candle list) list"

definition build_and_store_candles :: "hash_order \<Rightarrow> nat \<Rightarrow> nat \<Rightarrow> unit job" where
  "build_and_store_candles ho from_slot to_slot c =
     (case query (query_balance_changes_for_range from_slot to_slot) c of
        (Inl e, c1) \<Rightarrow> (Some (Inl e), c1)
      | (Inr rows, c1) \<Rightarrow>
          let trades = concat (map infer_trades (snapshots_from_balance_rows (ho_snapshots ho) rows))
          in store_intervals (ho_candles ho) trades [60, 300] c1)"

subsection \<open>The run\<close>

record ingest_args =
  ia_start_slot :: nat
  ia_count :: nat
  ia_store :: store_args

text \<open>\<open>start_slot.saturating_add(count.saturating_sub(1))\<close>\<close>

definition last_slot :: "nat \<Rightarrow> nat \<Rightarrow> nat" where
  "last_slot start n = min (start + (n - 1)) (2 ^ 64 - 1)"

text \<open>
  What follows the pipeline of theory \<open>Pipeline\<close>: the candle pass and the statistics once the store task has ended
  well.  \<open>run_ingest\<close> puts the store task before it; \<open>ps\<close> are the outcomes that reach that task.  Theory \<open>Command\<close>
  shows that every interleaving of the three tasks ends in this result.
\<close>

definition candle_pass :: "hash_order \<Rightarrow> ingest_args \<Rightarrow> shared \<Rightarrow> (cli_error + unit) \<times> shared" where
  "candle_pass ho args =
     db_blocking ''candle worker panicked''
       (build_and_store_candles ho (ia_start_slot args) (last_slot (ia_start_slot args) (ia_count args)))"

definition read_stats :: "shared \<Rightarrow> (cli_error + db_stats) \<times> shared" where
  "read_stats = db_blocking ''stats worker panicked'' (no_panic (query query_db_stats))"

definition finish_ingest ::
  "hash_order \<Rightarrow> ingest_args \<Rightarrow> store_state \<Rightarrow> shared \<Rightarrow> (cli_error + store_state \<times> db_stats) \<times> shared" where
  "finish_ingest ho args st sh1 =
     (case candle_pass ho args sh1 of
        (Inl e, sh2) \<Rightarrow> (Inl e, sh2)
      | (Inr _, sh2) \<Rightarrow>
          (case read_stats sh2 of
             (Inl e, sh3) \<Rightarrow> (Inl e, sh3)
           | (Inr stats, sh3) \<Rightarrow> (Inr (st, stats), sh3)))"

definition run_ingest ::
  "(string list \<Rightarrow> string option) \<Rightarrow> hash_order \<Rightarrow> ingest_args \<Rightarrow> parsed_outcome list \<Rightarrow> shared \<Rightarrow>
     (cli_error + store_state \<times> db_stats) \<times> shared" where
  "run_ingest to_json ho args ps sh =
     (case store_stage to_json (ia_store args) ps sh of
        (Inl e, sh1) \<Rightarrow> (Inl e, sh1)
      | (Inr st, sh1) \<Rightarrow> finish_ingest ho args st sh1)"

subsection \<open>What the snapshots hold\<close>

definition row_signature :: "balance_change_row \<Rightarrow> string" where
  "row_signature = (\<lambda>(signature, _). signature)"

definition row_time :: "balance_change_row \<Rightarrow> int option" where
  "row_time = (\<lambda>(_, _, t, _). t)"

definition row_delta :: "balance_change_row \<Rightarrow> token_delta" where
  "row_delta = (\<lambda>(_, _, _, mint, pre, post, decimals).
     \<lparr>td_mint = mint, td_pre_amount = pre, td_post_amount = post, td_decimals = decimals\<rparr>)"

definition timed_rows :: "string \<Rightarrow> balance_change_row list \<Rightarrow> balance_change_row list" where
  "timed_rows sig rows = filter (\<lambda>r. row_signature r = sig \<and> row_time r \<noteq> None) rows"

lemma snapshot_map:
  "fold push_balance_row rows Map.empty sig =
     (if timed_rows sig rows = [] then None
      else Some \<lparr>ts_signature = sig, ts_block_time = the (row_time (hd (timed_rows sig rows))),
                 ts_token_deltas = map row_delta (timed_rows sig rows)\<rparr>)"
proof (induction rows rule: rev_induct)
  case (snoc r rows)
  obtain s sl t m a b d where r: "r = (s, sl, t, m, a, b, d)" by (cases r) auto
  show ?case using snoc.IH
    by (cases t) (auto simp: r push_balance_row_def timed_rows_def row_signature_def row_time_def row_delta_def Let_def)
qed (simp add: timed_rows_def)

subsection \<open>What the pass writes\<close>

definition series :: "inferred_trade list \<Rightarrow> int \<Rightarrow> string \<Rightarrow> candle list" where
  "series trades iv mint = (case build_candles trades iv of None \<Rightarrow> []
     | Some by_mint \<Rightarrow> (case by_mint mint of None \<Rightarrow> [] | Some cs \<Rightarrow> cs))"

definition pass_rows ::
  "((string \<rightharpoonup> candle list) \<Rightarrow> (string \<times> candle list) list) \<Rightarrow> inferred_trade list \<Rightarrow> int \<Rightarrow> candle_row list" where
  "pass_rows it trades iv =
     concat (map (\<lambda>(mint, cs). candle_rows mint iv cs) (it (the (build_candles trades iv))))"

lemma store_series_run:
  "cn_txn c = Idle \<Longrightarrow> True \<notin> set (cn_faults c) \<Longrightarrow>
     \<exists>c'. store_series iv ms c = (Inr (), c') \<and> cn_txn c' = Idle \<and> True \<notin> set (cn_faults c') \<and>
       cn_committed c' = (cn_committed c)
         \<lparr>candles := fold put_candle (concat (map (\<lambda>(mint, cs). candle_rows mint iv cs) ms)) (candles (cn_committed c))\<rparr>"
proof (induction ms arbitrary: c)
  case (Cons x ms)
  obtain mint cs where x: "x = (mint, cs)" by fastforce
  obtain r c1 where 1: "upsert_candles mint iv cs c = (r, c1)" by fastforce
  from upsert_candles_run [OF Cons.prems(1) 1] Cons.prems(2) have U: "r = Inr ()" "cn_txn c1 = Idle" "True \<notin> set (cn_faults c1)"
    "cn_committed c1 = (cn_committed c)\<lparr>candles := fold put_candle (candle_rows mint iv cs) (candles (cn_committed c))\<rparr>"
    by auto
  from Cons.IH [OF U(2,3)] show ?case using 1 U(1,4) by (auto simp: x and_then_def)
qed simp

lemma store_intervals_run:
  "cn_txn c = Idle \<Longrightarrow> True \<notin> set (cn_faults c) \<Longrightarrow> \<forall>iv\<in>set ivs. times_ok iv trades \<Longrightarrow>
     \<exists>c'. store_intervals it trades ivs c = (Some (Inr ()), c') \<and> cn_txn c' = Idle \<and> True \<notin> set (cn_faults c') \<and>
       cn_committed c' = (cn_committed c)
         \<lparr>candles := fold put_candle (concat (map (pass_rows it trades) ivs)) (candles (cn_committed c))\<rparr>"
proof (induction ivs arbitrary: c)
  case (Cons iv ivs)
  obtain m where m: "build_candles trades iv = Some m" using build_candles_eq [of iv trades] Cons.prems(3) by auto
  from store_series_run [OF Cons.prems(1,2), of iv "it m"] obtain c1 where
    1: "store_series iv (it m) c = (Inr (), c1)" "cn_txn c1 = Idle" "True \<notin> set (cn_faults c1)"
    "cn_committed c1 = (cn_committed c)\<lparr>candles := fold put_candle (pass_rows it trades iv) (candles (cn_committed c))\<rparr>"
    by (auto simp: pass_rows_def m)
  from Cons.IH [OF 1(2,3)] Cons.prems(3) show ?case using m 1(1,4) by auto
qed simp

lemma build_candles_finite:
  assumes "times_ok iv trades" and "build_candles trades iv = Some m"
  shows "finite (dom m)"
proof -
  obtain f where "m = (\<lambda>mint. if mint \<in> it_mint ` set trades then Some (f mint) else None)"
    using assms(2) unfolding build_candles_eq [OF assms(1)] option.inject by (rule that [OF sym])
  then have "dom m \<subseteq> it_mint ` set trades" by (auto simp: dom_def split: if_splits)
  then show ?thesis by (rule finite_subset) simp
qed

lemma pass_rows_mem:
  assumes "iterates it" and "times_ok iv trades"
  shows "set (pass_rows it trades iv) =
      {\<lparr>cr_mint = mint, cr_interval_sec = iv, cr_candle = k\<rparr> | mint k. k \<in> set (series trades iv mint)}"
    and "distinct (map candle_key (pass_rows it trades iv))"
proof -
  obtain m where m: "build_candles trades iv = Some m" using build_candles_eq [OF assms(2)] by auto
  have it: "distinct (map fst (it m))" "map_of (it m) = m"
    using assms(1) build_candles_finite [OF assms(2) m] by (simp_all add: iterates_def)
  have mem: "(mint, cs) \<in> set (it m) \<longleftrightarrow> m mint = Some cs" for mint cs
    using map_of_eq_Some_iff [OF it(1)] it(2) by metis
  show "set (pass_rows it trades iv) =
      {\<lparr>cr_mint = mint, cr_interval_sec = iv, cr_candle = k\<rparr> | mint k. k \<in> set (series trades iv mint)}"
  proof -
    have "k \<in> set (series trades iv mint) \<longleftrightarrow> (\<exists>cs. (mint, cs) \<in> set (it m) \<and> k \<in> set cs)" for mint k
      by (cases "m mint") (simp_all add: series_def m mem)
    then show ?thesis by (auto simp: pass_rows_def m candle_rows_def)
  qed
  have "distinct (map candle_key (candle_rows mint iv cs))" if "m mint = Some cs" for mint cs
  proof -
    have "distinct (map cd_bucket_start cs)"
      using candles_partition [OF assms(2) m that] strict_sorted_iff by blast
    then show ?thesis by (simp add: candle_rows_def candle_key_def comp_def distinct_map inj_on_def)
  qed
  note row_keys = this
  have fst_key: "fst ` candle_key ` set (candle_rows mint iv cs) \<subseteq> {mint}" for mint cs
    by (auto simp: candle_rows_def candle_key_def)
  have "distinct (map candle_key (concat (map (\<lambda>(mint, cs). candle_rows mint iv cs) ms)))"
    if "distinct (map fst ms)" "\<forall>(mint, cs)\<in>set ms. m mint = Some cs" for ms
    using that
  proof (induction ms)
    case (Cons x ms)
    obtain mint cs where x: "x = (mint, cs)" by fastforce
    have "candle_key ` set (candle_rows mint iv cs) \<inter> candle_key ` set (concat (map (\<lambda>(mint, cs). candle_rows mint iv cs) ms)) = {}"
    proof -
      have "fst ` candle_key ` set (concat (map (\<lambda>(mint, cs). candle_rows mint iv cs) ms)) \<subseteq> fst ` set ms"
        by (auto simp: candle_rows_def candle_key_def image_iff) force
      moreover have "mint \<notin> fst ` set ms" using Cons.prems(1) x by simp
      ultimately show ?thesis using fst_key [of mint cs] by blast
    qed
    then show ?case using Cons row_keys [of mint cs] by (simp add: x)
  qed simp
  moreover have "\<forall>(mint, cs)\<in>set (it m). m mint = Some cs" using mem by auto
  ultimately show "distinct (map candle_key (pass_rows it trades iv))"
    using it(1) by (simp add: pass_rows_def m)
qed

lemma pass_rows_distinct:
  assumes "iterates it" and "\<forall>iv\<in>set ivs. times_ok iv trades" and "distinct ivs"
  shows "distinct (map candle_key (concat (map (pass_rows it trades) ivs)))"
  using assms(2,3)
proof (induction ivs)
  case (Cons iv ivs)
  have iv: "fst (snd k) = iv'" if "k \<in> candle_key ` set (pass_rows it trades iv')" "iv' \<in> set (iv # ivs)" for k iv'
    using that pass_rows_mem(1) [OF assms(1), of iv' trades] Cons.prems(1) by (auto simp: candle_key_def)
  have "candle_key ` set (pass_rows it trades iv) \<inter> candle_key ` set (concat (map (pass_rows it trades) ivs)) = {}"
  proof (rule equals0I)
    fix k assume k: "k \<in> candle_key ` set (pass_rows it trades iv) \<inter> candle_key ` set (concat (map (pass_rows it trades) ivs))"
    from IntD2 [OF k] obtain iv' where "iv' \<in> set ivs" "k \<in> candle_key ` set (pass_rows it trades iv')"
      unfolding set_concat set_map by blast
    then show False using iv [OF IntD1 [OF k]] iv [of k iv'] Cons.prems(2) by simp
  qed
  moreover have "distinct (map candle_key (pass_rows it trades iv))"
    using Cons.prems(1) by (intro pass_rows_mem(2) [OF assms(1)]) simp
  ultimately show ?case using Cons by simp
qed simp

definition range_trades :: "hash_order \<Rightarrow> nat \<Rightarrow> nat \<Rightarrow> db \<Rightarrow> inferred_trade list" where
  "range_trades ho from_slot to_slot d =
     concat (map infer_trades (snapshots_from_balance_rows (ho_snapshots ho)
       (query_balance_changes_for_range from_slot to_slot d)))"

lemma candle_pass_run:
  assumes "iterates (ho_candles ho)" and "quiet sh"
    and "\<forall>iv\<in>{60, 300}. times_ok iv (range_trades ho from_slot to_slot (committed sh))"
  obtains sh' where
    "db_blocking ctx (build_and_store_candles ho from_slot to_slot) sh = (Inr (), sh')" "quiet sh'"
    "committed sh' = (committed sh)\<lparr>candles := fold put_candle
       (concat (map (pass_rows (ho_candles ho) (range_trades ho from_slot to_slot (committed sh))) [60, 300]))
       (candles (committed sh))\<rparr>"
proof -
  let ?trades = "range_trades ho from_slot to_slot (committed sh)" and ?c = "mx_conn sh"
  obtain b c1 where t: "take_fault ?c = (b, c1)" by fastforce
  note F = take_fault_facts [OF t]
  have b: "\<not> b" "cn_txn c1 = Idle" "True \<notin> set (cn_faults c1)" using F assms(2) by (auto simp: quiet_def)
  have q: "query (query_balance_changes_for_range from_slot to_slot) ?c =
      (Inr (query_balance_changes_for_range from_slot to_slot (committed sh)), c1)"
    using t b(1) F(1) by (simp add: query_def)
  have "\<forall>iv\<in>set [60, 300]. times_ok iv ?trades" using assms(3) by simp
  from store_intervals_run [OF b(2,3) this, of "ho_candles ho"] obtain c2 where
    c2: "store_intervals (ho_candles ho) ?trades [60, 300] c1 = (Some (Inr ()), c2)" "cn_txn c2 = Idle"
      "True \<notin> set (cn_faults c2)"
      "cn_committed c2 = (cn_committed c1)\<lparr>candles :=
         fold put_candle (concat (map (pass_rows (ho_candles ho) ?trades) [60, 300])) (candles (cn_committed c1))\<rparr>"
    by blast
  have "build_and_store_candles ho from_slot to_slot ?c = (Some (Inr ()), c2)"
    using c2(1) by (simp add: build_and_store_candles_def q range_trades_def Let_def)
  then have "db_blocking ctx (build_and_store_candles ho from_slot to_slot) sh = (Inr (), sh\<lparr>mx_conn := c2\<rparr>)"
    using assms(2) by (simp add: db_blocking_def quiet_def)
  then show thesis using that c2 F(1) assms(2) by (simp add: quiet_def)
qed

text \<open>
  The candle pass over a slot range, on a healthy connection and for every iteration order of
  its hash maps, succeeds and touches no table but the candles: each of the two series of each
  mint holds afterwards exactly the candles of the range's inferred trades and the older candles of other
  windows, strictly ascending in time.  A window that had a candle before keeps only the trades of this range.
\<close>

lemma candle_pass_result:
  assumes "iterates (ho_candles ho)" and "quiet sh" and "db_keys_ok (committed sh)"
    and "\<forall>iv\<in>{60, 300}. times_ok iv (range_trades ho from_slot to_slot (committed sh))"
  shows "\<exists>sh'. db_blocking ctx (build_and_store_candles ho from_slot to_slot) sh = (Inr (), sh') \<and> quiet sh' \<and>
    committed sh' = (committed sh)\<lparr>candles := candles (committed sh')\<rparr> \<and>
    (\<forall>iv\<in>{60, 300}. \<forall>mint.
       sorted_wrt (<) (map cd_bucket_start (query_ohlcv mint iv (committed sh'))) \<and>
       set (query_ohlcv mint iv (committed sh')) =
         (let new = series (range_trades ho from_slot to_slot (committed sh)) iv mint
          in set new \<union> {k \<in> set (query_ohlcv mint iv (committed sh)). cd_bucket_start k \<notin> cd_bucket_start ` set new}))"
proof -
  let ?trades = "range_trades ho from_slot to_slot (committed sh)"
  let ?rows = "concat (map (pass_rows (ho_candles ho) ?trades) [60, 300])"
  obtain sh' where run: "db_blocking ctx (build_and_store_candles ho from_slot to_slot) sh = (Inr (), sh')" "quiet sh'"
    and d': "committed sh' = (committed sh)\<lparr>candles := fold put_candle ?rows (candles (committed sh))\<rparr>"
    using candle_pass_run [OF assms(1,2,4)] by metis
  have "distinct (map candle_key ?rows)" by (rule pass_rows_distinct [OF assms(1)]) (use assms(4) in simp_all)
  note set = candle_tbl.put_all_set [OF this, of "candles (committed sh)"]
  have rows: "r \<in> set ?rows \<longleftrightarrow> cr_interval_sec r \<in> {60, 300} \<and> cr_candle r \<in> set (series ?trades (cr_interval_sec r) (cr_mint r))" for r
    using pass_rows_mem(1) [OF assms(1)] assms(4) by (cases r) auto
  have key: "candle_key r \<in> candle_key ` set ?rows \<longleftrightarrow> cr_interval_sec r \<in> {60, 300} \<and>
      cd_bucket_start (cr_candle r) \<in> cd_bucket_start ` set (series ?trades (cr_interval_sec r) (cr_mint r))" for r
  proof
    assume "candle_key r \<in> candle_key ` set ?rows"
    then obtain r' where "r' \<in> set ?rows" "candle_key r = candle_key r'" by blast
    then show "cr_interval_sec r \<in> {60, 300} \<and>
        cd_bucket_start (cr_candle r) \<in> cd_bucket_start ` set (series ?trades (cr_interval_sec r) (cr_mint r))"
      unfolding rows by (auto simp: candle_key_def)
  next
    assume "cr_interval_sec r \<in> {60, 300} \<and>
        cd_bucket_start (cr_candle r) \<in> cd_bucket_start ` set (series ?trades (cr_interval_sec r) (cr_mint r))"
    then obtain k where k: "cr_interval_sec r \<in> {60, 300}" "k \<in> set (series ?trades (cr_interval_sec r) (cr_mint r))"
      "cd_bucket_start k = cd_bucket_start (cr_candle r)" by auto
    then have "r\<lparr>cr_candle := k\<rparr> \<in> set ?rows" unfolding rows by simp
    moreover have "candle_key r = candle_key (r\<lparr>cr_candle := k\<rparr>)" using k(3) by (simp add: candle_key_def)
    ultimately show "candle_key r \<in> candle_key ` set ?rows" by (metis image_eqI)
  qed
  have dc: "candles (committed sh') = fold put_candle ?rows (candles (committed sh))" unfolding d' by simp
  have "set (query_ohlcv mint iv (committed sh')) =
      (let new = series ?trades iv mint
       in set new \<union> {k \<in> set (query_ohlcv mint iv (committed sh)). cd_bucket_start k \<notin> cd_bucket_start ` set new})"
    if "iv \<in> {60, 300}" for iv mint
  proof (rule set_eqI)
    fix k
    let ?r = "\<lparr>cr_mint = mint, cr_interval_sec = iv, cr_candle = k\<rparr>"
    have "k \<in> set (query_ohlcv mint iv (committed sh')) \<longleftrightarrow>
        ?r \<in> set ?rows \<or> (?r \<in> set (candles (committed sh)) \<and> candle_key ?r \<notin> candle_key ` set ?rows)"
      by (simp only: query_ohlcv_mem dc set Un_iff mem_Collect_eq)
    then show "k \<in> set (query_ohlcv mint iv (committed sh')) \<longleftrightarrow> k \<in> (let new = series ?trades iv mint
        in set new \<union> {k \<in> set (query_ohlcv mint iv (committed sh)). cd_bucket_start k \<notin> cd_bucket_start ` set new})"
      using that by (simp only: rows key query_ohlcv_mem Let_def candle_row.simps simp_thms Un_iff mem_Collect_eq)
  qed
  moreover have "distinct (map candle_key (candles (committed sh')))"
    unfolding d' using assms(3) by (simp add: candle_tbl.put_all_distinct db_keys_ok_def)
  ultimately show ?thesis using run d' query_ohlcv_strict by simp
qed

text \<open>Windows that the pass touches are computed from its range alone.\<close>

lemma series_candle:
  assumes "times_ok iv trades" and "k \<in> set (series trades iv mint)"
  shows "candle_of (cd_bucket_start k) (window_trades trades iv mint (cd_bucket_start k)) = Some k"
proof -
  obtain m where m: "build_candles trades iv = Some m" using build_candles_eq [OF assms(1)] by auto
  then obtain cs where cs: "m mint = Some cs" "k \<in> set cs"
    using assms(2) by (cases "m mint") (simp_all add: series_def)
  from candles_partition [OF assms(1) m cs(1)] cs(2) show ?thesis by blast
qed

lemma series_covers:
  assumes "times_ok iv trades" and "t \<in> set trades"
  shows "window iv (it_block_time t) \<in> cd_bucket_start ` set (series trades iv (it_mint t))"
proof -
  obtain m where m: "build_candles trades iv = Some m" using build_candles_eq [OF assms(1)] by auto
  let ?cs = "series trades iv (it_mint t)"
  have "m (it_mint t) = Some ?cs" using m build_candles_eq [OF assms(1)] assms(2) by (auto simp: series_def)
  note P = candles_partition [OF assms(1) m this]
  have "t \<in># mset (filter (\<lambda>u. it_mint u = it_mint t) trades)" using assms(2) by simp
  then have "t \<in># mset (concat (map (\<lambda>c. window_trades trades iv (it_mint t) (cd_bucket_start c)) ?cs))" using P by metis
  then obtain c where "c \<in> set ?cs" "t \<in> set (window_trades trades iv (it_mint t) (cd_bucket_start c))" by auto
  then show ?thesis by (auto simp: window_trades_def)
qed

lemma touched_window_forgets_other_ranges:
  assumes "iterates (ho_candles ho)" and "quiet sh" and "db_keys_ok (committed sh)"
    and "\<forall>iv\<in>{60, 300}. times_ok iv (range_trades ho from_slot to_slot (committed sh))"
    and "db_blocking ctx (build_and_store_candles ho from_slot to_slot) sh = (Inr (), sh')"
    and "t \<in> set (range_trades ho from_slot to_slot (committed sh))" and "iv \<in> {60, 300}"
    and "k \<in> set (query_ohlcv (it_mint t) iv (committed sh'))" and "cd_bucket_start k = window iv (it_block_time t)"
  shows "candle_of (cd_bucket_start k)
    (window_trades (range_trades ho from_slot to_slot (committed sh)) iv (it_mint t) (cd_bucket_start k)) = Some k"
proof -
  let ?new = "series (range_trades ho from_slot to_slot (committed sh)) iv (it_mint t)"
  have ok: "times_ok iv (range_trades ho from_slot to_slot (committed sh))" using assms(4,7) by blast
  have "k \<in> set ?new \<or> cd_bucket_start k \<notin> cd_bucket_start ` set ?new"
    using candle_pass_result [OF assms(1-4), of ctx] assms(5,7,8) unfolding Let_def by auto
  then have "k \<in> set ?new" using series_covers [OF ok assms(6)] assms(9) by simp
  then show ?thesis by (rule series_candle [OF ok])
qed

subsection \<open>An example range\<close>

text \<open>An iteration order, and one slot with the swap of theory \<open>Ohlcv\<close>.\<close>

definition by_key :: "('k :: linorder \<rightharpoonup> 'v) \<Rightarrow> ('k \<times> 'v) list" where
  "by_key m = map (\<lambda>k. (k, the (m k))) (sorted_list_of_set (dom m))"

lemma iterates_by_key: "iterates by_key"
proof -
  have "map_of (map (\<lambda>k. (k, the (m k))) (sorted_list_of_set (dom m))) k = m k" if "finite (dom m)" for m :: "'k :: linorder \<rightharpoonup> 'v" and k
    using that by (cases "m k") (auto simp: map_of_map_restrict restrict_map_def dom_def)
  then show ?thesis by (auto simp: iterates_def by_key_def comp_def fun_eq_iff)
qed

definition sorted_order :: hash_order where
  "sorted_order = \<lparr>ho_snapshots = by_key, ho_candles = by_key\<rparr>"

definition swap_rows :: "token_balance_row list" where
  "swap_rows = map (balance_row 7 (Some 100))
     [(''s1'', ''TOKEN_A'', 0, 500000, 6), (''s1'', WSOL_MINT, 1000000000, 0, 9)]"

definition swap_shared :: shared where
  "swap_shared = \<lparr>mx_conn = fresh_conn\<lparr>cn_committed := empty_db\<lparr>token_balance_changes := swap_rows\<rparr>\<rparr>, mx_poisoned = False\<rparr>"

declare swap_shared_def [example_defs]

lemma swap_range_trades: "range_trades sorted_order 7 7 (committed swap_shared) = infer_trades swap_tx"
proof -
  have "query_balance_changes_for_range 7 7 (committed swap_shared) =
      [(''s1'', 7, Some 100, ''TOKEN_A'', 0, 500000, 6), (''s1'', 7, Some 100, WSOL_MINT, 1000000000, 0, 9)]"
    by (simp add: query_balance_changes_for_range_def swap_shared_def swap_rows_def balance_row_def between_same
        balance_change_of_def u64_as_i64_def i64_as_u64_def)
  moreover have "fold push_balance_row
      [(''s1'', 7, Some 100, ''TOKEN_A'', 0, 500000, 6), (''s1'', 7, Some 100, WSOL_MINT, 1000000000, 0, 9)] Map.empty =
      [''s1'' \<mapsto> swap_tx]"
    by (simp add: push_balance_row_def swap_tx_def swap_token_def swap_sol_def)
  ultimately show ?thesis
    by (simp add: range_trades_def snapshots_from_balance_rows_def sorted_order_def by_key_def)
qed

lemma swap_times: "\<forall>iv\<in>{60, 300}. times_ok iv (range_trades sorted_order 7 7 (committed swap_shared))"
  by (simp add: swap_range_trades swap_trades times_ok_def)

lemma swap_ok:
  "iterates (ho_candles sorted_order)" "quiet swap_shared" "db_keys_ok (committed swap_shared)"
    by (simp_all add: sorted_order_def iterates_by_key quiet_def example_defs db_keys_ok_def empty_db_def
        swap_rows_def balance_row_def balance_key_def WSOL_MINT_def)

end
