(* ===== verification/Pipeline.thy ===== *)
theory Pipeline
  imports Parse_Stage
begin

section \<open>The bounded pipeline between the stages\<close>

text \<open>
  The three tasks that \<open>run_ingest\<close> of \<open>crates/cli/src/main.rs\<close> spawns and the two bounded
  channels between them, as a step relation over every interleaving.  A send waits for a free
  permit.  The store task may end early with an error; its receiver is then dropped, the parse task
  bails out at its next send and drops its own receiver, and the fetch task goes on and discards
  what it fetches.
\<close>

subsection \<open>Bounded channels\<close>

definition PIPELINE_CAPACITY :: nat where
  "PIPELINE_CAPACITY = 2"

record 'a channel =
  ch_queue :: "'a list"
  ch_sender :: bool
  ch_receiver :: bool

definition new_channel :: "'a channel" where
  "new_channel = \<lparr>ch_queue = [], ch_sender = True, ch_receiver = True\<rparr>"

datatype 'a send_result = Sent "'a channel" | Full | ReceiverDropped

definition channel_send :: "'a \<Rightarrow> 'a channel \<Rightarrow> 'a send_result" where
  "channel_send x ch =
     (if \<not> ch_receiver ch then ReceiverDropped
      else if length (ch_queue ch) < PIPELINE_CAPACITY then Sent (ch\<lparr>ch_queue := ch_queue ch @ [x]\<rparr>)
      else Full)"

datatype 'a recv_result = Received 'a "'a channel" | Empty | Closed

definition channel_recv :: "'a channel \<Rightarrow> 'a recv_result" where
  "channel_recv ch =
     (case ch_queue ch of
        x # xs \<Rightarrow> Received x (ch\<lparr>ch_queue := xs\<rparr>)
      | [] \<Rightarrow> if ch_sender ch then Empty else Closed)"

subsection \<open>The three tasks\<close>

datatype task = Running | Finished | Bailed

text \<open>
  \<open>pl_source\<close> holds the outcomes \<open>fetch_block_range\<close> has yet to hand over, in the order of
  completion; its head is the one a blocked send holds.
\<close>

record pipeline =
  pl_source :: "fetch_outcome list"
  pl_fetched :: "fetch_outcome channel"
  pl_parse :: task
  pl_hand :: "parsed_outcome option"
  pl_parsed :: "parsed_outcome channel"
  pl_store :: task
  pl_stored :: "parsed_outcome list"
  pl_discarded :: "fetch_outcome list"

definition pipeline_init :: "fetch_outcome list \<Rightarrow> pipeline" where
  "pipeline_init outs =
     \<lparr>pl_source = outs, pl_fetched = new_channel, pl_parse = Running, pl_hand = None, pl_parsed = new_channel,
      pl_store = Running, pl_stored = [], pl_discarded = []\<rparr>"

inductive pipeline_step :: "pipeline \<Rightarrow> pipeline \<Rightarrow> bool" where
  fetch_send:
    "pl_source p = x # xs \<Longrightarrow> channel_send x (pl_fetched p) = Sent ch \<Longrightarrow>
       pipeline_step p (p\<lparr>pl_source := xs, pl_fetched := ch\<rparr>)"
| fetch_discard:
    "pl_source p = x # xs \<Longrightarrow> channel_send x (pl_fetched p) = ReceiverDropped \<Longrightarrow>
       pipeline_step p (p\<lparr>pl_source := xs, pl_discarded := pl_discarded p @ [x]\<rparr>)"
| fetch_end:
    "pl_source p = [] \<Longrightarrow> ch_sender (pl_fetched p) \<Longrightarrow>
       pipeline_step p (p\<lparr>pl_fetched := (pl_fetched p)\<lparr>ch_sender := False\<rparr>\<rparr>)"
| parse_recv:
    "pl_parse p = Running \<Longrightarrow> pl_hand p = None \<Longrightarrow> channel_recv (pl_fetched p) = Received x ch \<Longrightarrow>
       parse_outcome x = Some y \<Longrightarrow> pipeline_step p (p\<lparr>pl_fetched := ch, pl_hand := Some y\<rparr>)"
| parse_panic:
    "pl_parse p = Running \<Longrightarrow> pl_hand p = None \<Longrightarrow> channel_recv (pl_fetched p) = Received x ch \<Longrightarrow>
       parse_outcome x = None \<Longrightarrow>
       pipeline_step p (p\<lparr>pl_fetched := ch\<lparr>ch_receiver := False\<rparr>, pl_parse := Bailed,
         pl_parsed := (pl_parsed p)\<lparr>ch_sender := False\<rparr>\<rparr>)"
| parse_send:
    "pl_parse p = Running \<Longrightarrow> pl_hand p = Some y \<Longrightarrow> channel_send y (pl_parsed p) = Sent ch \<Longrightarrow>
       pipeline_step p (p\<lparr>pl_hand := None, pl_parsed := ch\<rparr>)"
| parse_bail:
    "pl_parse p = Running \<Longrightarrow> pl_hand p = Some y \<Longrightarrow> channel_send y (pl_parsed p) = ReceiverDropped \<Longrightarrow>
       pipeline_step p (p\<lparr>pl_hand := None, pl_parse := Bailed, pl_fetched := (pl_fetched p)\<lparr>ch_receiver := False\<rparr>,
         pl_parsed := (pl_parsed p)\<lparr>ch_sender := False\<rparr>\<rparr>)"
| parse_end:
    "pl_parse p = Running \<Longrightarrow> pl_hand p = None \<Longrightarrow> channel_recv (pl_fetched p) = Closed \<Longrightarrow>
       pipeline_step p (p\<lparr>pl_parse := Finished, pl_fetched := (pl_fetched p)\<lparr>ch_receiver := False\<rparr>,
         pl_parsed := (pl_parsed p)\<lparr>ch_sender := False\<rparr>\<rparr>)"
| store_recv:
    "pl_store p = Running \<Longrightarrow> channel_recv (pl_parsed p) = Received y ch \<Longrightarrow>
       pipeline_step p (p\<lparr>pl_parsed := ch, pl_stored := pl_stored p @ [y]\<rparr>)"
| store_error:
    "pl_store p = Running \<Longrightarrow> channel_recv (pl_parsed p) = Received y ch \<Longrightarrow>
       pipeline_step p (p\<lparr>pl_parsed := ch\<lparr>ch_receiver := False\<rparr>, pl_store := Bailed\<rparr>)"
| store_end:
    "pl_store p = Running \<Longrightarrow> channel_recv (pl_parsed p) = Closed \<Longrightarrow>
       pipeline_step p (p\<lparr>pl_parsed := (pl_parsed p)\<lparr>ch_receiver := False\<rparr>, pl_store := Finished\<rparr>)"

inductive_cases pipeline_stepE: "pipeline_step p q"

subsection \<open>Invariant\<close>

definition parsed_of :: "fetch_outcome \<Rightarrow> parsed_outcome" where
  "parsed_of x = the (parse_outcome x)"

lemma parse_outcome_Some: "parse_outcome x = Some (parsed_of x)"
proof (cases x)
  case (Ingested b)
  then show ?thesis using parse_block_Some [of b] by (auto simp: parsed_of_def)
qed (simp_all add: parsed_of_def)

definition hand_list :: "pipeline \<Rightarrow> parsed_outcome list" where
  "hand_list p = (case pl_hand p of None \<Rightarrow> [] | Some y \<Rightarrow> [y])"

text \<open>Everything between the store task and the end of the range, in order.\<close>

definition backlog :: "pipeline \<Rightarrow> parsed_outcome list" where
  "backlog p = ch_queue (pl_parsed p) @ hand_list p @ map parsed_of (ch_queue (pl_fetched p) @ pl_source p)"

definition pipeline_inv :: "fetch_outcome list \<Rightarrow> pipeline \<Rightarrow> bool" where
  "pipeline_inv outs p \<longleftrightarrow>
     length (ch_queue (pl_fetched p)) \<le> PIPELINE_CAPACITY \<and> length (ch_queue (pl_parsed p)) \<le> PIPELINE_CAPACITY \<and>
     (ch_receiver (pl_fetched p) \<longleftrightarrow> pl_parse p = Running) \<and> (ch_sender (pl_parsed p) \<longleftrightarrow> pl_parse p = Running) \<and>
     (ch_receiver (pl_parsed p) \<longleftrightarrow> pl_store p = Running) \<and>
     (\<not> ch_sender (pl_fetched p) \<longrightarrow> pl_source p = []) \<and>
     (pl_parse p = Bailed \<longrightarrow> pl_store p = Bailed) \<and>
     (pl_parse p \<noteq> Running \<longrightarrow> pl_hand p = None) \<and>
     (pl_parse p = Finished \<longrightarrow> ch_queue (pl_fetched p) = [] \<and> pl_source p = [] \<and> \<not> ch_sender (pl_fetched p)) \<and>
     (pl_store p = Finished \<longrightarrow> pl_parse p = Finished \<and> ch_queue (pl_parsed p) = []) \<and>
     (pl_store p \<noteq> Bailed \<longrightarrow> pl_stored p @ backlog p = map parsed_of outs \<and> pl_discarded p = []) \<and>
     prefix (pl_stored p) (map parsed_of outs)"

lemma channel_facts:
  "channel_send x ch = Sent ch' \<Longrightarrow>
     ch' = ch\<lparr>ch_queue := ch_queue ch @ [x]\<rparr> \<and> length (ch_queue ch) < PIPELINE_CAPACITY \<and> ch_receiver ch"
  "channel_send x ch = ReceiverDropped \<Longrightarrow> \<not> ch_receiver ch"
  "channel_recv ch = Received x ch' \<Longrightarrow> ch_queue ch = x # ch_queue ch' \<and> ch = ch'\<lparr>ch_queue := x # ch_queue ch'\<rparr>"
  "channel_recv ch = Closed \<Longrightarrow> ch_queue ch = [] \<and> \<not> ch_sender ch"
  by (auto simp: channel_send_def channel_recv_def split: if_splits list.splits)

lemma pipeline_inv_init: "pipeline_inv outs (pipeline_init outs)"
  by (simp add: pipeline_inv_def pipeline_init_def new_channel_def backlog_def hand_list_def)

lemma pipeline_inv_step:
  assumes "pipeline_step p q" and "pipeline_inv outs p"
  shows "pipeline_inv outs q"
  using assms(1)
proof cases
  case (fetch_send x xs ch)
  then show ?thesis using assms(2) channel_facts(1) [OF fetch_send(3)]
    by (auto simp: pipeline_inv_def backlog_def hand_list_def)
next
  case (fetch_discard x xs)
  then show ?thesis using assms(2) channel_facts(2) [OF fetch_discard(3)]
    by (cases "pl_parse p") (auto simp: pipeline_inv_def)
next
  case fetch_end
  then show ?thesis using assms(2) by (auto simp: pipeline_inv_def backlog_def hand_list_def)
next
  case (parse_recv x ch y)
  then show ?thesis using assms(2) channel_facts(3) [OF parse_recv(4)] parse_outcome_Some [of x]
    by (auto simp: pipeline_inv_def backlog_def hand_list_def)
next
  case (parse_panic x ch)
  then show ?thesis by (simp add: parse_outcome_Some)
next
  case (parse_send y ch)
  then show ?thesis using assms(2) channel_facts(1) [OF parse_send(4)]
    by (auto simp: pipeline_inv_def backlog_def hand_list_def)
next
  case (parse_bail y)
  then show ?thesis using assms(2) channel_facts(2) [OF parse_bail(4)]
    by (cases "pl_store p") (auto simp: pipeline_inv_def)
next
  case parse_end
  then show ?thesis using assms(2) channel_facts(4) [OF parse_end(4)]
    by (auto simp: pipeline_inv_def backlog_def hand_list_def)
next
  case (store_recv y ch)
  then show ?thesis using assms(2) channel_facts(3) [OF store_recv(3)]
    by (auto simp: pipeline_inv_def backlog_def hand_list_def prefix_def)
next
  case (store_error y ch)
  then show ?thesis using assms(2) channel_facts(3) [OF store_error(3)]
    by (auto simp: pipeline_inv_def)
next
  case store_end
  then show ?thesis using assms(2) channel_facts(4) [OF store_end(3)]
    by (cases "pl_parse p") (auto simp: pipeline_inv_def backlog_def hand_list_def)
qed

lemma pipeline_reachable_inv:
  assumes "pipeline_step\<^sup>*\<^sup>* (pipeline_init outs) p"
  shows "pipeline_inv outs p"
  using assms by induction (auto intro: pipeline_inv_init pipeline_inv_step)

subsection \<open>Progress and termination\<close>

definition pipeline_work :: "pipeline \<Rightarrow> nat" where
  "pipeline_work p =
     4 * length (pl_source p) + 3 * length (ch_queue (pl_fetched p)) + 2 * length (hand_list p) +
     length (ch_queue (pl_parsed p)) + (if ch_sender (pl_fetched p) then 1 else 0) +
     (if pl_parse p = Running then 1 else 0) + (if pl_store p = Running then 1 else 0)"

lemma pipeline_work_step: "pipeline_step p q \<Longrightarrow> pipeline_work q < pipeline_work p"
  by (elim pipeline_stepE)
    (auto simp: pipeline_work_def hand_list_def dest!: channel_facts split: option.splits)

lemma parse_idle_moves:
  assumes "pipeline_inv outs p" and "pl_parse p = Running" and "pl_hand p = None"
  shows "\<exists>q. pipeline_step p q"
proof (rule ccontr)
  assume "\<nexists>q. pipeline_step p q"
  note stuck = this [simplified]
  note I = assms(1) [unfolded pipeline_inv_def PIPELINE_CAPACITY_def]
  have "channel_recv (pl_fetched p) \<noteq> Received x ch" "channel_recv (pl_fetched p) \<noteq> Closed" for x ch
    using stuck assms(2,3) parse_outcome_Some by (auto intro: pipeline_step.parse_recv pipeline_step.parse_end)
  then have f: "ch_queue (pl_fetched p) = []" "ch_sender (pl_fetched p)"
    by (auto simp: channel_recv_def split: list.splits if_splits)
  show False
  proof (cases "pl_source p")
    case Nil
    then show False using stuck f by (auto intro: pipeline_step.fetch_end)
  next
    case (Cons x xs)
    have "channel_send x (pl_fetched p) = Sent ((pl_fetched p)\<lparr>ch_queue := [x]\<rparr>)"
      using I assms(2) by (simp add: channel_send_def f PIPELINE_CAPACITY_def)
    then show False using stuck Cons by (auto intro: pipeline_step.fetch_send)
  qed
qed

lemma pipeline_progress:
  assumes "pipeline_inv outs p" and "\<nexists>q. pipeline_step p q"
  shows "pl_source p = []" and "pl_parse p \<noteq> Running" and "pl_store p \<noteq> Running"
proof -
  note I = assms(1) [unfolded pipeline_inv_def PIPELINE_CAPACITY_def]
  note stuck = assms(2) [simplified]
  show store: "pl_store p \<noteq> Running"
  proof
    assume r: "pl_store p = Running"
    have "channel_recv (pl_parsed p) \<noteq> Received y ch" "channel_recv (pl_parsed p) \<noteq> Closed" for y ch
      using stuck r by (auto intro: pipeline_step.store_recv pipeline_step.store_end)
    then have e: "ch_queue (pl_parsed p) = []" "pl_parse p = Running"
      using I by (auto simp: channel_recv_def split: list.splits if_splits)
    show False
    proof (cases "pl_hand p")
      case (Some y)
      have "channel_send y (pl_parsed p) = Sent ((pl_parsed p)\<lparr>ch_queue := [y]\<rparr>)"
        using I r by (simp add: channel_send_def e PIPELINE_CAPACITY_def)
      then show False using stuck e Some by (auto intro: pipeline_step.parse_send)
    next
      case None
      then show False using parse_idle_moves [OF assms(1)] e(2) stuck by blast
    qed
  qed
  show parse: "pl_parse p \<noteq> Running"
  proof
    assume r: "pl_parse p = Running"
    have nr: "\<not> ch_receiver (pl_parsed p)" using I store by simp
    show False
    proof (cases "pl_hand p")
      case (Some y)
      have "channel_send y (pl_parsed p) = ReceiverDropped" using nr by (simp add: channel_send_def)
      then show False using stuck r Some by (auto intro: pipeline_step.parse_bail)
    next
      case None
      then show False using parse_idle_moves [OF assms(1)] r stuck by blast
    qed
  qed
  show "pl_source p = []"
  proof (cases "pl_source p")
    case (Cons x xs)
    have "channel_send x (pl_fetched p) = ReceiverDropped" using I parse by (simp add: channel_send_def)
    then show ?thesis using stuck Cons by (auto intro: pipeline_step.fetch_discard)
  qed
qed

subsection \<open>Properties\<close>

text \<open>
  C10. Backpressure and order, in every reachable state of every interleaving: neither channel holds
  more than two items; the outcomes stored so far are the parsed first ones of those fetched, in
  the order of fetching, each once; and while the store task runs, at most five outcomes have been handed over and not stored.
\<close>

theorem pipeline_bounded_fifo:
  assumes "pipeline_step\<^sup>*\<^sup>* (pipeline_init outs) p"
  shows "length (ch_queue (pl_fetched p)) \<le> 2 \<and> length (ch_queue (pl_parsed p)) \<le> 2 \<and>
    prefix (pl_stored p) (map parsed_of outs) \<and>
    (pl_store p = Running \<longrightarrow> length outs - length (pl_source p) \<le> length (pl_stored p) + 5)"
proof -
  note I = pipeline_reachable_inv [OF assms, unfolded pipeline_inv_def PIPELINE_CAPACITY_def]
  have "length outs - length (pl_source p) \<le> length (pl_stored p) + 5" if "pl_store p = Running"
  proof -
    have "length (pl_stored p @ backlog p) = length outs" using I that by (metis length_map task.distinct(3))
    moreover have "length (hand_list p) \<le> 1" by (simp add: hand_list_def split: option.split)
    moreover have "length (ch_queue (pl_fetched p)) \<le> 2" "length (ch_queue (pl_parsed p)) \<le> 2" using I by blast+
    ultimately show ?thesis by (simp add: backlog_def)
  qed
  then show ?thesis using I by blast
qed

text \<open>
  C19. The pipeline always ends and delivers: no run has more than four steps for each outcome and three
  more; it cannot get stuck before every task has ended; and unless the store task failed, everything
  fetched has then been stored, in the order of fetching, and nothing was discarded.
\<close>

theorem pipeline_ends_and_delivers:
  assumes "(pipeline_step ^^ n) (pipeline_init outs) p"
  shows "n \<le> 4 * length outs + 3 \<and>
    ((\<nexists>q. pipeline_step p q) \<longrightarrow> pl_source p = [] \<and> pl_parse p \<noteq> Running \<and> pl_store p \<noteq> Running \<and>
      (pl_store p = Finished \<longrightarrow> pl_stored p = map parsed_of outs \<and> pl_discarded p = []))"
proof -
  have "n + pipeline_work p \<le> pipeline_work (pipeline_init outs)"
    using assms by (induction n arbitrary: p) (auto dest!: pipeline_work_step elim!: relcomppE, fastforce)
  moreover have "pipeline_work (pipeline_init outs) = 4 * length outs + 3"
    by (simp add: pipeline_work_def pipeline_init_def new_channel_def hand_list_def)
  moreover have inv: "pipeline_inv outs p"
    using assms by (intro pipeline_reachable_inv) (auto simp: relpowp_imp_rtranclp)
  moreover have "pl_stored p = map parsed_of outs \<and> pl_discarded p = []" if "pl_source p = []" "pl_store p = Finished"
    using inv that by (auto simp: pipeline_inv_def backlog_def hand_list_def)
  ultimately show ?thesis using pipeline_progress [OF inv] by simp
qed

definition three_outcomes :: "fetch_outcome list" where
  "three_outcomes = [Skipped 7, Failed 2 ''timeout'', Skipped 3]"

lemma first_send:
  "pipeline_step (pipeline_init three_outcomes) ((pipeline_init three_outcomes)
     \<lparr>pl_source := [Failed 2 ''timeout'', Skipped 3], pl_fetched := new_channel\<lparr>ch_queue := [Skipped 7]\<rparr>\<rparr>)"
  by (rule pipeline_step.fetch_send)
    (simp_all add: pipeline_init_def three_outcomes_def new_channel_def channel_send_def PIPELINE_CAPACITY_def)

theorem pipeline_bounded_fifo_witness:
  "\<exists>p. pipeline_step\<^sup>*\<^sup>* (pipeline_init three_outcomes) p \<and> ch_queue (pl_fetched p) = [Skipped 7] \<and>
     prefix (pl_stored p) (map parsed_of three_outcomes)"
proof -
  let ?p = "(pipeline_init three_outcomes)
     \<lparr>pl_source := [Failed 2 ''timeout'', Skipped 3], pl_fetched := new_channel\<lparr>ch_queue := [Skipped 7]\<rparr>\<rparr>"
  have r: "pipeline_step\<^sup>*\<^sup>* (pipeline_init three_outcomes) ?p" using first_send by (rule r_into_rtranclp)
  from pipeline_bounded_fifo [OF r] show ?thesis using r by (intro exI [of _ ?p]) simp
qed

theorem pipeline_ends_and_delivers_witness:
  "\<exists>p. (pipeline_step ^^ 1) (pipeline_init three_outcomes) p \<and> 1 \<le> 4 * length three_outcomes + 3"
proof -
  obtain p where p: "(pipeline_step ^^ 1) (pipeline_init three_outcomes) p" using first_send by auto
  then show ?thesis using pipeline_ends_and_delivers [OF p] by blast
qed

end
