(* ===== verification/Ingest.thy ===== *)
theory Ingest
  imports Candle_Stage Pipeline
begin

section \<open>An ingest run from the range of slots to the database\<close>

text \<open>
  The composition of the components: \<open>fetch_block_range\<close> (theory \<open>Block_Fetch\<close>) delivers an outcome for each
  slot, the pipeline (theory \<open>Pipeline\<close>) hands the parsed outcomes to the store task in that
  order, and \<open>run_ingest\<close> (theory \<open>Candle_Stage\<close>) stores them, builds the candles and reads the statistics.
\<close>

lemma parsed_slot_of: "parsed_slot (parsed_of x) = outcome_slot x"
proof (cases x)
  case (Ingested b)
  then show ?thesis using parse_block_Some [of b] by (auto simp: parsed_of_def)
qed (simp_all add: parsed_of_def)

lemma status_row_slot: "st_slot (status_row_of p) = u64_as_i64 (parsed_slot p)"
  by (cases p) (simp_all add: status_row_of_def)

lemma one_kind: "length (blocks_of ps) + length (filter is_skipped ps) + length (filter is_failed ps) = length ps"
  by (induction ps rule: blocks_of.induct) simp_all

lemma status_rows_present:
  assumes "distinct (map st_slot rows)"
  shows "{r \<in> set (fold put_status rows t). st_slot r \<in> st_slot ` set rows} = set rows"
  using status_tbl.put_all_set [OF assms, of t] by auto

lemma staged_tables:
  assumes "staged to_json bs sts d0 = Some d"
  shows "ingestion_status d = fold put_status sts (ingestion_status d0)"
  using assms by (auto simp: staged_def replace_all_iff)

lemma range_status_slots:
  assumes "\<forall>s. outcome_slot (result s) = s" and "start + n < 2 ^ 64" and "0 < m"
    and ps: "ps = map parsed_of (fetch_block_range pick result start n m)"
  shows "set ps = (\<lambda>s. parsed_of (result s)) ` {start ..< start + n}" and "length ps = n"
    and "distinct (map st_slot (map status_row_of ps))"
proof -
  note M = fetch_block_range_mset [OF assms(1-3), of pick]
  have "set (fetch_block_range pick result start n m) = result ` {start ..< start + n}"
    using arg_cong [OF M, of set_mset] by simp
  then show "set ps = (\<lambda>s. parsed_of (result s)) ` {start ..< start + n}" by (simp add: ps image_image)
  show "length ps = n" using arg_cong [OF M, of size] by (simp add: ps)
  have "mset (map outcome_slot (fetch_block_range pick result start n m)) = mset [start ..< start + n]"
    using arg_cong [OF M, of "image_mset outcome_slot"] assms(1)
    by (simp add: image_mset.compositionality comp_def)
  then have slots: "distinct (map outcome_slot (fetch_block_range pick result start n m))"
    "set (map outcome_slot (fetch_block_range pick result start n m)) = {start ..< start + n}"
    using mset_eq_imp_distinct_iff mset_eq_setD by (metis distinct_upt, metis set_upt)
  have "inj_on u64_as_i64 {start ..< start + n}"
    using assms(2) by (intro inj_onI u64_as_i64_inj) auto
  then have "distinct (map u64_as_i64 (map outcome_slot (fetch_block_range pick result start n m)))"
    using slots by (simp only: distinct_map)
  then show "distinct (map st_slot (map status_row_of ps))"
    by (simp add: ps comp_def status_row_slot parsed_slot_of)
qed

text \<open>The run as a whole on a healthy connection: one batch of all blocks, then the candles of its range.\<close>

definition range_candles :: "hash_order \<Rightarrow> nat \<Rightarrow> nat \<Rightarrow> db \<Rightarrow> candle_row list" where
  "range_candles ho start n d =
     concat (map (pass_rows (ho_candles ho) (range_trades ho start (last_slot start n) d)) [60, 300])"

lemma run_ingest_quiet:
  assumes "quiet sh" and "storable to_json (blocks_of ps) (committed sh)" and "iterates (ho_candles ho)"
    and d: "staged to_json (blocks_of ps) (map status_row_of ps) (committed sh) = Some d"
    and "\<forall>iv\<in>{60, 300}. times_ok iv (range_trades ho start (last_slot start n) d)"
  obtains st sh' where
    "run_ingest to_json ho \<lparr>ia_start_slot = start, ia_count = n, ia_store = sargs\<rparr> ps sh =
       (Inr (st, query_db_stats (committed sh')), sh')"
    "quiet sh'" "committed sh' = d\<lparr>candles := fold put_candle (range_candles ho start n d) (candles d)\<rparr>"
    "ingested st = length (blocks_of ps)" "skipped st = length (filter is_skipped ps)" "failed st = length (filter is_failed ps)"
proof -
  from store_stage_run [OF assms(1,2), of sargs] obtain st sh1 where
    S: "store_stage to_json sargs ps sh = (Inr st, sh1)" "quiet sh1" "committed sh1 = d"
    "ingested st = length (blocks_of ps)" "skipped st = length (filter is_skipped ps)" "failed st = length (filter is_failed ps)"
    using d by auto
  have ok: "\<forall>iv\<in>{60, 300}. times_ok iv (range_trades ho start (last_slot start n) (committed sh1))"
    using assms(5) S(3) by simp
  show thesis
  proof (rule candle_pass_run [OF assms(3) S(2) ok, of "''candle worker panicked''"])
    fix sh2
    assume C: "db_blocking ''candle worker panicked'' (build_and_store_candles ho start (last_slot start n)) sh1 = (Inr (), sh2)"
      "quiet sh2" "committed sh2 = (committed sh1)\<lparr>candles := fold put_candle
        (concat (map (pass_rows (ho_candles ho) (range_trades ho start (last_slot start n) (committed sh1))) [60, 300]))
        (candles (committed sh1))\<rparr>"
    obtain sh3 where Q: "db_blocking ''stats worker panicked'' (no_panic (query query_db_stats)) sh2 =
        (Inr (query_db_stats (committed sh2)), sh3)" "quiet sh3" "committed sh3 = committed sh2"
      using blocking.run_query_quiet [OF C(2)] by metis
    show thesis
    proof (rule that [of st sh3])
      show "run_ingest to_json ho \<lparr>ia_start_slot = start, ia_count = n, ia_store = sargs\<rparr> ps sh =
         (Inr (st, query_db_stats (committed sh3)), sh3)"
        using S(1) C(1) Q by (simp add: run_ingest_def finish_ingest_def candle_pass_def read_stats_def)
      show "committed sh3 = d\<lparr>candles := fold put_candle (range_candles ho start n d) (candles d)\<rparr>"
        using Q(3) C(3) by (simp add: S(3) range_candles_def)
    qed (use S Q in simp_all)
  qed
qed

text \<open>Counters, status rows and tables of a run over a range, whatever the fetch returned and in whatever order.\<close>

lemma run_ingest_reports_every_slot:
  assumes "\<forall>s. outcome_slot (result s) = s" and "start + n < 2 ^ 64" and "0 < m"
    and ps: "ps = map parsed_of (fetch_block_range pick result start n m)"
    and "quiet sh" and "storable to_json (blocks_of ps) (committed sh)" and "iterates (ho_candles ho)"
    and d: "staged to_json (blocks_of ps) (map status_row_of ps) (committed sh) = Some d"
    and "\<forall>iv\<in>{60, 300}. times_ok iv (range_trades ho start (last_slot start n) d)"
  shows "\<exists>st stats sh'.
    run_ingest to_json ho \<lparr>ia_start_slot = start, ia_count = n, ia_store = sargs\<rparr> ps sh = (Inr (st, stats), sh') \<and>
    ingested st + skipped st + failed st = n \<and>
    {r \<in> set (ingestion_status (committed sh')). st_slot r \<in> u64_as_i64 ` {start ..< start + n}} =
      (\<lambda>s. status_row_of (parsed_of (result s))) ` {start ..< start + n} \<and>
    committed sh' = d\<lparr>candles := candles (committed sh')\<rparr> \<and> stats = query_db_stats (committed sh')"
proof -
  note R = range_status_slots [OF assms(1-3) ps]
  obtain st sh' where S: "run_ingest to_json ho \<lparr>ia_start_slot = start, ia_count = n, ia_store = sargs\<rparr> ps sh =
      (Inr (st, query_db_stats (committed sh')), sh')"
    "committed sh' = d\<lparr>candles := fold put_candle (range_candles ho start n d) (candles d)\<rparr>"
    "ingested st = length (blocks_of ps)" "skipped st = length (filter is_skipped ps)" "failed st = length (filter is_failed ps)"
    using run_ingest_quiet [OF assms(5-9), where sargs = sargs] by metis
  have slots: "st_slot ` set (map status_row_of ps) = u64_as_i64 ` {start ..< start + n}"
    using assms(1) by (auto simp: R(1) status_row_slot parsed_slot_of image_image)
  have "ingestion_status (committed sh') = fold put_status (map status_row_of ps) (ingestion_status (committed sh))"
    using S(2) staged_tables [OF d] by simp
  with status_rows_present [OF R(3), unfolded slots] have
    "{r \<in> set (ingestion_status (committed sh')). st_slot r \<in> u64_as_i64 ` {start ..< start + n}} =
      (\<lambda>s. status_row_of (parsed_of (result s))) ` {start ..< start + n}"
    by (simp add: R(1) image_image)
  moreover have "ingested st + skipped st + failed st = n" using S(3-5) one_kind [of ps] R(2) by simp
  ultimately show ?thesis using S(1,2) by (simp del: fold_append)
qed

text \<open>The slots 2, 3 and 4: skipped, the block of theory \<open>Store_Stage\<close>, failed.\<close>

definition sample_result :: "nat \<Rightarrow> fetch_outcome" where
  "sample_result s = (if s = 3 then Ingested sample_decoded else if s = 4 then Failed 4 ''timeout'' else Skipped s)"

definition sample_fetched :: "fetch_outcome list" where
  "sample_fetched = [Skipped 2, Ingested sample_decoded, Failed 4 ''timeout'']"

lemma sample_fetched_parsed: "map parsed_of sample_fetched = sample_outcomes"
  by (simp add: sample_fetched_def sample_outcomes_def parsed_of_def sample_parse(1))

lemma sample_range: "fetch_block_range (\<lambda>_. 0) sample_result 2 3 8 = sample_fetched"
proof -
  have slots: "start_pool 2 3 8 = \<lparr>slots = [], in_flight = [2, 3, 4], outcomes = []\<rparr>"
    by (subst start_pool_eq) (simp_all add: upt_rec)
  show ?thesis
    unfolding fetch_block_range_def slots
    by (simp add: run_pool.simps complete_def vec_pop_def sample_result_def sample_fetched_def)
qed

lemma sample_fetch: "map parsed_of (fetch_block_range (\<lambda>_. 0) sample_result 2 3 8) = sample_outcomes"
  by (simp add: sample_range sample_fetched_parsed)

lemma sample_staged:
  obtains d where "staged example_json (blocks_of sample_outcomes) (map status_row_of sample_outcomes) (committed fresh_shared) = Some d"
    and "range_trades sorted_order 2 (last_slot 2 3) d = []"
proof -
  obtain d1 where d1: "replace_all example_json [slot_row sample_parsed] empty_db = Some d1"
    using sample_storable by (auto simp: storable_def sample_ok(5) example_defs)
  have b: "batch_ok [slot_row sample_parsed]" using sample_ok(2,5) by simp
  have "token_balance_changes d1 = new_balances (slot_row sample_parsed)"
    using replace_all_tables [OF b d1] by (simp add: empty_db_def)
  then have bal: "token_balance_changes d1 = [balance_row 3 (Some 100) (''t1'', ''M'', 0, 5, 6)]"
    by (simp add: new_balances_def slot_row_def sample_parse sample_coalesced [unfolded sample_parse])
  let ?d = "d1\<lparr>transactions := apply_steps (concat (map step_pairs [sample_parsed])) (transactions d1),
     ingestion_status := fold put_status (map status_row_of sample_outcomes) (ingestion_status d1)\<rparr>"
  have "query_balance_changes_for_range 2 4 ?d = [(''t1'', 3, Some 100, ''M'', 0, 5, 6)]"
    by (simp add: query_balance_changes_for_range_def bal balance_row_def between_def balance_change_of_def
        u64_as_i64_def i64_as_u64_def)
  then have "range_trades sorted_order 2 (last_slot 2 3) ?d = []"
    by (simp add: range_trades_def last_slot_def snapshots_from_balance_rows_def push_balance_row_def sorted_order_def
        by_key_def infer_trades_def WSOL_MINT_def)
  moreover have "staged example_json (blocks_of sample_outcomes) (map status_row_of sample_outcomes) (committed fresh_shared) = Some ?d"
    using d1 unfolding sample_ok(5) staged_def by (simp add: example_defs del: replace_all.simps)
  ultimately show thesis using that by blast
qed

end
