(* ===== verification/Reingest.thy ===== *)
theory Reingest
  imports Ingest
begin

section \<open>Ingesting a range again\<close>

text \<open>
  The idempotence the module text of \<open>crates/storage/src/repository.rs\<close> promises, for the whole run:
  the delete-and-append of the slots (theory \<open>Storage\<close>), the steps written afterwards, the status rows (theory
  \<open>Store_Stage\<close>) and the candles of the range (theory \<open>Candle_Stage\<close>) all reach the state they are in.
\<close>

subsection \<open>Replacing rows that differ outside their key and slot\<close>

lemma rep_all_keys_only:
  "map (\<lambda>r. (key r, slot_of r)) t = map (\<lambda>r. (key r, slot_of r)) u \<Longrightarrow>
     rep_all key slot_of news t = None \<longleftrightarrow> rep_all key slot_of news u = None"
proof (induction news arbitrary: t u)
  case (Cons n news)
  obtain s new where n: "n = (s, new)" by fastforce
  let ?g = "\<lambda>r. (key r, slot_of r)" and ?del = "\<lambda>t. filter (\<lambda>r. slot_of r \<noteq> s) t @ new"
  have del: "map ?g (filter (\<lambda>r. slot_of r \<noteq> s) t) = filter (\<lambda>k. snd k \<noteq> s) (map ?g t)" for t
    by (simp add: filter_map comp_def)
  have eq: "map ?g (?del t) = map ?g (?del u)" by (simp add: del Cons.prems del: map_map)
  have "map key (?del t) = map key (?del u)" using arg_cong [OF eq, of "map fst"] by (simp add: comp_def)
  then show ?case using Cons.IH [OF eq] by (simp add: n sql_append_def sql_delete_def)
qed simp

lemma rep_all_map_again:
  assumes again: "rep_all key slot_of news t = Some t" and tag: "slot_tagged slot_of news"
    and f: "\<And>r. key (f r) = key r" "\<And>r. slot_of (f r) = slot_of r" "\<And>r. f (f r) = f r"
  obtains t' where "rep_all key slot_of news (map f t) = Some t'" "map f t' = map f t"
proof -
  have "rep_all key slot_of news (map f t) \<noteq> None"
    using rep_all_keys_only [of key slot_of "map f t" t news] again by (simp add: f comp_def)
  then obtain t' where t': "rep_all key slot_of news (map f t) = Some t'" by blast
  have keep: "filter (\<lambda>r. slot_of r \<notin> fst ` set news) (map f t) = map f (filter (\<lambda>r. slot_of r \<notin> fst ` set news) t)"
    by (simp add: filter_map comp_def f(2))
  have "map f t' = map f (filter (\<lambda>r. slot_of r \<notin> fst ` set news) t @ concat (map snd news))"
    unfolding rep_all_result [OF t' tag] keep by (simp add: comp_def f(3))
  also have "\<dots> = map f t" using rep_all_result [OF again tag] by simp
  finally show thesis using that t' by blast
qed

lemma step_update_idem: "step_update ps (step_update ps r) = step_update ps r"
  by (simp add: step_update_def split: option.split)

subsection \<open>The store stage\<close>

lemma staged_again:
  assumes "batch_ok (map slot_row bs)" and "db_keys_ok d0" and "distinct (map st_slot sts)"
    and d: "staged to_json bs sts d0 = Some d"
  shows "staged to_json bs sts (d\<lparr>candles := cs\<rparr>) = Some (d\<lparr>candles := cs\<rparr>)"
proof -
  let ?rows = "map slot_row bs" and ?f = "step_update (concat (map step_pairs bs))"
  obtain d1 where d1: "replace_all to_json ?rows d0 = Some d1"
    and d_eq: "d = d1\<lparr>transactions := map ?f (transactions d1), ingestion_status := fold put_status sts (ingestion_status d1)\<rparr>"
    using d by (auto simp: staged_def apply_steps_eq)
  obtain ts ls bl where A:
    "\<forall>row\<in>set ?rows. json_ok to_json row \<and> list_all balance_fits (new_balances row)"
    "rep_all tr_signature tr_slot (tagged (new_transactions to_json) ?rows) (transactions d1) = Some ts"
    "rep_all lock_key al_slot (tagged new_locks ?rows) (account_locks d1) = Some ls"
    "rep_all balance_key tb_slot (tagged new_balances ?rows) (token_balance_changes d1) = Some bl"
    and E: "d1 = d1\<lparr>blocks := fold (put_block \<circ> new_block) ?rows (blocks d1), transactions := ts, account_locks := ls,
      token_balance_changes := bl\<rparr>"
    using replace_all_again [OF assms(1,2) d1] unfolding replace_all_iff by blast
  have same: "ts = transactions d1" "ls = account_locks d1" "bl = token_balance_changes d1"
    "fold (put_block \<circ> new_block) ?rows (blocks d1) = blocks d1"
    using arg_cong [OF E, of transactions] arg_cong [OF E, of account_locks]
      arg_cong [OF E, of token_balance_changes] arg_cong [OF E, of blocks] by simp_all
  obtain ts' where T: "rep_all tr_signature tr_slot (tagged (new_transactions to_json) ?rows) (map ?f (transactions d1)) = Some ts'"
    "map ?f ts' = map ?f (transactions d1)"
    by (rule rep_all_map_again [OF A(2) [unfolded same] batch_tagged(1) [OF assms(1)], of ?f]) (simp_all add: step_update_idem)
  let ?e = "d\<lparr>candles := cs\<rparr>"
  have R: "replace_all to_json ?rows ?e = Some (?e\<lparr>transactions := ts'\<rparr>)"
    unfolding replace_all_iff using A T(1) by (simp add: d_eq same)
  have "distinct (map st_slot (ingestion_status d1))"
    using replace_all_keys [OF d1 assms(2)] by (simp add: db_keys_ok_def)
  then have "fold put_status sts (ingestion_status ?e) = ingestion_status ?e"
    using status_tbl.put_all_again [OF _ assms(3)] by (simp add: d_eq)
  then show ?thesis unfolding staged_def R using T(2) by (simp add: apply_steps_eq d_eq)
qed

subsection \<open>What the iteration order of a hash map can change\<close>

text \<open>
  Each Rust hash map iterates in an order of its own, so two runs see the same snapshots, and hence
  the same trades, in different orders.
\<close>

lemma iterates_mset:
  assumes "iterates it" and "iterates it'" and "finite (dom m)"
  shows "mset (it' m) = mset (it m)"
proof -
  have "set (f m) = {(k, v). m k = Some v} \<and> distinct (f m)" if "iterates f" for f
    using that assms(3) map_of_eq_Some_iff [of "f m"] by (auto simp: iterates_def distinct_map)
  from this [OF assms(1)] this [OF assms(2)] show ?thesis by (metis set_eq_iff_mset_eq_distinct)
qed

lemma finite_snapshots: "finite (dom (fold push_balance_row rows Map.empty))"
proof (rule finite_subset)
  show "dom (fold push_balance_row rows Map.empty) \<subseteq> row_signature ` set rows"
    by (auto simp: snapshot_map timed_rows_def filter_empty_conv split: if_splits)
qed simp

lemma range_trades_permuted:
  assumes "iterates (ho_snapshots ho)" and "iterates (ho_snapshots ho')"
  shows "mset (range_trades ho' a b d) = mset (range_trades ho a b d)"
proof -
  let ?m = "fold push_balance_row (query_balance_changes_for_range a b d) Map.empty"
  have "mset (map (mset \<circ> infer_trades \<circ> snd) (ho_snapshots ho' ?m)) = mset (map (mset \<circ> infer_trades \<circ> snd) (ho_snapshots ho ?m))"
    using iterates_mset [OF assms finite_snapshots] by simp
  then have "sum_list (map (mset \<circ> infer_trades \<circ> snd) (ho_snapshots ho' ?m)) =
      sum_list (map (mset \<circ> infer_trades \<circ> snd) (ho_snapshots ho ?m))"
    by (metis sum_mset_sum_list)
  then show ?thesis
    by (simp add: range_trades_def snapshots_from_balance_rows_def mset_concat comp_def)
qed

lemma range_trades_ok:
  assumes "iterates (ho_snapshots ho)" and "t \<in> set (range_trades ho a b d)"
  shows "trade_ok t"
proof -
  let ?rows = "query_balance_changes_for_range a b d"
  let ?m = "fold push_balance_row ?rows Map.empty"
  obtain sig tx where tx: "(sig, tx) \<in> set (ho_snapshots ho ?m)" "t \<in> set (infer_trades tx)"
    using assms(2) by (auto simp: range_trades_def snapshots_from_balance_rows_def)
  have "distinct (map fst (ho_snapshots ho ?m))" "map_of (ho_snapshots ho ?m) = ?m"
    using assms(1) finite_snapshots unfolding iterates_def by blast+
  then have "?m sig = Some tx" using map_of_is_SomeI [OF _ tx(1)] by simp
  then have "ts_token_deltas tx = map row_delta (timed_rows sig ?rows)" by (auto simp: snapshot_map split: if_splits)
  then have "\<forall>x\<in>set (ts_token_deltas tx). amounts_ok x"
    by (auto simp: timed_rows_def query_balance_changes_for_range_def balance_change_of_def row_delta_def amounts_ok_def
        i64_as_u64_def nat_less_iff)
  then show ?thesis using infer_trades_facts tx(2) by blast
qed

text \<open>The candle of a window: its extremes do not depend on the order, and nothing does without a tie.\<close>

lemma f64_same: "f64_finite x \<Longrightarrow> f64_finite y \<Longrightarrow> f64_val x = f64_val y \<Longrightarrow> f64_val x \<noteq> 0 \<Longrightarrow> x = y"
  by (cases x; cases y) simp_all

definition tied :: "inferred_trade list \<Rightarrow> candle_row \<Rightarrow> bool" where
  "tied trades r \<longleftrightarrow>
     (let w = set (window_trades trades (cr_interval_sec r) (cr_mint r) (cd_bucket_start (cr_candle r)))
      in \<exists>t\<in>w. \<exists>u\<in>w. t \<noteq> u \<and> it_block_time t = it_block_time u)"

lemma window_candle_permuted:
  assumes "mset trades' = mset trades" and "\<forall>t\<in>set trades. trade_ok t"
    and "candle_of b (window_trades trades iv mint b) = Some k" and "candle_of b (window_trades trades' iv mint b) = Some k'"
  shows "cd_high k' = cd_high k \<and> cd_low k' = cd_low k \<and>
    (\<not> tied trades \<lparr>cr_mint = mint, cr_interval_sec = iv, cr_candle = k\<rparr> \<longrightarrow> k' = k)"
proof -
  let ?w = "window_trades trades iv mint b" and ?w' = "window_trades trades' iv mint b"
  have "set trades' = set trades" using assms(1) by (metis set_mset_mset)
  then have set: "set ?w' = set ?w" by (simp add: window_trades_def)
  have ok: "\<forall>t\<in>set ?w. trade_ok t" "\<forall>t\<in>set ?w'. trade_ok t"
    unfolding set using assms(2) by (auto simp: window_trades_def)
  have prices: "prices_of ?w' = prices_of ?w" by (simp add: prices_of_def set)
  note E = candle_extremes [OF ok(1) assms(3)] and E' = candle_extremes [OF ok(2) assms(4), unfolded prices]
  have "cd_high k' = cd_high k" using E(1,2,5) E'(1,2) by (intro f64_same) simp_all
  moreover have "cd_low k' = cd_low k" using E(3,4,6) E'(3,4) by (intro f64_same) simp_all
  moreover have "k' = k" if "\<not> tied trades \<lparr>cr_mint = mint, cr_interval_sec = iv, cr_candle = k\<rparr>"
  proof -
    have "?w' = ?w" using that candle_of_facts(2) [OF assms(3)]
      by (intro window_trades_permuted [OF assms(1)]) (auto simp: tied_def Let_def)
    then show ?thesis using assms(3,4) by simp
  qed
  ultimately show ?thesis by blast
qed

text \<open>The candles that a second pass leaves beside those that the first one left.\<close>

definition same_candle :: "inferred_trade list \<Rightarrow> candle_row \<Rightarrow> candle_row \<Rightarrow> bool" where
  "same_candle trades r r' \<longleftrightarrow> candle_key r' = candle_key r \<and>
     cd_high (cr_candle r') = cd_high (cr_candle r) \<and> cd_low (cr_candle r') = cd_low (cr_candle r) \<and>
     (\<not> tied trades r \<longrightarrow> r' = r)"

definition interval_rows ::
  "((string \<rightharpoonup> candle list) \<Rightarrow> (string \<times> candle list) list) \<Rightarrow> inferred_trade list \<Rightarrow> candle_row list" where
  "interval_rows it trades = concat (map (pass_rows it trades) [60, 300])"

lemma interval_rows_window:
  assumes "iterates it" and "\<forall>iv\<in>{60, 300}. times_ok iv trades" and "r \<in> set (interval_rows it trades)"
  shows "cr_interval_sec r \<in> {60, 300}"
    and "candle_of (cd_bucket_start (cr_candle r))
      (window_trades trades (cr_interval_sec r) (cr_mint r) (cd_bucket_start (cr_candle r))) = Some (cr_candle r)"
proof -
  have r: "cr_interval_sec r \<in> {60, 300} \<and> cr_candle r \<in> set (series trades (cr_interval_sec r) (cr_mint r))"
    using assms(3) pass_rows_mem(1) [OF assms(1)] assms(2) by (auto simp: interval_rows_def)
  then show "cr_interval_sec r \<in> {60, 300}" by blast
  show "candle_of (cd_bucket_start (cr_candle r))
      (window_trades trades (cr_interval_sec r) (cr_mint r) (cd_bucket_start (cr_candle r))) = Some (cr_candle r)"
    using r assms(2) by (intro series_candle) blast+
qed

lemma interval_rows_keys:
  assumes "iterates it" and "iterates it'" and "\<forall>iv\<in>{60, 300}. times_ok iv trades" and "mset trades' = mset trades"
  shows "candle_key ` set (interval_rows it' trades') \<subseteq> candle_key ` set (interval_rows it trades)"
proof
  fix k assume "k \<in> candle_key ` set (interval_rows it' trades')"
  then obtain r where r: "r \<in> set (interval_rows it' trades')" "k = candle_key r" by blast
  have set: "set trades' = set trades" using assms(4) by (metis set_mset_mset)
  have ok: "\<forall>iv\<in>{60, 300}. times_ok iv trades'" using assms(3) by (simp add: times_ok_def set)
  note R = interval_rows_window [OF assms(2) ok r(1)]
  obtain t where "t \<in> set (window_trades trades' (cr_interval_sec r) (cr_mint r) (cd_bucket_start (cr_candle r)))"
    using candle_of_facts(1) [OF R(2)] last_in_set by blast
  then have t: "t \<in> set trades" "it_mint t = cr_mint r"
    "window (cr_interval_sec r) (it_block_time t) = cd_bucket_start (cr_candle r)"
    by (simp_all add: window_trades_def set)
  obtain c where "c \<in> set (series trades (cr_interval_sec r) (cr_mint r))" "cd_bucket_start c = cd_bucket_start (cr_candle r)"
    using series_covers [of "cr_interval_sec r" trades t] assms(3) R(1) t by auto
  then have "r\<lparr>cr_candle := c\<rparr> \<in> set (interval_rows it trades)" "candle_key (r\<lparr>cr_candle := c\<rparr>) = k"
    using R(1) pass_rows_mem(1) [OF assms(1)] assms(3) r(2)
    by (cases r; auto simp: interval_rows_def candle_key_def)+
  then show "k \<in> candle_key ` set (interval_rows it trades)" by blast
qed

lemma candles_again:
  assumes "iterates it" and "iterates it'" and "\<forall>iv\<in>{60, 300}. times_ok iv trades" and "mset trades' = mset trades"
    and "\<forall>t\<in>set trades. trade_ok t" and "distinct (map candle_key cs)"
  shows "list_all2 (same_candle trades) (fold put_candle (interval_rows it trades) cs)
    (fold put_candle (interval_rows it' trades') (fold put_candle (interval_rows it trades) cs))"
proof -
  let ?R = "interval_rows it trades" and ?R' = "interval_rows it' trades'"
  let ?cs = "fold put_candle ?R cs" and ?find = "map_of (map (\<lambda>x. (candle_key x, x)) ?R')"
  have "set trades' = set trades" using assms(4) by (metis set_mset_mset)
  then have ok: "\<forall>iv\<in>{60, 300}. times_ok iv trades'" using assms(3) by (simp add: times_ok_def)
  have D: "distinct (map candle_key ?R)" "distinct (map candle_key ?R')"
    unfolding interval_rows_def using assms(3) ok by (intro pass_rows_distinct assms(1,2); simp)+
  note S = candle_tbl.put_all_set [OF D(1), of cs] and K = interval_rows_keys [OF assms(1-4)]
  have two: "fold put_candle ?R' ?cs = map (\<lambda>r. case ?find (candle_key r) of None \<Rightarrow> r | Some r' \<Rightarrow> r') ?cs"
    using K S by (intro candle_tbl.put_all_pointwise [OF _ D(2)]) auto
  have "same_candle trades r (case ?find (candle_key r) of None \<Rightarrow> r | Some r' \<Rightarrow> r')" if r: "r \<in> set ?cs" for r
  proof (cases "?find (candle_key r)")
    case (Some r')
    then have r': "r' \<in> set ?R'" "candle_key r' = candle_key r" by (auto dest!: map_of_SomeD)
    then have "candle_key r \<in> candle_key ` set ?R" using K by (metis image_eqI subsetD)
    then have "r \<in> set ?R" using r unfolding S by blast
    note W = interval_rows_window [OF assms(1,3) this] and W' = interval_rows_window [OF assms(2) ok r'(1)]
    have "cr_mint r' = cr_mint r" "cr_interval_sec r' = cr_interval_sec r"
      "cd_bucket_start (cr_candle r') = cd_bucket_start (cr_candle r)" using r'(2) by (simp_all add: candle_key_def)
    with window_candle_permuted [OF assms(4,5) W(2) W'(2) [unfolded this]] r'(2) Some show ?thesis
      by (cases r; cases r') (simp add: same_candle_def)
  qed (simp add: same_candle_def)
  then show ?thesis unfolding two by (simp add: list_all2_map2 list.rel_refl_strong)
qed

subsection \<open>The run\<close>

lemma range_trades_candles: "range_trades ho a b (d\<lparr>candles := cs\<rparr>) = range_trades ho a b d"
  by (simp add: range_trades_def query_balance_changes_for_range_def)

lemma blocks_of_slots: "filter (\<lambda>p. \<not> is_skipped p \<and> \<not> is_failed p) ps = map ParsedIngested (blocks_of ps)"
  by (induction ps rule: blocks_of.induct) simp_all

lemma outcomes_batch_ok:
  assumes "distinct (map parsed_slot ps)" and "\<forall>p\<in>set ps. parsed_slot p < 2 ^ 64"
  shows "batch_ok (map slot_row (blocks_of ps))" and "distinct (map st_slot (map status_row_of ps))"
proof -
  have "map sb_slot (map slot_row (blocks_of ps)) = map parsed_slot (filter (\<lambda>p. \<not> is_skipped p \<and> \<not> is_failed p) ps)"
    unfolding blocks_of_slots by (simp add: slot_row_def)
  moreover have "ParsedIngested b \<in> set ps" if "b \<in> set (blocks_of ps)" for b
    using that arg_cong [OF blocks_of_slots [of ps], of set] by auto
  ultimately show "batch_ok (map slot_row (blocks_of ps))"
    using assms by (force simp: batch_ok_def slot_row_def distinct_map_filter simp del: map_map)
  have "inj_on u64_as_i64 (parsed_slot ` set ps)"
    using assms(2) by (intro inj_onI u64_as_i64_inj) auto
  then have "distinct (map u64_as_i64 (map parsed_slot ps))" using assms(1) by (simp only: distinct_map set_map)
  then show "distinct (map st_slot (map status_row_of ps))" by (simp add: comp_def status_row_slot)
qed

lemma same_candle_counts:
  "list_all2 (same_candle trades) xs ys \<Longrightarrow>
     length (filter (\<lambda>r. cr_interval_sec r = iv) ys) = length (filter (\<lambda>r. cr_interval_sec r = iv) xs)"
  by (induction rule: list_all2_induct) (simp_all add: same_candle_def candle_key_def)

text \<open>
  C7. Re-ingestion converges: after a run over a range on a healthy connection, a second run with the same outcomes,
  whatever its batch size and whatever order its own hash maps iterate in, succeeds with the same counters and
  the same statistics, and leaves five of the six tables exactly as the first left them.  In the sixth it finds
  and leaves the same candles in the same places, with the same high and low; and a candle changes at all only if its
  window holds two different trades of its mint with one block time, whose order the hash maps decide.
\<close>

theorem reingest_converges:
  assumes "quiet sh" and "db_keys_ok (committed sh)" and "storable to_json (blocks_of ps) (committed sh)"
    and "distinct (map parsed_slot ps)" and "\<forall>p\<in>set ps. parsed_slot p < 2 ^ 64"
    and "iterates (ho_candles ho)" and "iterates (ho_snapshots ho)" and "iterates (ho_candles ho')" and "iterates (ho_snapshots ho')"
    and d: "staged to_json (blocks_of ps) (map status_row_of ps) (committed sh) = Some d"
    and "\<forall>iv\<in>{60, 300}. times_ok iv (range_trades ho start (last_slot start n) d)"
  shows "\<exists>st1 st2 stats sh1 sh2.
    run_ingest to_json ho \<lparr>ia_start_slot = start, ia_count = n, ia_store = sargs\<rparr> ps sh = (Inr (st1, stats), sh1) \<and>
    run_ingest to_json ho' \<lparr>ia_start_slot = start, ia_count = n, ia_store = sargs'\<rparr> ps sh1 = (Inr (st2, stats), sh2) \<and>
    (ingested st2, skipped st2, failed st2) = (ingested st1, skipped st1, failed st1) \<and>
    blocks (committed sh2) = blocks (committed sh1) \<and> transactions (committed sh2) = transactions (committed sh1) \<and>
    account_locks (committed sh2) = account_locks (committed sh1) \<and>
    token_balance_changes (committed sh2) = token_balance_changes (committed sh1) \<and>
    ingestion_status (committed sh2) = ingestion_status (committed sh1) \<and>
    list_all2 (\<lambda>r r'. candle_key r' = candle_key r \<and>
        cd_high (cr_candle r') = cd_high (cr_candle r) \<and> cd_low (cr_candle r') = cd_low (cr_candle r) \<and>
        (\<not> tied (range_trades ho start (last_slot start n) d) r \<longrightarrow> r' = r))
      (candles (committed sh1)) (candles (committed sh2))"
proof -
  note B = outcomes_batch_ok [OF assms(4,5)]
  let ?T = "range_trades ho start (last_slot start n) d" and ?T' = "range_trades ho' start (last_slot start n) d"
  have perm: "mset ?T' = mset ?T" by (rule range_trades_permuted [OF assms(7,9)])
  obtain st1 sh1 where R1: "run_ingest to_json ho \<lparr>ia_start_slot = start, ia_count = n, ia_store = sargs\<rparr> ps sh =
      (Inr (st1, query_db_stats (committed sh1)), sh1)" "quiet sh1"
    "committed sh1 = d\<lparr>candles := fold put_candle (interval_rows (ho_candles ho) ?T) (candles d)\<rparr>"
    "(ingested st1, skipped st1, failed st1) = (length (blocks_of ps), length (filter is_skipped ps), length (filter is_failed ps))"
    using run_ingest_quiet [OF assms(1,3,6) d assms(11), where sargs = sargs]
    unfolding range_candles_def interval_rows_def by metis
  have again: "staged to_json (blocks_of ps) (map status_row_of ps) (committed sh1) = Some (committed sh1)"
    unfolding R1(3) by (rule staged_again [OF B(1) assms(2) B(2) d])
  then have sto: "storable to_json (blocks_of ps) (committed sh1)"
    using assms(3) by (auto simp: storable_def staged_def)
  have trades: "range_trades ho' start (last_slot start n) (committed sh1) = ?T'"
    unfolding R1(3) by (rule range_trades_candles)
  have "set ?T' = set ?T" using perm by (metis set_mset_mset)
  then have times: "\<forall>iv\<in>{60, 300}. times_ok iv (range_trades ho' start (last_slot start n) (committed sh1))"
    unfolding trades using assms(11) by (simp add: times_ok_def)
  obtain st2 sh2 where R2: "run_ingest to_json ho' \<lparr>ia_start_slot = start, ia_count = n, ia_store = sargs'\<rparr> ps sh1 =
      (Inr (st2, query_db_stats (committed sh2)), sh2)"
    "committed sh2 = (committed sh1)\<lparr>candles := fold put_candle (interval_rows (ho_candles ho') ?T') (candles (committed sh1))\<rparr>"
    "(ingested st2, skipped st2, failed st2) = (length (blocks_of ps), length (filter is_skipped ps), length (filter is_failed ps))"
    using run_ingest_quiet [OF R1(2) sto assms(8) again times, where sargs = sargs']
    unfolding range_candles_def trades interval_rows_def by metis
  have "candles d = candles (committed sh)" using d by (auto simp: staged_def replace_all_iff)
  then have keys: "distinct (map candle_key (candles d))" using assms(2) by (simp add: db_keys_ok_def)
  have "\<forall>t\<in>set ?T. trade_ok t" using range_trades_ok [OF assms(7)] by blast
  from candles_again [OF assms(6,8,11) perm this keys]
  have same: "list_all2 (same_candle ?T) (candles (committed sh1)) (candles (committed sh2))"
    unfolding R2(2) by (simp add: R1(3))
  have "query_db_stats (committed sh2) = query_db_stats (committed sh1)"
    unfolding R2(2) using same_candle_counts [OF same] R2(2) by (simp add: query_db_stats_def)
  then show ?thesis using R1(1,4) R2 same [unfolded same_candle_def [abs_def]] by simp
qed

text \<open>A second run whose hash maps iterate the other way round.\<close>

definition reversed_order :: hash_order where
  "reversed_order = \<lparr>ho_snapshots = rev \<circ> by_key, ho_candles = rev \<circ> by_key\<rparr>"

lemma iterates_rev: "iterates it \<Longrightarrow> iterates (rev \<circ> it)"
  by (auto simp: iterates_def rev_map [symmetric] intro: map_of_inject_set [THEN iffD2, THEN trans])

theorem reingest_converges_witness:
  "\<exists>stats st1 st2 sh1 sh2.
    run_ingest example_json sorted_order \<lparr>ia_start_slot = 2, ia_count = 3, ia_store = batch_of 25\<rparr>
      sample_outcomes fresh_shared = (Inr (st1, stats), sh1) \<and>
    run_ingest example_json reversed_order \<lparr>ia_start_slot = 2, ia_count = 3, ia_store = batch_of 1\<rparr>
      sample_outcomes sh1 = (Inr (st2, stats), sh2) \<and> transactions (committed sh2) = transactions (committed sh1)"
proof -
  obtain d where d: "staged example_json (blocks_of sample_outcomes) (map status_row_of sample_outcomes) (committed fresh_shared) = Some d"
    "range_trades sorted_order 2 (last_slot 2 3) d = []" by (rule sample_staged)
  have times: "\<forall>iv\<in>{60, 300}. times_ok iv (range_trades sorted_order 2 (last_slot 2 3) d)"
    by (simp add: d(2) times_ok_def)
  have it: "iterates (ho_candles sorted_order)" "iterates (ho_snapshots sorted_order)"
    "iterates (ho_candles reversed_order)" "iterates (ho_snapshots reversed_order)"
    by (simp_all add: sorted_order_def reversed_order_def iterates_by_key iterates_rev)
  have keys: "db_keys_ok (committed fresh_shared)"
    by (simp add: example_defs empty_db_def db_keys_ok_def)
  have slots: "distinct (map parsed_slot sample_outcomes)" "\<forall>p\<in>set sample_outcomes. parsed_slot p < 2 ^ 64"
    by (simp_all add: sample_outcomes_def sample_parse)
  from reingest_converges [OF sample_ok(1) keys sample_storable slots it d(1) times, of "batch_of 25" "batch_of 1"]
  show ?thesis by blast
qed

end
