(* ===== verification/Command.thy ===== *)
theory Command
  imports Reingest
begin

section \<open>The ingest command\<close>

text \<open>
  \<open>run_ingest\<close> of \<open>crates/cli/src/main.rs\<close> as it executes: the three tasks of theory \<open>Pipeline\<close> run
  concurrently, the store task doing the work of theory \<open>Store_Stage\<close> on the shared connection, then they are joined and
  the candle pass and the statistics of theory \<open>Candle_Stage\<close> follow.  \<open>Pipeline\<close> lets the store
  task fail at any outcome; here it fails where the storage makes it fail.  The jobs of one outcome are one step, which no
  other task can tell; theories \<open>Tasks\<close> and \<open>Serve\<close> split it for those who use the same connection.
\<close>

subsection \<open>The tasks at work\<close>

record live =
  lv_pipe :: pipeline
  lv_state :: store_state
  lv_shared :: shared
  lv_result :: "(cli_error + store_state) option"

definition live_init :: "fetch_outcome list \<Rightarrow> shared \<Rightarrow> live" where
  "live_init outs sh = \<lparr>lv_pipe = pipeline_init outs, lv_state = store_init, lv_shared = sh, lv_result = None\<rparr>"

text \<open>\<open>fetch_parse\<close> is a step of the fetch or the parse task: they touch nothing of the store task.\<close>

inductive live_step ::
  "(string list \<Rightarrow> string option) \<Rightarrow> store_args \<Rightarrow> live \<Rightarrow> live \<Rightarrow> bool" for to_json args where
  fetch_parse:
    "pipeline_step (lv_pipe v) q \<Longrightarrow> pl_store q = pl_store (lv_pipe v) \<Longrightarrow> pl_stored q = pl_stored (lv_pipe v) \<Longrightarrow>
       live_step to_json args v (v\<lparr>lv_pipe := q\<rparr>)"
| store_one:
    "pl_store (lv_pipe v) = Running \<Longrightarrow> channel_recv (pl_parsed (lv_pipe v)) = Received y ch \<Longrightarrow>
       store_loop to_json args [y] (lv_state v) (lv_shared v) = (Inr st, sh) \<Longrightarrow>
       live_step to_json args v (v\<lparr>lv_pipe := (lv_pipe v)\<lparr>pl_parsed := ch, pl_stored := pl_stored (lv_pipe v) @ [y]\<rparr>,
         lv_state := st, lv_shared := sh\<rparr>)"
| store_fails:
    "pl_store (lv_pipe v) = Running \<Longrightarrow> channel_recv (pl_parsed (lv_pipe v)) = Received y ch \<Longrightarrow>
       store_loop to_json args [y] (lv_state v) (lv_shared v) = (Inl e, sh) \<Longrightarrow>
       live_step to_json args v (v\<lparr>lv_pipe := (lv_pipe v)\<lparr>pl_parsed := ch\<lparr>ch_receiver := False\<rparr>, pl_store := Bailed\<rparr>,
         lv_shared := sh, lv_result := Some (Inl e)\<rparr>)"
| store_ends:
    "pl_store (lv_pipe v) = Running \<Longrightarrow> channel_recv (pl_parsed (lv_pipe v)) = Closed \<Longrightarrow>
       final_flush to_json (lv_state v) (lv_shared v) = (r, sh) \<Longrightarrow>
       live_step to_json args v (v\<lparr>lv_pipe := (lv_pipe v)
           \<lparr>pl_parsed := (pl_parsed (lv_pipe v))\<lparr>ch_receiver := False\<rparr>, pl_store := Finished\<rparr>,
         lv_shared := sh, lv_result := Some r\<rparr>)"

inductive_cases live_stepE: "live_step to_json args v w"

subsection \<open>Joining the tasks\<close>

text \<open>
  \<open>parse.await??\<close> comes before \<open>store.await??\<close>: when the parse task has bailed out, its error is the
  one reported.  \<open>None\<close> stands for a task that is still running.
\<close>

datatype ingest_error = ParseStageFailed | Reported cli_error

definition join_stages :: "live \<Rightarrow> (ingest_error + store_state) option" where
  "join_stages v =
     (case pl_parse (lv_pipe v) of
        Running \<Rightarrow> None
      | Bailed \<Rightarrow> Some (Inl ParseStageFailed)
      | Finished \<Rightarrow> map_option (map_sum Reported id) (lv_result v))"

definition halted :: "(string list \<Rightarrow> string option) \<Rightarrow> store_args \<Rightarrow> live \<Rightarrow> bool" where
  "halted to_json args v \<longleftrightarrow> (\<nexists>w. live_step to_json args v w)"

inductive ingest_command ::
  "(string list \<Rightarrow> string option) \<Rightarrow> hash_order \<Rightarrow> ingest_args \<Rightarrow> fetch_outcome list \<Rightarrow> shared \<Rightarrow>
     (ingest_error + store_state \<times> db_stats) \<times> shared \<Rightarrow> bool" for to_json ho args outs sh where
  stage_error:
    "(live_step to_json (ia_store args))\<^sup>*\<^sup>* (live_init outs sh) v \<Longrightarrow> halted to_json (ia_store args) v \<Longrightarrow>
       join_stages v = Some (Inl e) \<Longrightarrow> ingest_command to_json ho args outs sh (Inl e, lv_shared v)"
| stages_done:
    "(live_step to_json (ia_store args))\<^sup>*\<^sup>* (live_init outs sh) v \<Longrightarrow> halted to_json (ia_store args) v \<Longrightarrow>
       join_stages v = Some (Inr st) \<Longrightarrow> finish_ingest ho args st (lv_shared v) = (r, sh') \<Longrightarrow>
       ingest_command to_json ho args outs sh (map_sum Reported id r, sh')"

subsection \<open>Simulation by the pipeline\<close>

lemma live_step_pipeline: "live_step to_json args v w \<Longrightarrow> pipeline_step (lv_pipe v) (lv_pipe w)"
  by (elim live_stepE) (auto intro: pipeline_step.store_recv pipeline_step.store_error pipeline_step.store_end)

lemma live_pipeline_reachable:
  assumes "(live_step to_json args)\<^sup>*\<^sup>* (live_init outs sh) v"
  shows "pipeline_step\<^sup>*\<^sup>* (pipeline_init outs) (lv_pipe v)"
  using assms by induction (auto simp: live_init_def intro: rtranclp.rtrancl_into_rtrancl live_step_pipeline)

lemma live_follows:
  assumes "pipeline_step (lv_pipe v) q"
  shows "\<exists>w. live_step to_json args v w"
proof (cases "pl_store q = pl_store (lv_pipe v) \<and> pl_stored q = pl_stored (lv_pipe v)")
  case True
  then show ?thesis using assms by (blast intro: live_step.fetch_parse)
next
  case False
  then have "pl_store (lv_pipe v) = Running \<and>
      ((\<exists>y ch. channel_recv (pl_parsed (lv_pipe v)) = Received y ch) \<or> channel_recv (pl_parsed (lv_pipe v)) = Closed)"
    using assms by (elim pipeline_stepE) auto
  moreover obtain r sh where "final_flush to_json (lv_state v) (lv_shared v) = (r, sh)" by fastforce
  moreover have "\<exists>w. live_step to_json args v w"
    if "pl_store (lv_pipe v) = Running" "channel_recv (pl_parsed (lv_pipe v)) = Received y ch" for y ch
  proof -
    obtain r' sh' where "store_loop to_json args [y] (lv_state v) (lv_shared v) = (r', sh')" by fastforce
    then show ?thesis using that by (cases r') (blast intro: live_step.store_one live_step.store_fails)+
  qed
  ultimately show ?thesis by (blast intro: live_step.store_ends)
qed

lemma halted_pipeline: "halted to_json args v \<Longrightarrow> \<nexists>q. pipeline_step (lv_pipe v) q"
  using live_follows unfolding halted_def by blast

lemma live_halts: "\<exists>w. (live_step to_json args)\<^sup>*\<^sup>* v w \<and> halted to_json args w"
proof (induction v rule: measure_induct_rule [where f = "\<lambda>v. pipeline_work (lv_pipe v)"])
  case (less v)
  show ?case
  proof (cases "halted to_json args v")
    case False
    then obtain w where w: "live_step to_json args v w" unfolding halted_def by blast
    from less [OF pipeline_work_step [OF live_step_pipeline [OF w]]] show ?thesis
      using w by (meson converse_rtranclp_into_rtranclp)
  qed blast
qed

subsection \<open>What the store task has done\<close>

lemma store_loop_append:
  "store_loop to_json args (xs @ ys) st sh =
     (case store_loop to_json args xs st sh of
        (Inl e, sh1) \<Rightarrow> (Inl e, sh1)
      | (Inr st1, sh1) \<Rightarrow> store_loop to_json args ys st1 sh1)"
  by (induction xs arbitrary: st sh) (auto split: prod.split sum.split)

definition live_inv ::
  "(string list \<Rightarrow> string option) \<Rightarrow> store_args \<Rightarrow> fetch_outcome list \<Rightarrow> shared \<Rightarrow> live \<Rightarrow> bool" where
  "live_inv to_json args outs sh0 v \<longleftrightarrow>
     (let p = lv_pipe v; loop = \<lambda>ps. store_loop to_json args ps store_init sh0
      in case pl_store p of
           Running \<Rightarrow> loop (pl_stored p) = (Inr (lv_state v), lv_shared v) \<and> lv_result v = None
         | Finished \<Rightarrow> (\<exists>st sh1 r. loop (pl_stored p) = (Inr st, sh1) \<and> final_flush to_json st sh1 = (r, lv_shared v) \<and>
             lv_result v = Some r)
         | Bailed \<Rightarrow> (\<exists>y e st sh1. loop (pl_stored p) = (Inr st, sh1) \<and> store_loop to_json args [y] st sh1 = (Inl e, lv_shared v) \<and>
             lv_result v = Some (Inl e) \<and>
             prefix (pl_stored p @ [y]) (map parsed_of outs) \<and>
             (pl_parse p = Bailed \<or> pl_stored p @ [y] @ backlog p = map parsed_of outs)))"

text \<open>Once the store task has failed, the parse task passes nothing on.\<close>

lemma backlog_after_failure:
  assumes "pipeline_step p q" and "pipeline_inv outs p" and "pl_store p = Bailed" and "pl_parse q \<noteq> Bailed"
  shows "backlog q = backlog p" and "pl_parse p \<noteq> Bailed"
proof -
  have "backlog q = backlog p \<and> pl_parse p \<noteq> Bailed"
    using assms by (elim pipeline_stepE)
      (auto simp: pipeline_inv_def backlog_def hand_list_def parse_outcome_Some dest!: channel_facts; cases "pl_parse p"; auto)+
  then show "backlog q = backlog p" and "pl_parse p \<noteq> Bailed" by blast+
qed

lemma live_inv_init: "live_inv to_json args outs sh (live_init outs sh)"
  by (simp add: live_inv_def live_init_def pipeline_init_def)

lemma live_inv_step:
  assumes step: "live_step to_json args v w" and inv: "live_inv to_json args outs sh0 v"
    and pipe: "pipeline_inv outs (lv_pipe v)"
  shows "live_inv to_json args outs sh0 w"
  using step
proof cases
  case (fetch_parse q)
  show ?thesis
  proof (cases "pl_store (lv_pipe v)")
    case Bailed
    have "pl_parse q = Bailed \<or> backlog q = backlog (lv_pipe v) \<and> pl_parse (lv_pipe v) \<noteq> Bailed"
      using backlog_after_failure [OF fetch_parse(2) pipe Bailed] by blast
    then show ?thesis using inv fetch_parse Bailed unfolding live_inv_def Let_def by (elim disjE) auto
  qed (use inv fetch_parse in \<open>simp_all add: live_inv_def\<close>)
next
  case (store_one y ch st sh)
  then show ?thesis using inv by (simp add: live_inv_def store_loop_append)
next
  case (store_fails y ch e sh)
  have front: "backlog (lv_pipe v) = y # backlog (lv_pipe w)"
    using store_fails(1) channel_facts(3) [OF store_fails(3)] by (simp add: backlog_def hand_list_def)
  have "pl_stored (lv_pipe v) @ backlog (lv_pipe v) = map parsed_of outs"
    using pipe store_fails(2) by (simp add: pipeline_inv_def)
  then have "prefix (pl_stored (lv_pipe v) @ [y]) (map parsed_of outs)"
    "pl_stored (lv_pipe v) @ y # backlog (lv_pipe w) = map parsed_of outs"
    by (simp_all add: front prefix_def) (metis append.assoc append_Cons append_Nil)
  then show ?thesis
    using inv store_fails unfolding live_inv_def Let_def
    by (simp del: store_loop.simps) (blast intro: exI [of _ y])
next
  case (store_ends r sh)
  then show ?thesis using inv by (simp add: live_inv_def store_stage_def)
qed

lemma live_reachable:
  assumes "(live_step to_json args)\<^sup>*\<^sup>* (live_init outs sh) v"
  shows "live_inv to_json args outs sh v" and "pipeline_inv outs (lv_pipe v)"
proof -
  show "live_inv to_json args outs sh v"
    using assms
    by induction (auto intro: live_inv_init live_inv_step pipeline_reachable_inv live_pipeline_reachable)
  show "pipeline_inv outs (lv_pipe v)" using live_pipeline_reachable [OF assms] by (rule pipeline_reachable_inv)
qed

text \<open>Whatever the interleaving, the store task ends with the result of \<open>store_stage\<close>.\<close>

lemma halted_result:
  assumes reach: "(live_step to_json args)\<^sup>*\<^sup>* (live_init outs sh) v" and "halted to_json args v"
  obtains r where "store_stage to_json args (map parsed_of outs) sh = (r, lv_shared v)" "lv_result v = Some r"
    "join_stages v = Some (if pl_parse (lv_pipe v) = Bailed then Inl ParseStageFailed else map_sum Reported id r)"
    "pl_parse (lv_pipe v) = Bailed \<Longrightarrow> \<exists>e. r = Inl e"
proof -
  let ?p = "lv_pipe v"
  note I = live_reachable(1) [OF reach, unfolded live_inv_def Let_def] and P = live_reachable(2) [OF reach]
  note E = pipeline_progress [OF P halted_pipeline [OF assms(2)]]
  show thesis
  proof (cases "pl_store ?p")
    case Running
    then show thesis using E by simp
  next
    case Finished
    then have "pl_stored ?p = map parsed_of outs" "pl_parse ?p = Finished"
      using P E(1) by (auto simp: pipeline_inv_def backlog_def hand_list_def)
    then show thesis using I Finished that by (auto simp: join_stages_def store_stage_def)
  next
    case Bailed
    then obtain y e st sh1 zs where B: "store_loop to_json args (pl_stored ?p) store_init sh = (Inr st, sh1)"
      "store_loop to_json args [y] st sh1 = (Inl e, lv_shared v)"
      "lv_result v = Some (Inl e)" "map parsed_of outs = pl_stored ?p @ [y] @ zs"
      using I by (auto simp: prefix_def)
    have "store_stage to_json args (map parsed_of outs) sh = (Inl e, lv_shared v)"
      unfolding B(4) store_stage_def store_loop_append B(1) sum.case prod.case B(2) by simp
    then show thesis
      using that [of "Inl e"] B(3) E(2) by (cases "pl_parse ?p") (auto simp: join_stages_def)
  qed
qed

subsection \<open>Properties\<close>

definition success :: "('e + 'a) \<times> shared \<Rightarrow> 'a option \<times> shared" where
  "success = (\<lambda>(r, sh). (case r of Inl _ \<Rightarrow> None | Inr x \<Rightarrow> Some x, sh))"

lemma success_Inl [simp]: "success (Inl e, sh) = (None, sh)"
  by (simp add: success_def)

lemma success_map_sum [simp]: "success (map_sum f id r, sh) = success (r, sh)"
  by (cases r) (simp_all add: success_def)

lemma ingest_command_result:
  assumes "ingest_command to_json ho args outs sh res"
  shows "success res = success (run_ingest to_json ho args (map parsed_of outs) sh)"
  using assms
proof cases
  case (stage_error v e)
  from stage_error(2,3) show ?thesis
  proof (rule halted_result)
    fix r assume "store_stage to_json (ia_store args) (map parsed_of outs) sh = (r, lv_shared v)"
      "join_stages v = Some (if pl_parse (lv_pipe v) = Bailed then Inl ParseStageFailed else map_sum Reported id r)"
      "pl_parse (lv_pipe v) = Bailed \<Longrightarrow> \<exists>e. r = Inl e"
    then show ?thesis using stage_error(1,4) by (cases r) (auto simp: run_ingest_def split: if_splits)
  qed
next
  case (stages_done v st r sh')
  from stages_done(2,3) show ?thesis
  proof (rule halted_result)
    fix r' assume "store_stage to_json (ia_store args) (map parsed_of outs) sh = (r', lv_shared v)"
      "join_stages v = Some (if pl_parse (lv_pipe v) = Bailed then Inl ParseStageFailed else map_sum Reported id r')"
    then show ?thesis using stages_done(1,4,5) by (cases r') (auto simp: run_ingest_def split: if_splits)
  qed
qed

lemma ingest_command_ends: "\<exists>res. ingest_command to_json ho args outs sh res"
proof -
  obtain v where v: "(live_step to_json (ia_store args))\<^sup>*\<^sup>* (live_init outs sh) v" "halted to_json (ia_store args) v"
    using live_halts [of to_json "ia_store args" "live_init outs sh"] by blast
  obtain j where j: "join_stages v = Some j" by (rule halted_result [OF v]) blast
  show ?thesis
  proof (cases j)
    case (Inr st)
    obtain r sh' where "finish_ingest ho args st (lv_shared v) = (r, sh')" by fastforce
    then show ?thesis using v j Inr by (blast intro: ingest_command.stages_done)
  qed (use v j in \<open>blast intro: ingest_command.stage_error\<close>)
qed

text \<open>
  C3. No interleaving matters: the concurrent run always ends, and over all interleavings of the three
  tasks, and under any faults of the storage engine, there is one outcome only, that of the sequential run: the same
  success with the same counters and statistics, or a failure, and the same database.
\<close>

theorem every_interleaving_one_result:
  "success ` {res. ingest_command to_json ho args outs sh res} =
     {success (run_ingest to_json ho args (map parsed_of outs) sh)}"
proof -
  obtain res where res: "ingest_command to_json ho args outs sh res" using ingest_command_ends by blast
  have "success (run_ingest to_json ho args (map parsed_of outs) sh) \<in> success ` {res. ingest_command to_json ho args outs sh res}"
    unfolding ingest_command_result [OF res, symmetric] using res by (intro imageI) simp
  moreover have "success ` {res. ingest_command to_json ho args outs sh res} \<subseteq>
      {success (run_ingest to_json ho args (map parsed_of outs) sh)}"
    by (auto dest: ingest_command_result)
  ultimately show ?thesis by blast
qed

subsection \<open>The reported error\<close>

text \<open>
  Which error a failed run reports is another matter: when more outcomes follow the one at which the store task
  fails than the channel to it holds, the parse task bails out too, and the error of the database
  is never the one reported.
\<close>

lemma failing_outcome_unique:
  assumes "xs @ [x] @ ys = us @ [u] @ zs"
    and x: "store_loop to_json args xs store_init sh = (Inr st, sh1)" "store_loop to_json args [x] st sh1 = (Inl e, sh2)"
    and u: "store_loop to_json args us store_init sh = (Inr st', sh1')" "store_loop to_json args [u] st' sh1' = (Inl e', sh2')"
  shows "length xs = length us"
proof -
  have shorter: "length us \<le> length xs"
    if "xs @ [x] @ ys = us @ [u] @ zs" "store_loop to_json args xs store_init sh = (Inr st, sh1)"
      "store_loop to_json args [x] st sh1 = (Inl e, sh2)" "store_loop to_json args us store_init sh = (Inr st', sh1')"
    for xs us :: "parsed_outcome list" and x u ys zs st sh1 e sh2 st' sh1'
  proof (rule ccontr)
    assume "\<not> length us \<le> length xs"
    then obtain k where k: "length us = Suc (length xs + k)" using less_imp_Suc_add [of "length xs" "length us"] by auto
    have us: "us = xs @ [x] @ take k ys" using arg_cong [OF that(1), of "take (length us)"] by (simp add: k)
    have "fst (store_loop to_json args us store_init sh) = Inl e"
      by (subst us) (simp only: store_loop_append that(2,3) sum.case prod.case fst_conv)
    then show False by (simp add: that(4))
  qed
  show ?thesis using shorter [OF assms(1) x u(1)] shorter [OF assms(1) [symmetric] u x(1)] by simp
qed

lemma store_error_masked:
  assumes "ingest_command to_json ho args outs sh (r, sh')" and "outs = xs @ [x] @ ys" and "2 < length ys"
    and loop: "store_loop to_json (ia_store args) (map parsed_of xs) store_init sh = (Inr st, sh1)"
      "store_loop to_json (ia_store args) [parsed_of x] st sh1 = (Inl e, sh2)"
  shows "r = Inl ParseStageFailed"
proof -
  have bails: "pl_parse (lv_pipe v) = Bailed"
    if v: "(live_step to_json (ia_store args))\<^sup>*\<^sup>* (live_init outs sh) v" "halted to_json (ia_store args) v" for v
  proof (rule ccontr)
    assume nb: "pl_parse (lv_pipe v) \<noteq> Bailed"
    note I = live_reachable(1) [OF v(1), unfolded live_inv_def Let_def] and P = live_reachable(2) [OF v(1)]
    note E = pipeline_progress [OF P halted_pipeline [OF v(2)]]
    have split: "map parsed_of outs = map parsed_of xs @ [parsed_of x] @ map parsed_of ys" using assms(2) by simp
    show False
    proof (cases "pl_store (lv_pipe v)")
      case Running
      then show False using E(3) by simp
    next
      case Finished
      then have "pl_stored (lv_pipe v) = map parsed_of outs"
        using P E(1) by (auto simp: pipeline_inv_def backlog_def hand_list_def)
      moreover have "store_loop to_json (ia_store args) (map parsed_of outs) store_init sh = (Inl e, sh2)"
        unfolding split store_loop_append loop(1) sum.case prod.case loop(2) ..
      ultimately show False using I Finished by simp
    next
      case Bailed
      then obtain u e' st' sh1' where B: "store_loop to_json (ia_store args) (pl_stored (lv_pipe v)) store_init sh = (Inr st', sh1')"
        "store_loop to_json (ia_store args) [u] st' sh1' = (Inl e', lv_shared v)"
        "pl_stored (lv_pipe v) @ [u] @ backlog (lv_pipe v) = map parsed_of outs"
        using I nb by auto
      have "length (map parsed_of xs) = length (pl_stored (lv_pipe v))"
        by (rule failing_outcome_unique [OF trans [OF split [symmetric] B(3) [symmetric]] loop B(1,2)])
      then have "length (backlog (lv_pipe v)) = length ys"
        using arg_cong [OF B(3), of length] by (simp add: assms(2))
      moreover have "length (backlog (lv_pipe v)) \<le> 2"
        using P E nb by (cases "pl_parse (lv_pipe v)") (auto simp: pipeline_inv_def backlog_def hand_list_def PIPELINE_CAPACITY_def)
      ultimately show False using assms(3) by simp
    qed
  qed
  show ?thesis
    using assms(1) by cases (auto simp: join_stages_def dest!: bails)
qed

text \<open>The first statement is refused: the store task fails at the first of four outcomes.\<close>

definition broken_shared :: shared where
  "broken_shared = \<lparr>mx_conn = fresh_conn\<lparr>cn_faults := [True]\<rparr>, mx_poisoned = False\<rparr>"

declare broken_shared_def [example_defs]

lemma broken_first:
  "\<exists>sh2. store_loop example_json (batch_of 25) [ParsedSkipped 1] store_init broken_shared = (Inl (StorageFailed DuckDb), sh2)"
  by (simp add: record_outcome_def db_blocking_def example_defs no_panic_def upsert_ingestion_status_def execute_def
      take_fault_def)

lemma store_error_masked_example:
  "\<exists>sh'. ingest_command example_json sorted_order \<lparr>ia_start_slot = 1, ia_count = 4, ia_store = batch_of 25\<rparr>
     (map Skipped [1, 2, 3, 4]) broken_shared (Inl ParseStageFailed, sh')"
proof -
  let ?args = "\<lparr>ia_start_slot = 1, ia_count = 4, ia_store = batch_of 25\<rparr>"
  obtain r sh' where res: "ingest_command example_json sorted_order ?args (map Skipped [1, 2, 3, 4]) broken_shared (r, sh')"
    using ingest_command_ends by fastforce
  have outs: "map Skipped [1, 2, 3, 4] = [] @ [Skipped 1] @ map Skipped [2, 3, 4]" by simp
  obtain sh2 where "store_loop example_json (batch_of 25) [parsed_of (Skipped 1)] store_init broken_shared =
      (Inl (StorageFailed DuckDb), sh2)"
    using broken_first by (auto simp: parsed_of_def simp del: store_loop.simps)
  then have "r = Inl ParseStageFailed"
    by (intro store_error_masked [OF res outs, of store_init broken_shared]) (simp_all del: store_loop.simps(2))
  then show ?thesis using res by blast
qed

end
