(* ===== verification/Api.thy ===== *)
theory Api
  imports Candle_Stage
begin

section \<open>The HTTP API\<close>

text \<open>
  \<open>crates/api/src\<close>: the router of \<open>lib.rs\<close>, the handlers and \<open>run_db\<close> of \<open>routes.rs\<close> and the
  embedded files of \<open>static_files.rs\<close>.  The handlers share the connection of theory \<open>Store_Stage\<close> with an ingest
  run.  \<open>axum\<close> has parsed the query string before a handler runs; the texts of errors, the
  embedded files and the guessed MIME types are arguments.
\<close>

subsection \<open>Responses\<close>

datatype body =
    JsonHealth
  | JsonSummary contention_summary
  | JsonTokens "token_option list"
  | JsonCandles "candle list"
  | Text string
  | File string string

datatype response = Response nat body

fun status_code :: "response \<Rightarrow> nat" where
  "status_code (Response code b) = code"

text \<open>The \<open>to_string\<close> of the three error types.\<close>

record error_texts =
  et_storage :: "storage_error \<Rightarrow> string"
  et_poison :: string
  et_join :: string

subsection \<open>Running a read on a blocking thread\<close>

text \<open>A poisoned mutex and a panicked worker are errors here, not panics as in \<open>db_blocking\<close>.\<close>

definition run_db :: "error_texts \<Rightarrow> 'a job \<Rightarrow> shared \<Rightarrow> (string + 'a) \<times> shared" where
  "run_db et job sh =
     (if mx_poisoned sh then (Inl (''db mutex poisoned: '' @ et_poison et), sh)
      else case job (mx_conn sh) of
             (None, c) \<Rightarrow> (Inl (''db worker panicked: '' @ et_join et), \<lparr>mx_conn = c, mx_poisoned = True\<rparr>)
           | (Some (Inl e), c) \<Rightarrow> (Inl (et_storage et e), sh\<lparr>mx_conn := c\<rparr>)
           | (Some (Inr v), c) \<Rightarrow> (Inr v, sh\<lparr>mx_conn := c\<rparr>))"

definition respond :: "('a \<Rightarrow> body) \<Rightarrow> (string + 'a) \<times> shared \<Rightarrow> response \<times> shared" where
  "respond wrap r =
     (case r of
        (Inr v, sh) \<Rightarrow> (Response 200 (wrap v), sh)
      | (Inl e, sh) \<Rightarrow> (Response 500 (Text e), sh))"

subsection \<open>Handlers\<close>

definition get_health :: "shared \<Rightarrow> response \<times> shared" where
  "get_health sh = (Response 200 JsonHealth, sh)"

record contention_query =
  cq_from :: nat
  cq_to :: nat

definition get_contention :: "error_texts \<Rightarrow> contention_query \<Rightarrow> shared \<Rightarrow> response \<times> shared" where
  "get_contention et q sh =
     respond JsonSummary (run_db et (no_panic (query (query_contention_summary (cq_from q) (cq_to q)))) sh)"

definition get_tokens :: "error_texts \<Rightarrow> shared \<Rightarrow> response \<times> shared" where
  "get_tokens et sh = respond JsonTokens (run_db et (no_panic (query query_tokens)) sh)"

record ohlcv_query =
  oq_mint :: string
  oq_interval :: string

definition interval_sec :: "string \<Rightarrow> int option" where
  "interval_sec i = (if i = ''1m'' then Some 60 else if i = ''5m'' then Some 300 else None)"

definition get_ohlcv :: "error_texts \<Rightarrow> ohlcv_query \<Rightarrow> shared \<Rightarrow> response \<times> shared" where
  "get_ohlcv et q sh =
     (case interval_sec (oq_interval q) of
        None \<Rightarrow> (Response 400 (Text ''interval must be 1m or 5m''), sh)
      | Some iv \<Rightarrow> respond JsonCandles (run_db et (no_panic (query (query_ohlcv (oq_mint q) iv))) sh))"

subsection \<open>Embedded files\<close>

record assets =
  as_get :: "string \<Rightarrow> string option"
  as_mime :: "string \<Rightarrow> string"

definition serve_embedded :: "assets \<Rightarrow> string \<Rightarrow> response" where
  "serve_embedded a path =
     (case as_get a path of
        Some content \<Rightarrow> Response 200 (File (as_mime a path) content)
      | None \<Rightarrow> Response 404 (Text ''not found''))"

definition serve_index :: "assets \<Rightarrow> response" where
  "serve_index a = serve_embedded a ''index.html''"

definition serve_static :: "assets \<Rightarrow> string \<Rightarrow> response" where
  "serve_static a path = serve_embedded a path"

subsection \<open>The router\<close>

text \<open>A \<open>GET\<close> with the query string already parsed; fixed routes win over the wildcard.\<close>

datatype request =
    GetHealth
  | GetContention contention_query
  | GetTokens
  | GetOhlcv ohlcv_query
  | GetRoot
  | GetPath string

fun route :: "assets \<Rightarrow> error_texts \<Rightarrow> request \<Rightarrow> shared \<Rightarrow> response \<times> shared" where
  "route a et GetHealth sh = get_health sh"
| "route a et (GetContention q) sh = get_contention et q sh"
| "route a et GetTokens sh = get_tokens et sh"
| "route a et (GetOhlcv q) sh = get_ohlcv et q sh"
| "route a et GetRoot sh = (serve_index a, sh)"
| "route a et (GetPath path) sh = (serve_static a path, sh)"

fun requests :: "assets \<Rightarrow> error_texts \<Rightarrow> request list \<Rightarrow> shared \<Rightarrow> response list \<times> shared" where
  "requests a et [] sh = ([], sh)"
| "requests a et (r # rs) sh =
     (let (x, sh1) = route a et r sh; (xs, sh2) = requests a et rs sh1 in (x # xs, sh2))"

subsection \<open>Reads\<close>

fun uses_db :: "request \<Rightarrow> bool" where
  "uses_db (GetContention q) = True"
| "uses_db GetTokens = True"
| "uses_db (GetOhlcv q) = (interval_sec (oq_interval q) \<noteq> None)"
| "uses_db r = False"

interpretation reader: lock_runner "run_db et" "''db mutex poisoned: '' @ et_poison et"
    "''db worker panicked: '' @ et_join et" "et_storage et"
  for et by unfold_locales (simp add: run_db_def)

text \<open>No request writes: the data, the transaction state and the mutex stay as they are.\<close>

lemma route_keeps:
  assumes "route a et r sh = (x, sh')"
  shows "committed sh' = committed sh \<and> cn_txn (mx_conn sh') = cn_txn (mx_conn sh) \<and> mx_poisoned sh' = mx_poisoned sh"
proof -
  have keep: "cn_committed (snd (take_fault c)) = cn_committed c" "cn_txn (snd (take_fault c)) = cn_txn c" for c
    by (simp_all add: take_fault_def split: list.split)
  show ?thesis
    using assms keep [of "mx_conn sh"]
    by (cases r; cases "take_fault (mx_conn sh)")
      (auto simp: get_health_def get_contention_def get_tokens_def get_ohlcv_def respond_def reader.run_query
        split: option.splits if_splits)
qed

lemma route_status:
  "status_code (fst (route a et r sh)) =
     (if uses_db r then (if mx_poisoned sh \<or> fst (take_fault (mx_conn sh)) then 500 else 200)
      else case r of
        GetHealth \<Rightarrow> 200
      | GetRoot \<Rightarrow> if as_get a ''index.html'' = None then 404 else 200
      | GetPath p \<Rightarrow> if as_get a p = None then 404 else 200
      | _ \<Rightarrow> 400)"
  by (cases r; cases "take_fault (mx_conn sh)")
    (auto simp: get_health_def get_contention_def get_tokens_def get_ohlcv_def respond_def reader.run_query
      serve_index_def serve_static_def serve_embedded_def split: option.splits if_splits)

lemma requests_keep:
  "requests a et rs sh = (xs, sh') \<Longrightarrow>
     committed sh' = committed sh \<and> cn_txn (mx_conn sh') = cn_txn (mx_conn sh) \<and> mx_poisoned sh' = mx_poisoned sh \<and>
     length xs = length rs"
proof (induction rs arbitrary: sh xs sh')
  case (Cons r rs)
  obtain x sh1 where 1: "route a et r sh = (x, sh1)" by fastforce
  obtain ys sh2 where 2: "requests a et rs sh1 = (ys, sh2)" by fastforce
  have "xs = x # ys" "sh' = sh2" using Cons.prems by (simp_all add: 1 2)
  then show ?case using route_keeps [OF 1] Cons.IH [OF 2] by simp
qed simp

lemma route_quiet:
  assumes "quiet sh"
  shows "fst (route a et (GetContention q) sh) = Response 200 (JsonSummary (query_contention_summary (cq_from q) (cq_to q) (committed sh)))"
    and "fst (route a et GetTokens sh) = Response 200 (JsonTokens (query_tokens (committed sh)))"
    and "interval_sec i = Some iv \<Longrightarrow> fst (route a et (GetOhlcv \<lparr>oq_mint = mint, oq_interval = i\<rparr>) sh) =
       Response 200 (JsonCandles (query_ohlcv mint iv (committed sh)))"
proof -
  have R: "\<exists>sh'. run_db et (no_panic (query f)) sh = (Inr (f (committed sh)), sh')" for f :: "db \<Rightarrow> 'b"
    using reader.run_query_quiet [OF assms] by metis
  show "fst (route a et (GetContention q) sh) = Response 200 (JsonSummary (query_contention_summary (cq_from q) (cq_to q) (committed sh)))"
    using R [of "query_contention_summary (cq_from q) (cq_to q)"] by (auto simp: get_contention_def respond_def)
  show "fst (route a et GetTokens sh) = Response 200 (JsonTokens (query_tokens (committed sh)))"
    using R [of query_tokens] by (auto simp: get_tokens_def respond_def)
  show "interval_sec i = Some iv \<Longrightarrow> fst (route a et (GetOhlcv \<lparr>oq_mint = mint, oq_interval = i\<rparr>) sh) =
       Response 200 (JsonCandles (query_ohlcv mint iv (committed sh)))"
    using R [of "query_ohlcv mint iv"] by (auto simp: get_ohlcv_def respond_def)
qed

lemma query_tokens_facts:
  "t \<in> set (query_tokens d) \<longleftrightarrow>
     to_candles_1m t = int (length (query_ohlcv (to_mint t) 60 d)) \<and> to_candles_5m t = int (length (query_ohlcv (to_mint t) 300 d)) \<and>
     (query_ohlcv (to_mint t) 60 d \<noteq> [] \<or> query_ohlcv (to_mint t) 300 d \<noteq> [])"
  "distinct (map to_mint (query_tokens d))"
  "sorted_wrt (\<ge>) (map (\<lambda>t. to_candles_1m t + to_candles_5m t) (query_tokens d))"
proof -
  have len: "length (query_ohlcv m iv d) = length (filter (\<lambda>r. cr_mint r = m \<and> cr_interval_sec r = iv) (candles d))" for m iv
    by (simp add: query_ohlcv_def)
  have cnt: "candle_count d m iv = int (length (query_ohlcv m iv d))" for m iv by (simp add: candle_count_def len)
  have mint: "m \<in> cr_mint ` set (candles d)" if ne: "query_ohlcv m iv d \<noteq> []" for m iv
  proof -
    obtain k where "k \<in> set (query_ohlcv m iv d)" using ne by (cases "query_ohlcv m iv d") auto
    then show ?thesis unfolding query_ohlcv_mem by force
  qed
  show "t \<in> set (query_tokens d) \<longleftrightarrow>
     to_candles_1m t = int (length (query_ohlcv (to_mint t) 60 d)) \<and> to_candles_5m t = int (length (query_ohlcv (to_mint t) 300 d)) \<and>
     (query_ohlcv (to_mint t) 60 d \<noteq> [] \<or> query_ohlcv (to_mint t) 300 d \<noteq> [])"
    by (cases t) (auto simp: query_tokens_def Let_def cnt dest: mint)
  have d1: "distinct (map to_mint (filter P (map (\<lambda>m. \<lparr>to_mint = m, to_candles_1m = f m, to_candles_5m = g m\<rparr>) (remdups ms))))"
    for P f g ms by (rule distinct_map_filter) (simp add: comp_def)
  have d2: "distinct (map f (sort_key g xs)) = distinct (map f xs)" for f :: "token_option \<Rightarrow> string" and g :: "token_option \<Rightarrow> int" and xs
    by (rule mset_eq_imp_distinct_iff) simp
  show "distinct (map to_mint (query_tokens d))" unfolding query_tokens_def Let_def d2 by (rule d1)
  have "sorted_wrt (\<lambda>x y. f y \<le> f x) (sort_key (\<lambda>t. - f t) xs)" for f :: "token_option \<Rightarrow> int" and xs
    using sorted_sort_key [of "\<lambda>t. - f t" xs] by (simp add: sorted_map)
  from this [of "\<lambda>t. to_candles_1m t + to_candles_5m t"] show "sorted_wrt (\<ge>) (map (\<lambda>t. to_candles_1m t + to_candles_5m t) (query_tokens d))"
    unfolding query_tokens_def Let_def sorted_wrt_map .
qed

subsection \<open>Properties\<close>

text \<open>
  C39. The API only reads, and every request is answered: no sequence of requests changes the
  committed database, opens a transaction or poisons the mutex, whatever the engine refuses; the
  health check answers 200 in every state, a poisoned mutex included; a wrong interval is a 400 that
  does not touch the connection; a database route answers 500 exactly when the mutex is poisoned or
  the engine refuses the query.
\<close>

theorem api_reads_and_answers:
  assumes "requests a et rs sh = (xs, sh')"
  shows "committed sh' = committed sh \<and> cn_txn (mx_conn sh') = cn_txn (mx_conn sh) \<and>
    mx_poisoned sh' = mx_poisoned sh \<and> length xs = length rs \<and>
    route a et GetHealth sh' = (Response 200 JsonHealth, sh') \<and>
    (interval_sec (oq_interval q) = None \<longrightarrow>
       route a et (GetOhlcv q) sh' = (Response 400 (Text ''interval must be 1m or 5m''), sh')) \<and>
    (uses_db r \<longrightarrow> status_code (fst (route a et r sh')) =
       (if mx_poisoned sh \<or> fst (take_fault (mx_conn sh')) then 500 else 200))"
proof -
  note K = requests_keep [OF assms]
  have "status_code (fst (route a et r sh')) = (if mx_poisoned sh \<or> fst (take_fault (mx_conn sh')) then 500 else 200)"
    if "uses_db r"
    using that route_status [of a et r sh'] K by simp
  moreover have "route a et (GetOhlcv q) sh' = (Response 400 (Text ''interval must be 1m or 5m''), sh')"
    if "interval_sec (oq_interval q) = None" using that by (simp add: get_ohlcv_def)
  ultimately show ?thesis using K by (simp add: get_health_def)
qed

text \<open>
  The token list is exactly what the charts can show: on a healthy connection each mint is
  listed once, in descending number of candles, with the lengths of the two series that the chart
  route returns for it, and a mint is listed exactly when one of them is not empty.
\<close>

lemma listed_tokens_have_charts:
  assumes "quiet sh"
  shows "\<exists>ts. fst (route a et GetTokens sh) = Response 200 (JsonTokens ts) \<and> distinct (map to_mint ts) \<and>
    sorted_wrt (\<ge>) (map (\<lambda>t. to_candles_1m t + to_candles_5m t) ts) \<and>
    (\<forall>mint n1 n5. \<lparr>to_mint = mint, to_candles_1m = n1, to_candles_5m = n5\<rparr> \<in> set ts \<longleftrightarrow>
       (\<exists>c1 c5. fst (route a et (GetOhlcv \<lparr>oq_mint = mint, oq_interval = ''1m''\<rparr>) sh) = Response 200 (JsonCandles c1) \<and>
          fst (route a et (GetOhlcv \<lparr>oq_mint = mint, oq_interval = ''5m''\<rparr>) sh) = Response 200 (JsonCandles c5) \<and>
          n1 = int (length c1) \<and> n5 = int (length c5) \<and> (c1 \<noteq> [] \<or> c5 \<noteq> [])))"
proof -
  have iv: "interval_sec ''1m'' = Some 60" "interval_sec ''5m'' = Some 300" by (simp_all add: interval_sec_def)
  show ?thesis
    unfolding route_quiet(2) [OF assms] route_quiet(3) [OF assms iv(1)] route_quiet(3) [OF assms iv(2)]
    using query_tokens_facts [where d = "committed sh"] by (intro exI [of _ "query_tokens (committed sh)"]) auto
qed

text \<open>
  C12. What an ingest run stores is what the dashboard shows: after the candle pass over a slot range, the API
  returns for a mint and an interval exactly the pass's candles and the older candles of other windows, in
  ascending time.
\<close>

theorem api_shows_stored_candles:
  assumes "iterates (ho_candles ho)" and "quiet sh" and "db_keys_ok (committed sh)"
    and "\<forall>iv\<in>{60, 300}. times_ok iv (range_trades ho from_slot to_slot (committed sh))"
    and "interval_sec i = Some iv"
  shows "\<exists>sh' cs. db_blocking ctx (build_and_store_candles ho from_slot to_slot) sh = (Inr (), sh') \<and>
    fst (route a et (GetOhlcv \<lparr>oq_mint = mint, oq_interval = i\<rparr>) sh') = Response 200 (JsonCandles cs) \<and>
    sorted_wrt (<) (map cd_bucket_start cs) \<and>
    set cs = (let new = series (range_trades ho from_slot to_slot (committed sh)) iv mint
      in set new \<union> {k \<in> set (query_ohlcv mint iv (committed sh)). cd_bucket_start k \<notin> cd_bucket_start ` set new})"
proof -
  have "iv \<in> {60, 300}" using assms(5) by (auto simp: interval_sec_def split: if_splits)
  with candle_pass_result [OF assms(1-4), of ctx] obtain sh' where
    sh': "db_blocking ctx (build_and_store_candles ho from_slot to_slot) sh = (Inr (), sh')" "quiet sh'"
      "sorted_wrt (<) (map cd_bucket_start (query_ohlcv mint iv (committed sh')))"
      "set (query_ohlcv mint iv (committed sh')) =
         (let new = series (range_trades ho from_slot to_slot (committed sh)) iv mint
          in set new \<union> {k \<in> set (query_ohlcv mint iv (committed sh)). cd_bucket_start k \<notin> cd_bucket_start ` set new})"
    by blast
  show ?thesis using sh'(1,3,4) route_quiet(3) [OF sh'(2) assms(5), of a et mint] by blast
qed

subsection \<open>Examples\<close>

definition sample_texts :: error_texts where
  "sample_texts = \<lparr>et_storage = (\<lambda>e. ''refused''), et_poison = ''poisoned'', et_join = ''panicked''\<rparr>"

definition sample_assets :: assets where
  "sample_assets = \<lparr>as_get = [''index.html'' \<mapsto> ''<html>''], as_mime = (\<lambda>p. ''text/html'')\<rparr>"

theorem api_reads_and_answers_witness:
  "\<exists>xs sh'. requests sample_assets sample_texts [GetTokens, GetRoot] failing_shared = (xs, sh') \<and>
     committed sh' = empty_db \<and> status_code (fst (route sample_assets sample_texts GetTokens sh')) = 500"
proof -
  obtain xs sh' where r: "requests sample_assets sample_texts [GetTokens, GetRoot] failing_shared = (xs, sh')" by fastforce
  then have f: "fst (take_fault (mx_conn sh'))"
    by (auto simp: get_tokens_def respond_def reader.run_query example_defs take_fault_def Let_def)
  have "committed failing_shared = empty_db" by (simp add: example_defs)
  with api_reads_and_answers [OF r, of "\<lparr>oq_mint = [], oq_interval = []\<rparr>" GetTokens] f r show ?thesis by auto
qed

lemma listed_tokens_have_charts_witness:
  "\<exists>ts. fst (route sample_assets sample_texts GetTokens fresh_shared) = Response 200 (JsonTokens ts) \<and> distinct (map to_mint ts)"
  using listed_tokens_have_charts [OF sample_ok(1), of sample_assets sample_texts] by blast

theorem api_shows_stored_candles_witness:
  "\<exists>sh' cs. db_blocking ''candles'' (build_and_store_candles sorted_order 7 7) swap_shared = (Inr (), sh') \<and>
     fst (route sample_assets sample_texts (GetOhlcv \<lparr>oq_mint = ''TOKEN_A'', oq_interval = ''5m''\<rparr>) sh') =
       Response 200 (JsonCandles cs) \<and> sorted_wrt (<) (map cd_bucket_start cs)"
proof -
  have "interval_sec ''5m'' = Some 300" by (simp add: interval_sec_def)
  from api_shows_stored_candles [OF swap_ok swap_times this] show ?thesis by blast
qed

end
