(* ===== verification/Noninterference.thy ===== *)
theory Noninterference
  imports Command Api
begin

section \<open>What a job may observe of the connection\<close>

text \<open>
  A request of the API that runs between two jobs of an ingest changes nothing but the rest of the
  engine's oracle \<open>cn_faults\<close>.  On an engine that refuses nothing no operation can tell: each gives the same
  result on connections that differ in the oracle only, and leaves such connections.
\<close>

subsection \<open>Operations that respect a relation on states\<close>

definition oblivious :: "('s \<Rightarrow> 's \<Rightarrow> bool) \<Rightarrow> ('s \<Rightarrow> 'r \<times> 's) \<Rightarrow> bool" where
  "oblivious R m \<longleftrightarrow> (\<forall>s s'. R s s' \<longrightarrow> fst (m s) = fst (m s') \<and> R (snd (m s)) (snd (m s')))"

lemma obliviousI:
  "(\<And>s s'. R s s' \<Longrightarrow> \<exists>r t t'. m s = (r, t) \<and> m s' = (r, t') \<and> R t t') \<Longrightarrow> oblivious R m"
  unfolding oblivious_def by (metis fst_conv snd_conv)

lemma obliviousD:
  assumes "oblivious R m" and "R s s'" and "m s = (r, t)"
  obtains t' where "m s' = (r, t')" "R t t'"
  using assms unfolding oblivious_def by (metis fst_conv snd_conv surj_pair)

lemma oblivious_return [oblivious_intros]: "oblivious R (Pair r)"
  by (rule obliviousI) simp

lemma oblivious_return' [oblivious_intros]: "oblivious R (\<lambda>s. (r, s))"
  by (rule obliviousI) simp

lemma oblivious_bind [oblivious_intros]:
  assumes "oblivious R m" and "\<And>r. oblivious R (k r)"
  shows "oblivious R (\<lambda>s. case m s of (r, s1) \<Rightarrow> k r s1)"
proof (rule obliviousI)
  fix s s' assume "R s s'"
  moreover obtain r t where m: "m s = (r, t)" by fastforce
  ultimately obtain t' where m': "m s' = (r, t')" "R t t'" by (rule obliviousD [OF assms(1)])
  obtain x u where k: "k r t = (x, u)" by fastforce
  obtain u' where "k r t' = (x, u')" "R u u'" by (rule obliviousD [OF assms(2) m'(2) k])
  then show "\<exists>x u u'. (case m s of (r, s1) \<Rightarrow> k r s1) = (x, u) \<and> (case m s' of (r, s1) \<Rightarrow> k r s1) = (x, u') \<and> R u u'"
    using m m'(1) k by simp
qed

lemma oblivious_sum [oblivious_intros]:
  "(\<And>e. oblivious R (f e)) \<Longrightarrow> (\<And>v. oblivious R (g v)) \<Longrightarrow>
     oblivious R (\<lambda>s. case r of Inl e \<Rightarrow> f e s | Inr v \<Rightarrow> g v s)"
  by (cases r) simp_all

lemma oblivious_option [oblivious_intros]:
  "oblivious R f \<Longrightarrow> (\<And>v. oblivious R (g v)) \<Longrightarrow> oblivious R (\<lambda>s. case r of None \<Rightarrow> f s | Some v \<Rightarrow> g v s)"
  by (cases r) simp_all

lemma oblivious_if [oblivious_intros]:
  "oblivious R f \<Longrightarrow> oblivious R g \<Longrightarrow> oblivious R (\<lambda>s. if b then f s else g s)"
  by (cases b) simp_all

subsection \<open>Connections\<close>

definition alike :: "conn \<Rightarrow> conn \<Rightarrow> bool" where
  "alike c c' \<longleftrightarrow> cn_committed c = cn_committed c' \<and> cn_working c = cn_working c' \<and> cn_txn c = cn_txn c' \<and>
     True \<notin> set (cn_faults c) \<and> True \<notin> set (cn_faults c')"

lemma alike_take_fault:
  assumes "alike c c'"
  obtains d d' where "take_fault c = (False, d)" "take_fault c' = (False, d')" "alike d d'"
proof -
  obtain b d where t: "take_fault c = (b, d)" by fastforce
  obtain b' d' where t': "take_fault c' = (b', d')" by fastforce
  note F = take_fault_facts [OF t] and F' = take_fault_facts [OF t']
  have "\<not> b \<and> \<not> b'" "alike d d'" using assms F F' by (auto simp: alike_def)
  then show thesis using that t t' by auto
qed

lemma oblivious_execute [oblivious_intros]: "oblivious alike (execute stmt)"
proof (rule obliviousI)
  fix c c' assume "alike c c'"
  then show "\<exists>r t t'. execute stmt c = (r, t) \<and> execute stmt c' = (r, t') \<and> alike t t'"
    by (rule alike_take_fault) (auto simp: execute_def alike_def split: txn_state.split option.split)
qed

lemma oblivious_begin [oblivious_intros]: "oblivious alike begin_transaction"
proof (rule obliviousI)
  fix c c' assume "alike c c'"
  then show "\<exists>r t t'. begin_transaction c = (r, t) \<and> begin_transaction c' = (r, t') \<and> alike t t'"
    by (rule alike_take_fault) (auto simp: begin_transaction_def alike_def)
qed

lemma oblivious_commit [oblivious_intros]: "oblivious alike commit"
proof (rule obliviousI)
  fix c c' assume "alike c c'"
  then show "\<exists>r t t'. commit c = (r, t) \<and> commit c' = (r, t') \<and> alike t t'"
    by (rule alike_take_fault) (auto simp: commit_def alike_def)
qed

lemma oblivious_rollback [oblivious_intros]: "oblivious alike rollback"
  by (rule obliviousI) (auto simp: rollback_def alike_def)

lemma oblivious_query [oblivious_intros]: "oblivious alike (query q)"
proof (rule obliviousI)
  fix c c' assume "alike c c'"
  then show "\<exists>r t t'. query q c = (r, t) \<and> query q c' = (r, t') \<and> alike t t'"
    by (rule alike_take_fault) (auto simp: query_def alike_def)
qed

lemma oblivious_and_then [oblivious_intros]: "oblivious R m \<Longrightarrow> oblivious R k \<Longrightarrow> oblivious R (and_then m k)"
  unfolding and_then_def by (intro oblivious_intros)

text \<open>Every operation of the repository and every job of an ingest.\<close>

lemma oblivious_write_steps [oblivious_intros]: "oblivious alike (write_steps ps)"
  by (induction ps rule: write_steps.induct) (simp_all add: oblivious_intros)

lemma oblivious_write_all_steps [oblivious_intros]: "oblivious alike (write_all_steps bs)"
  by (induction bs) (simp_all add: oblivious_intros write_schedule_steps_def)

lemma oblivious_upsert_candles [oblivious_intros]: "oblivious alike (upsert_candles mint iv cs)"
  by (induction cs) (simp_all add: oblivious_intros)

lemma oblivious_replace_slot_data [oblivious_intros]: "oblivious alike (replace_slot_data_inner to_json row)"
  by (simp add: replace_slot_data_inner_def oblivious_intros)

lemma oblivious_replace_slots [oblivious_intros]: "oblivious alike (replace_slots to_json rows)"
  by (induction rows) (simp_all add: oblivious_intros)

lemma oblivious_abandon: "oblivious R m \<Longrightarrow> oblivious R (\<lambda>s. (r, snd (m s)))"
  by (simp add: oblivious_def)

lemma oblivious_replace_slots_batch [oblivious_intros]: "oblivious alike (replace_slots_batch to_json rows)"
  unfolding replace_slots_batch_def by (intro oblivious_intros oblivious_abandon)

lemma oblivious_flush [oblivious_intros]: "oblivious alike (flush_parsed_batch to_json bs)"
  by (simp add: flush_parsed_batch_def oblivious_intros)

lemma oblivious_status [oblivious_intros]: "oblivious alike (upsert_ingestion_status slot status memo)"
  by (simp add: upsert_ingestion_status_def oblivious_intros)

lemma oblivious_no_panic [oblivious_intros]: "oblivious alike m \<Longrightarrow> oblivious alike (no_panic m)"
  unfolding no_panic_def by (intro oblivious_intros)

lemma oblivious_store_series [oblivious_intros]: "oblivious alike (store_series iv ms)"
  by (induction ms rule: store_series.induct) (simp_all add: oblivious_intros)

lemma oblivious_store_intervals [oblivious_intros]: "oblivious alike (store_intervals it trades ivs)"
proof (induction ivs)
  case (Cons iv ivs)
  then show ?case
    unfolding store_intervals.simps by (intro oblivious_intros)
qed (simp add: oblivious_intros)

lemma oblivious_build_candles [oblivious_intros]: "oblivious alike (build_and_store_candles ho from_slot to_slot)"
  unfolding build_and_store_candles_def Let_def by (intro oblivious_intros)

subsection \<open>The shared connection\<close>

definition alike_shared :: "shared \<Rightarrow> shared \<Rightarrow> bool" where
  "alike_shared sh sh' \<longleftrightarrow> mx_poisoned sh = mx_poisoned sh' \<and> alike (mx_conn sh) (mx_conn sh')"

lemma oblivious_db_blocking [oblivious_intros]:
  assumes "oblivious alike job"
  shows "oblivious alike_shared (db_blocking ctx job)"
proof (rule obliviousI)
  fix sh sh' assume a: "alike_shared sh sh'"
  obtain r c where j: "job (mx_conn sh) = (r, c)" by fastforce
  obtain c' where j': "job (mx_conn sh') = (r, c')" "alike c c'"
    using a by (auto simp: alike_shared_def intro: obliviousD [OF assms _ j])
  show "\<exists>r t t'. db_blocking ctx job sh = (r, t) \<and> db_blocking ctx job sh' = (r, t') \<and> alike_shared t t'"
    using a j j' by (auto simp: db_blocking_def alike_shared_def split: option.split sum.split)
qed

lemma oblivious_record_outcome [oblivious_intros]: "oblivious alike_shared (record_outcome p st)"
  unfolding record_outcome_def Let_def by (cases "status_of p") (simp, intro oblivious_intros)

lemma oblivious_cli_error [oblivious_intros]:
  "(\<And>x. oblivious R (f x)) \<Longrightarrow> (\<And>x. oblivious R (g x)) \<Longrightarrow>
     oblivious R (\<lambda>s. case e of StorageFailed x \<Rightarrow> f x s | WorkerPanicked x \<Rightarrow> g x s)"
  by (cases e) simp_all

lemma oblivious_flush_if_full [oblivious_intros]: "oblivious alike_shared (flush_if_full to_json n st)"
  unfolding flush_if_full_def by (intro oblivious_intros)

lemma oblivious_store_loop [oblivious_intros]: "oblivious alike_shared (store_loop to_json args ps st)"
proof (induction ps arbitrary: st)
  case Nil
  have "store_loop to_json args [] st = Pair (Inr st)" by (rule ext) simp
  then show ?case by (simp add: oblivious_intros)
next
  case (Cons p ps)
  then show ?case unfolding store_loop.simps by (intro oblivious_intros)
qed

lemma oblivious_final_flush [oblivious_intros]: "oblivious alike_shared (final_flush to_json st)"
  unfolding final_flush_def by (intro oblivious_intros)

lemma oblivious_candle_pass [oblivious_intros]: "oblivious alike_shared (candle_pass ho args)"
  unfolding candle_pass_def by (intro oblivious_intros)

lemma oblivious_read_stats [oblivious_intros]: "oblivious alike_shared read_stats"
  unfolding read_stats_def by (intro oblivious_intros)

lemma oblivious_finish [oblivious_intros]: "oblivious alike_shared (finish_ingest ho args st)"
  unfolding finish_ingest_def by (intro oblivious_intros)

lemma alike_shared_refl: "quiet sh \<Longrightarrow> alike_shared sh sh"
  by (simp add: alike_shared_def alike_def quiet_def)

lemma alike_shared_sym: "alike_shared x y \<Longrightarrow> alike_shared y x"
  by (simp add: alike_shared_def alike_def)

lemma alike_shared_committed: "alike_shared x y \<Longrightarrow> committed x = committed y"
  by (simp add: alike_shared_def alike_def)

text \<open>A request leaves a connection that no job can tell from the one it found.\<close>

lemma route_alike:
  assumes "alike_shared x sh" and "route a et q sh = (resp, sh')"
  shows "alike_shared x sh'"
proof -
  obtain b c where t: "take_fault (mx_conn sh) = (b, c)" by fastforce
  note F = take_fault_facts [OF t]
  have "alike (mx_conn x) c" using F assms(1) by (auto simp: alike_shared_def alike_def)
  moreover have "sh' = sh \<or> sh' = sh\<lparr>mx_conn := c\<rparr>"
    using assms(2) t
    by (cases q) (auto simp: get_health_def get_contention_def get_tokens_def get_ohlcv_def respond_def reader.run_query
        split: option.splits if_splits)
  ultimately show ?thesis using assms(1) by (auto simp: alike_shared_def)
qed

lemma alike_shared_quiet: "alike_shared x y \<Longrightarrow> quiet x \<Longrightarrow> quiet y"
  by (simp add: alike_shared_def alike_def quiet_def)

lemma route_same:
  assumes "quiet x" and "quiet y" and "committed x = committed y"
  shows "fst (route a et q x) = fst (route a et q y)"
proof (cases q)
  case (GetOhlcv oq)
  show ?thesis
  proof (cases "interval_sec (oq_interval oq)")
    case (Some iv)
    have "oq = \<lparr>oq_mint = oq_mint oq, oq_interval = oq_interval oq\<rparr>" by simp
    then show ?thesis using route_quiet(3) [OF assms(1) Some] route_quiet(3) [OF assms(2) Some] assms(3) GetOhlcv by metis
  qed (simp add: GetOhlcv get_ohlcv_def)
qed (use route_quiet(1,2) [OF assms(1)] route_quiet(1,2) [OF assms(2)] assms(3) in \<open>simp_all add: get_health_def\<close>)

lemma requests_quiet:
  assumes "quiet sh"
  obtains sh' where "requests a et qs sh = (map (\<lambda>q. fst (route a et q sh)) qs, sh')" "quiet sh'" "committed sh' = committed sh"
proof -
  have "\<exists>sh'. requests a et qs sh = (map (\<lambda>q. fst (route a et q sh)) qs, sh') \<and> quiet sh' \<and> committed sh' = committed sh"
    using assms
  proof (induction qs arbitrary: sh)
    case (Cons q qs)
    obtain x sh1 where 1: "route a et q sh = (x, sh1)" by fastforce
    note a = route_alike [OF alike_shared_refl [OF Cons.prems] 1]
    have q1: "quiet sh1" "committed sh1 = committed sh"
      using alike_shared_quiet [OF a Cons.prems] alike_shared_committed [OF a] by simp_all
    obtain sh' where 2: "requests a et qs sh1 = (map (\<lambda>q. fst (route a et q sh1)) qs, sh')" "quiet sh'" "committed sh' = committed sh1"
      using Cons.IH [OF q1(1)] by blast
    have "requests a et (q # qs) sh = (x # map (\<lambda>q. fst (route a et q sh)) qs, sh')"
      using route_same [OF q1(1) Cons.prems q1(2)] by (simp add: 1 2(1))
    then show ?case using 1 2 q1 by simp
  qed simp
  then show thesis using that by blast
qed

end
