(* ===== verification/Tasks.thy ===== *)
theory Tasks
  imports Noninterference
begin

section \<open>The jobs of the store task\<close>

text \<open>
  For each outcome the store task runs two jobs on the connection, one that records the status and, when the batch is
  full, one that flushes it (\<open>crates/cli/src/main.rs\<close>, the task \<open>store\<close> of \<open>run_ingest\<close>).  Theory \<open>Command\<close>
  takes both as one step of the task.  Here they are two, so that other users of the connection can run between
  them, and a simulation brings the results of theory \<open>Command\<close> over.  A job and the message received before it remain
  one step.
\<close>

record tasks =
  tk_live :: live
  tk_due :: bool

definition tasks_init :: "fetch_outcome list \<Rightarrow> shared \<Rightarrow> tasks" where
  "tasks_init outs sh = \<lparr>tk_live = live_init outs sh, tk_due = False\<rparr>"

text \<open>\<open>tk_due\<close> holds between the two jobs of an outcome.\<close>

inductive task_step ::
  "(string list \<Rightarrow> string option) \<Rightarrow> store_args \<Rightarrow> tasks \<Rightarrow> tasks \<Rightarrow> bool" for to_json args where
  fetch_parse:
    "pipeline_step (lv_pipe v) q \<Longrightarrow> pl_store q = pl_store (lv_pipe v) \<Longrightarrow> pl_stored q = pl_stored (lv_pipe v) \<Longrightarrow>
       task_step to_json args \<lparr>tk_live = v, tk_due = d\<rparr> \<lparr>tk_live = v\<lparr>lv_pipe := q\<rparr>, tk_due = d\<rparr>"
| record_one:
    "pl_store (lv_pipe v) = Running \<Longrightarrow> channel_recv (pl_parsed (lv_pipe v)) = Received y ch \<Longrightarrow>
       record_outcome y (pause_once args (lv_state v)) (lv_shared v) = (Inr st, sh) \<Longrightarrow>
       task_step to_json args \<lparr>tk_live = v, tk_due = False\<rparr>
         \<lparr>tk_live = v\<lparr>lv_pipe := (lv_pipe v)\<lparr>pl_parsed := ch, pl_stored := pl_stored (lv_pipe v) @ [y]\<rparr>,
            lv_state := st, lv_shared := sh\<rparr>, tk_due = True\<rparr>"
| record_fails:
    "pl_store (lv_pipe v) = Running \<Longrightarrow> channel_recv (pl_parsed (lv_pipe v)) = Received y ch \<Longrightarrow>
       record_outcome y (pause_once args (lv_state v)) (lv_shared v) = (Inl e, sh) \<Longrightarrow>
       task_step to_json args \<lparr>tk_live = v, tk_due = False\<rparr>
         \<lparr>tk_live = v\<lparr>lv_pipe := (lv_pipe v)\<lparr>pl_parsed := ch\<lparr>ch_receiver := False\<rparr>, pl_store := Bailed\<rparr>,
            lv_shared := sh, lv_result := Some (Inl e)\<rparr>, tk_due = False\<rparr>"
| flush:
    "flush_if_full to_json (sa_batch_size args) (lv_state v) (lv_shared v) = (Inr st, sh) \<Longrightarrow>
       task_step to_json args \<lparr>tk_live = v, tk_due = True\<rparr>
         \<lparr>tk_live = v\<lparr>lv_state := st, lv_shared := sh\<rparr>, tk_due = False\<rparr>"
| flush_fails:
    "flush_if_full to_json (sa_batch_size args) (lv_state v) (lv_shared v) = (Inl e, sh) \<Longrightarrow>
       task_step to_json args \<lparr>tk_live = v, tk_due = True\<rparr>
         \<lparr>tk_live = v\<lparr>lv_pipe := (lv_pipe v)
              \<lparr>pl_parsed := (pl_parsed (lv_pipe v))\<lparr>ch_receiver := False\<rparr>, pl_store := Bailed\<rparr>,
            lv_shared := sh, lv_result := Some (Inl e)\<rparr>, tk_due = False\<rparr>"
| store_ends:
    "pl_store (lv_pipe v) = Running \<Longrightarrow> channel_recv (pl_parsed (lv_pipe v)) = Closed \<Longrightarrow>
       final_flush to_json (lv_state v) (lv_shared v) = (r, sh) \<Longrightarrow>
       task_step to_json args \<lparr>tk_live = v, tk_due = False\<rparr>
         \<lparr>tk_live = v\<lparr>lv_pipe := (lv_pipe v)
              \<lparr>pl_parsed := (pl_parsed (lv_pipe v))\<lparr>ch_receiver := False\<rparr>, pl_store := Finished\<rparr>,
            lv_shared := sh, lv_result := Some r\<rparr>, tk_due = False\<rparr>"

definition tasks_halted :: "(string list \<Rightarrow> string option) \<Rightarrow> store_args \<Rightarrow> tasks \<Rightarrow> bool" where
  "tasks_halted to_json args t \<longleftrightarrow> (\<nexists>u. task_step to_json args t u)"

subsection \<open>Poisoning\<close>

lemma record_not_poisoned:
  assumes "record_outcome p st sh = (Inr st1, sh1)"
  shows "\<not> mx_poisoned sh1"
proof -
  obtain slot status memo where s: "status_of p = (slot, status, memo)" by (cases "status_of p") auto
  show ?thesis
    using assms by (auto simp: record_outcome_def s db_blocking_def split: if_splits option.splits sum.splits prod.splits)
qed

text \<open>So the flush that follows cannot end the task: the storage errors are only logged.\<close>

lemma flush_if_full_total:
  assumes "\<not> mx_poisoned sh"
  obtains st1 sh1 where "flush_if_full to_json n st sh = (Inr st1, sh1)" "\<not> mx_poisoned sh1"
proof -
  obtain r c where "no_panic (flush_parsed_batch to_json (pending_batch st)) (mx_conn sh) = (Some r, c)"
    by (cases "flush_parsed_batch to_json (pending_batch st) (mx_conn sh)") (simp add: no_panic_def)
  then have "\<exists>st1 sh1. flush_if_full to_json n st sh = (Inr st1, sh1) \<and> \<not> mx_poisoned sh1"
    using assms by (cases r) (simp_all add: flush_if_full_def db_blocking_def)
  then show thesis using that by blast
qed

lemma store_loop_one:
  "store_loop to_json args [y] st sh =
     (case record_outcome y (pause_once args st) sh of
        (Inl e, sh1) \<Rightarrow> (Inl e, sh1)
      | (Inr st1, sh1) \<Rightarrow> flush_if_full to_json (sa_batch_size args) st1 sh1)"
  by (auto split: prod.split sum.split)

subsection \<open>Halting\<close>

lemma halted_iff: "halted to_json args v \<longleftrightarrow> (\<nexists>q. pipeline_step (lv_pipe v) q)"
  using live_step_pipeline live_follows unfolding halted_def by blast

lemma task_follows:
  assumes "live_step to_json args v w"
  shows "\<exists>u. task_step to_json args \<lparr>tk_live = v, tk_due = False\<rparr> u"
  using assms
proof cases
  case (store_one y ch st sh)
  obtain r sh1 where "record_outcome y (pause_once args (lv_state v)) (lv_shared v) = (r, sh1)" by fastforce
  then show ?thesis
    using store_one(2,3) by (cases r) (blast intro: task_step.record_one task_step.record_fails)+
next
  case (store_fails y ch e sh)
  obtain r sh1 where "record_outcome y (pause_once args (lv_state v)) (lv_shared v) = (r, sh1)" by fastforce
  then show ?thesis
    using store_fails(2,3) by (cases r) (blast intro: task_step.record_one task_step.record_fails)+
qed (blast intro: task_step.fetch_parse task_step.store_ends)+

lemma tasks_haltedD:
  assumes "tasks_halted to_json args t"
  shows "\<not> tk_due t" and "halted to_json args (tk_live t)"
proof -
  obtain v d where t: "t = \<lparr>tk_live = v, tk_due = d\<rparr>" by (cases t)
  have "\<exists>u. task_step to_json args \<lparr>tk_live = v, tk_due = True\<rparr> u"
  proof -
    obtain r sh where "flush_if_full to_json (sa_batch_size args) (lv_state v) (lv_shared v) = (r, sh)" by fastforce
    then show ?thesis by (cases r) (blast intro: task_step.flush task_step.flush_fails)+
  qed
  then show d: "\<not> tk_due t" using assms by (auto simp: t tasks_halted_def)
  show "halted to_json args (tk_live t)"
    using assms d task_follows unfolding t tasks_halted_def halted_def by fastforce
qed

lemma tasks_halted_iff:
  "tasks_halted to_json args \<lparr>tk_live = v, tk_due = False\<rparr> \<longleftrightarrow> halted to_json args v"
proof
  assume h: "halted to_json args v"
  show "tasks_halted to_json args \<lparr>tk_live = v, tk_due = False\<rparr>"
    unfolding tasks_halted_def
  proof
    assume "\<exists>u. task_step to_json args \<lparr>tk_live = v, tk_due = False\<rparr> u"
    then have "\<exists>q. pipeline_step (lv_pipe v) q"
      by (auto elim!: task_step.cases intro: pipeline_step.store_recv pipeline_step.store_error pipeline_step.store_end)
    then show False using h by (simp add: halted_iff)
  qed
qed (auto dest: tasks_haltedD)

subsection \<open>Simulation\<close>

text \<open>Each step of theory \<open>Command\<close> is one or two steps here.\<close>

lemma live_step_tasks:
  assumes "live_step to_json args v w"
  shows "(task_step to_json args)\<^sup>*\<^sup>* \<lparr>tk_live = v, tk_due = False\<rparr> \<lparr>tk_live = w, tk_due = False\<rparr>"
  using assms
proof cases
  case (fetch_parse q)
  then show ?thesis by (blast intro: task_step.fetch_parse)
next
  case (store_one y ch st sh)
  then obtain st1 sh1 where r: "record_outcome y (pause_once args (lv_state v)) (lv_shared v) = (Inr st1, sh1)"
    "flush_if_full to_json (sa_batch_size args) st1 sh1 = (Inr st, sh)"
    by (auto simp: store_loop_one split: prod.splits sum.splits)
  let ?v = "v\<lparr>lv_pipe := (lv_pipe v)\<lparr>pl_parsed := ch, pl_stored := pl_stored (lv_pipe v) @ [y]\<rparr>, lv_state := st1, lv_shared := sh1\<rparr>"
  have "task_step to_json args \<lparr>tk_live = ?v, tk_due = True\<rparr> \<lparr>tk_live = ?v\<lparr>lv_state := st, lv_shared := sh\<rparr>, tk_due = False\<rparr>"
    by (rule task_step.flush) (simp add: r(2))
  moreover have "?v\<lparr>lv_state := st, lv_shared := sh\<rparr> = w" using store_one(1) by simp
  ultimately show ?thesis
    using task_step.record_one [of v y ch args st1 sh1 to_json] store_one(2,3) r(1)
    by (metis (no_types, lifting) converse_rtranclp_into_rtranclp r_into_rtranclp)
next
  case (store_fails y ch e sh)
  show ?thesis
  proof (cases "record_outcome y (pause_once args (lv_state v)) (lv_shared v)")
    case (Pair r sh1)
    show ?thesis
    proof (cases r)
      case (Inl e1)
      then have "e1 = e" "sh1 = sh" using store_fails(4) Pair by (simp_all add: store_loop_one)
      then show ?thesis
        using task_step.record_fails [of v y ch args e sh to_json] store_fails Pair Inl by (simp add: r_into_rtranclp)
    next
      case (Inr st1)
      obtain st2 sh2 where "flush_if_full to_json (sa_batch_size args) st1 sh1 = (Inr st2, sh2)"
        by (rule flush_if_full_total [OF record_not_poisoned [OF Pair [unfolded Inr]]])
      then show ?thesis using store_fails(4) Pair Inr by (simp add: store_loop_one)
    qed
  qed
next
  case (store_ends r sh)
  then show ?thesis by (blast intro: task_step.store_ends)
qed

lemma live_steps_tasks:
  "(live_step to_json args)\<^sup>*\<^sup>* v w \<Longrightarrow>
     (task_step to_json args)\<^sup>*\<^sup>* \<lparr>tk_live = v, tk_due = False\<rparr> \<lparr>tk_live = w, tk_due = False\<rparr>"
  by (induction rule: rtranclp_induct) (auto intro: rtranclp_trans live_step_tasks)

lemma tasks_halt:
  obtains w where "(task_step to_json args)\<^sup>*\<^sup>* t \<lparr>tk_live = w, tk_due = False\<rparr>" "halted to_json args w"
proof -
  obtain v where v: "(task_step to_json args)\<^sup>*\<^sup>* t \<lparr>tk_live = v, tk_due = False\<rparr>"
  proof (cases t)
    case (fields v d)
    obtain r sh where "flush_if_full to_json (sa_batch_size args) (lv_state v) (lv_shared v) = (r, sh)" by fastforce
    then have "\<exists>v'. task_step to_json args \<lparr>tk_live = v, tk_due = True\<rparr> \<lparr>tk_live = v', tk_due = False\<rparr>"
      by (cases r) (blast intro: task_step.flush task_step.flush_fails)+
    then show thesis using that fields by (cases d) (auto intro: r_into_rtranclp)
  qed
  obtain w where "(live_step to_json args)\<^sup>*\<^sup>* v w" "halted to_json args w" using live_halts by blast
  then show thesis using that v live_steps_tasks by (meson rtranclp_trans)
qed

text \<open>
  A relation on states that no job of the run can observe: its results do not differ.  The state in which both jobs of an
  outcome are done corresponds to the one in which the second is due.
\<close>

locale observation =
  fixes R :: "shared \<Rightarrow> shared \<Rightarrow> bool"
  assumes records: "oblivious R (record_outcome p st)"
    and flushes: "oblivious R (flush_if_full to_json n st)"
    and finals: "oblivious R (final_flush to_json st)"
    and candle_passes: "oblivious R (candle_pass ho args)"
    and reads: "oblivious R read_stats"
    and poison: "R x y \<Longrightarrow> mx_poisoned x = mx_poisoned y"

definition task_sim ::
  "(shared \<Rightarrow> shared \<Rightarrow> bool) \<Rightarrow> (string list \<Rightarrow> string option) \<Rightarrow> store_args \<Rightarrow> live \<Rightarrow> tasks \<Rightarrow> bool" where
  "task_sim R to_json args w t \<longleftrightarrow>
     (let v = tk_live t
      in lv_pipe w = lv_pipe v \<and> lv_result w = lv_result v \<and>
         (if tk_due t
          then \<not> mx_poisoned (lv_shared v) \<and>
            (\<exists>x. R x (lv_shared v) \<and>
               flush_if_full to_json (sa_batch_size args) (lv_state v) x = (Inr (lv_state w), lv_shared w))
          else lv_state w = lv_state v \<and> R (lv_shared w) (lv_shared v)))"

context observation
begin

lemma step_sim:
  assumes "task_step to_json args t u" and sim: "task_sim R to_json args w t"
  obtains w' where "(live_step to_json args)\<^sup>*\<^sup>* w w'" "task_sim R to_json args w' u"
  using assms(1)
proof cases
  case (fetch_parse v q d)
  have "live_step to_json args w (w\<lparr>lv_pipe := q\<rparr>)"
    using fetch_parse sim by (intro live_step.fetch_parse) (simp_all add: task_sim_def)
  moreover have "task_sim R to_json args (w\<lparr>lv_pipe := q\<rparr>) u" using fetch_parse sim by (simp add: task_sim_def)
  ultimately show thesis using that by blast
next
  case (record_one v y ch st sh)
  have w: "lv_pipe w = lv_pipe v" "lv_state w = lv_state v" "R (lv_shared w) (lv_shared v)" "lv_result w = lv_result v"
    using sim record_one(1) by (simp_all add: task_sim_def)
  obtain r x where x: "record_outcome y (pause_once args (lv_state w)) (lv_shared w) = (r, x)" by fastforce
  obtain x' where "record_outcome y (pause_once args (lv_state w)) (lv_shared v) = (r, x')" "R x x'"
    by (rule obliviousD [OF records w(3) x])
  then have r: "r = Inr st" "R x sh" using record_one(5) w(2) by simp_all
  obtain st2 x2 where f: "flush_if_full to_json (sa_batch_size args) st x = (Inr st2, x2)"
    by (rule flush_if_full_total [OF record_not_poisoned [OF x [unfolded r(1)]]])
  have "live_step to_json args w (w\<lparr>lv_pipe := (lv_pipe w)\<lparr>pl_parsed := ch, pl_stored := pl_stored (lv_pipe w) @ [y]\<rparr>,
      lv_state := st2, lv_shared := x2\<rparr>)"
    using record_one(3,4) w(1) x r(1) f by (intro live_step.store_one) (simp_all add: store_loop_one del: store_loop.simps)
  then show thesis
    using record_not_poisoned [OF record_one(5)] record_one w r(2) f
    by (intro that [OF r_into_rtranclp]) (auto simp: task_sim_def)
next
  case (record_fails v y ch e sh)
  have w: "lv_pipe w = lv_pipe v" "lv_state w = lv_state v" "R (lv_shared w) (lv_shared v)"
    using sim record_fails(1) by (simp_all add: task_sim_def)
  obtain r x where x: "record_outcome y (pause_once args (lv_state w)) (lv_shared w) = (r, x)" by fastforce
  obtain x' where "record_outcome y (pause_once args (lv_state w)) (lv_shared v) = (r, x')" "R x x'"
    by (rule obliviousD [OF records w(3) x])
  then have r: "r = Inl e" "R x sh" using record_fails(5) w(2) by simp_all
  have l: "store_loop to_json args [y] (lv_state w) (lv_shared w) = (Inl e, x)"
    unfolding store_loop_one x r(1) by simp
  have "live_step to_json args w (w\<lparr>lv_pipe := (lv_pipe w)\<lparr>pl_parsed := ch\<lparr>ch_receiver := False\<rparr>, pl_store := Bailed\<rparr>,
      lv_shared := x, lv_result := Some (Inl e)\<rparr>)"
    using record_fails(3,4) w(1) l by (intro live_step.store_fails) (simp_all del: store_loop.simps)
  then show thesis
    using record_fails w r(2) by (intro that [OF r_into_rtranclp]) (auto simp: task_sim_def)
next
  case (flush v st sh)
  then obtain x where x: "R x (lv_shared v)"
    "flush_if_full to_json (sa_batch_size args) (lv_state v) x = (Inr (lv_state w), lv_shared w)"
    using sim by (auto simp: task_sim_def)
  obtain sh' where "flush_if_full to_json (sa_batch_size args) (lv_state v) (lv_shared v) = (Inr (lv_state w), sh')"
    "R (lv_shared w) sh'"
    by (rule obliviousD [OF flushes x])
  then show thesis using flush sim by (intro that [OF rtranclp.rtrancl_refl]) (auto simp: task_sim_def)
next
  case (flush_fails v e sh)
  have "\<not> mx_poisoned (lv_shared v)" using sim flush_fails(1) by (simp add: task_sim_def)
  then show thesis using flush_if_full_total flush_fails(3) by (metis Inl_Inr_False Pair_inject)
next
  case (store_ends v r sh)
  have w: "lv_pipe w = lv_pipe v" "lv_state w = lv_state v" "R (lv_shared w) (lv_shared v)"
    using sim store_ends(1) by (simp_all add: task_sim_def)
  obtain r' x where x: "final_flush to_json (lv_state w) (lv_shared w) = (r', x)" by fastforce
  obtain x' where "final_flush to_json (lv_state w) (lv_shared v) = (r', x')" "R x x'"
    by (rule obliviousD [OF finals w(3) x])
  then have r: "r' = r" "R x sh" using store_ends(5) w(2) by simp_all
  have "live_step to_json args w (w\<lparr>lv_pipe := (lv_pipe w)
      \<lparr>pl_parsed := (pl_parsed (lv_pipe w))\<lparr>ch_receiver := False\<rparr>, pl_store := Finished\<rparr>, lv_shared := x, lv_result := Some r\<rparr>)"
    using store_ends(3,4) w(1) x r(1) by (intro live_step.store_ends) simp_all
  then show thesis
    using store_ends w r(2) by (intro that [OF r_into_rtranclp]) (auto simp: task_sim_def)
qed

lemma halted_sim:
  assumes "task_sim R to_json args w t" and "tasks_halted to_json args t"
  shows "halted to_json args w" and "join_stages w = join_stages (tk_live t)" and "R (lv_shared w) (lv_shared (tk_live t))"
proof -
  note H = tasks_haltedD [OF assms(2)]
  have "lv_pipe w = lv_pipe (tk_live t)" "lv_result w = lv_result (tk_live t)" using assms(1) by (simp_all add: task_sim_def Let_def)
  then show "halted to_json args w" and "join_stages w = join_stages (tk_live t)"
    using H(2) by (simp_all add: halted_iff join_stages_def split: task.split)
  show "R (lv_shared w) (lv_shared (tk_live t))" using assms(1) H(1) by (simp add: task_sim_def Let_def)
qed

end

interpretation exact: observation "(=)"
  by unfold_locales (simp_all add: oblivious_def)

interpretation healthy: observation alike_shared
  by unfold_locales (auto intro: oblivious_intros simp: alike_shared_def)

end
