(* ===== verification/Serve.thy ===== *)
theory Serve
  imports Tasks
begin

section \<open>Serving during an ingest\<close>

text \<open>
  With \<open>--serve\<close>, \<open>run_ingest\<close> of \<open>crates/cli/src/main.rs\<close> gives the router the connection of the
  ingest.  A request runs as one step between any two jobs on that connection: the two jobs of theory \<open>Tasks\<close> for each outcome,
  the final flush, the candle pass and the statistics, and afterwards until Ctrl-C.  A run that fails ends the process.
\<close>

datatype phase =
    Ingesting
  | BuildingCandles store_state
  | ReadingStats store_state
  | Ended "ingest_error + store_state \<times> db_stats"

record served =
  sv_tasks :: tasks
  sv_phase :: phase
  sv_answers :: "(request \<times> response) list"

record server =
  srv_on :: bool
  srv_assets :: assets
  srv_texts :: error_texts

definition served_init :: "fetch_outcome list \<Rightarrow> shared \<Rightarrow> served" where
  "served_init outs sh = \<lparr>sv_tasks = tasks_init outs sh, sv_phase = Ingesting, sv_answers = []\<rparr>"

abbreviation sv_live :: "served \<Rightarrow> live" where
  "sv_live s \<equiv> tk_live (sv_tasks s)"

abbreviation sv_shared :: "served \<Rightarrow> shared" where
  "sv_shared s \<equiv> lv_shared (sv_live s)"

definition with_shared :: "shared \<Rightarrow> served \<Rightarrow> served" where
  "with_shared sh s = s\<lparr>sv_tasks := (sv_tasks s)\<lparr>tk_live := (sv_live s)\<lparr>lv_shared := sh\<rparr>\<rparr>\<rparr>"

inductive served_step ::
  "(string list \<Rightarrow> string option) \<Rightarrow> hash_order \<Rightarrow> ingest_args \<Rightarrow> server \<Rightarrow> served \<Rightarrow> served \<Rightarrow> bool"
  for to_json ho args srv where
  task:
    "sv_phase s = Ingesting \<Longrightarrow> task_step to_json (ia_store args) (sv_tasks s) t \<Longrightarrow>
       served_step to_json ho args srv s (s\<lparr>sv_tasks := t\<rparr>)"
| join_fails:
    "sv_phase s = Ingesting \<Longrightarrow> tasks_halted to_json (ia_store args) (sv_tasks s) \<Longrightarrow> join_stages (sv_live s) = Some (Inl e) \<Longrightarrow>
       served_step to_json ho args srv s (s\<lparr>sv_phase := Ended (Inl e)\<rparr>)"
| joined:
    "sv_phase s = Ingesting \<Longrightarrow> tasks_halted to_json (ia_store args) (sv_tasks s) \<Longrightarrow> join_stages (sv_live s) = Some (Inr st) \<Longrightarrow>
       served_step to_json ho args srv s (s\<lparr>sv_phase := BuildingCandles st\<rparr>)"
| candles_fail:
    "sv_phase s = BuildingCandles st \<Longrightarrow> candle_pass ho args (sv_shared s) = (Inl e, sh) \<Longrightarrow>
       served_step to_json ho args srv s (with_shared sh (s\<lparr>sv_phase := Ended (Inl (Reported e))\<rparr>))"
| candles_built:
    "sv_phase s = BuildingCandles st \<Longrightarrow> candle_pass ho args (sv_shared s) = (Inr u, sh) \<Longrightarrow>
       served_step to_json ho args srv s (with_shared sh (s\<lparr>sv_phase := ReadingStats st\<rparr>))"
| stats_fail:
    "sv_phase s = ReadingStats st \<Longrightarrow> read_stats (sv_shared s) = (Inl e, sh) \<Longrightarrow>
       served_step to_json ho args srv s (with_shared sh (s\<lparr>sv_phase := Ended (Inl (Reported e))\<rparr>))"
| stats_read:
    "sv_phase s = ReadingStats st \<Longrightarrow> read_stats (sv_shared s) = (Inr stats, sh) \<Longrightarrow>
       served_step to_json ho args srv s (with_shared sh (s\<lparr>sv_phase := Ended (Inr (st, stats))\<rparr>))"
| request:
    "srv_on srv \<Longrightarrow> (\<nexists>e. sv_phase s = Ended (Inl e)) \<Longrightarrow>
       route (srv_assets srv) (srv_texts srv) q (sv_shared s) = (x, sh) \<Longrightarrow>
       served_step to_json ho args srv s (with_shared sh (s\<lparr>sv_answers := sv_answers s @ [(q, x)]\<rparr>))"

inductive_cases served_stepE: "served_step to_json ho args srv s t"

lemma with_shared_simps [simp]:
  "sv_live (with_shared sh s) = (sv_live s)\<lparr>lv_shared := sh\<rparr>" "tk_due (sv_tasks (with_shared sh s)) = tk_due (sv_tasks s)" "sv_phase (with_shared sh s) = sv_phase s"
  "sv_answers (with_shared sh s) = sv_answers s"
  by (simp_all add: with_shared_def)

subsection \<open>The ingest does not notice\<close>

text \<open>
  When no job can observe what the requests do (\<open>R\<close>), a state of the serving run corresponds to one of
  \<open>ingest_command\<close>.
\<close>

definition joined_at ::
  "(string list \<Rightarrow> string option) \<Rightarrow> ingest_args \<Rightarrow> fetch_outcome list \<Rightarrow> shared \<Rightarrow> store_state \<Rightarrow> live \<Rightarrow> bool" where
  "joined_at to_json args outs sh0 st w \<longleftrightarrow>
     (live_step to_json (ia_store args))\<^sup>*\<^sup>* (live_init outs sh0) w \<and> halted to_json (ia_store args) w \<and>
     join_stages w = Some (Inr st)"

definition served_inv ::
  "(shared \<Rightarrow> shared \<Rightarrow> bool) \<Rightarrow> (string list \<Rightarrow> string option) \<Rightarrow> hash_order \<Rightarrow> ingest_args \<Rightarrow> fetch_outcome list \<Rightarrow>
     shared \<Rightarrow> served \<Rightarrow> bool" where
  "served_inv R to_json ho args outs sh0 s \<longleftrightarrow>
     (case sv_phase s of
        Ingesting \<Rightarrow>
          (\<exists>w. (live_step to_json (ia_store args))\<^sup>*\<^sup>* (live_init outs sh0) w \<and> task_sim R to_json (ia_store args) w (sv_tasks s))
      | BuildingCandles st \<Rightarrow> (\<exists>w. joined_at to_json args outs sh0 st w \<and> R (lv_shared w) (sv_shared s))
      | ReadingStats st \<Rightarrow>
          (\<exists>w sh. joined_at to_json args outs sh0 st w \<and> candle_pass ho args (lv_shared w) = (Inr (), sh) \<and> R sh (sv_shared s))
      | Ended r \<Rightarrow> (\<exists>sh. ingest_command to_json ho args outs sh0 (r, sh) \<and> R sh (sv_shared s)))"

locale bystander = observation +
  fixes srv :: server
  assumes unnoticed: "srv_on srv \<Longrightarrow> R x sh \<Longrightarrow> route (srv_assets srv) (srv_texts srv) q sh = (y, sh') \<Longrightarrow> R x sh'"
begin

lemma init: "R sh sh \<Longrightarrow> served_inv R to_json ho args outs sh (served_init outs sh)"
  by (auto simp: served_inv_def served_init_def tasks_init_def task_sim_def live_init_def)

lemma ended:
  assumes "joined_at to_json args outs sh0 st w" and "finish_ingest ho args st (lv_shared w) = (r, sh)"
  shows "ingest_command to_json ho args outs sh0 (map_sum Reported id r, sh)"
  using assms unfolding joined_at_def by (blast intro: ingest_command.stages_done)

lemma step:
  assumes "served_step to_json ho args srv s t" and inv: "served_inv R to_json ho args outs sh0 s"
  shows "served_inv R to_json ho args outs sh0 t"
  using assms(1)
proof cases
  case (task u)
  then obtain w where w: "(live_step to_json (ia_store args))\<^sup>*\<^sup>* (live_init outs sh0) w" "task_sim R to_json (ia_store args) w (sv_tasks s)"
    using inv by (auto simp: served_inv_def)
  obtain w' where "(live_step to_json (ia_store args))\<^sup>*\<^sup>* w w'" "task_sim R to_json (ia_store args) w' u"
    by (rule step_sim [OF task(3) w(2)])
  then show ?thesis using task w(1) by (auto simp: served_inv_def intro: rtranclp_trans)
next
  case (join_fails e)
  then obtain w where w: "(live_step to_json (ia_store args))\<^sup>*\<^sup>* (live_init outs sh0) w" "task_sim R to_json (ia_store args) w (sv_tasks s)"
    using inv by (auto simp: served_inv_def)
  note H = halted_sim [OF w(2) join_fails(3)]
  have "ingest_command to_json ho args outs sh0 (Inl e, lv_shared w)"
    using w(1) H(1,2) join_fails(4) by (intro ingest_command.stage_error) simp_all
  then show ?thesis using join_fails H(3) by (auto simp: served_inv_def)
next
  case (joined st)
  then obtain w where w: "(live_step to_json (ia_store args))\<^sup>*\<^sup>* (live_init outs sh0) w" "task_sim R to_json (ia_store args) w (sv_tasks s)"
    using inv by (auto simp: served_inv_def)
  note H = halted_sim [OF w(2) joined(3)]
  have "joined_at to_json args outs sh0 st w" using w(1) H(1,2) joined(4) by (simp add: joined_at_def)
  then show ?thesis using joined H(3) by (auto simp: served_inv_def)
next
  case (candles_fail st e sh)
  then obtain w where w: "joined_at to_json args outs sh0 st w" "R (lv_shared w) (sv_shared s)"
    using inv by (auto simp: served_inv_def)
  obtain r x where x: "candle_pass ho args (lv_shared w) = (r, x)" by fastforce
  obtain x' where "candle_pass ho args (sv_shared s) = (r, x')" "R x x'" by (rule obliviousD [OF candle_passes w(2) x])
  then have r: "r = Inl e" "R x sh" using candles_fail(3) by simp_all
  have "finish_ingest ho args st (lv_shared w) = (Inl e, x)" using x r(1) by (simp add: finish_ingest_def)
  from ended [OF w(1) this] show ?thesis using candles_fail r(2) by (auto simp: served_inv_def)
next
  case (candles_built st u sh)
  then obtain w where w: "joined_at to_json args outs sh0 st w" "R (lv_shared w) (sv_shared s)"
    using inv by (auto simp: served_inv_def)
  obtain r x where x: "candle_pass ho args (lv_shared w) = (r, x)" by fastforce
  obtain x' where "candle_pass ho args (sv_shared s) = (r, x')" "R x x'" by (rule obliviousD [OF candle_passes w(2) x])
  then have r: "r = Inr ()" "R x sh" using candles_built(3) by simp_all
  then show ?thesis using candles_built w(1) x by (auto simp: served_inv_def)
next
  case (stats_fail st e sh)
  then obtain w y where w: "joined_at to_json args outs sh0 st w" "candle_pass ho args (lv_shared w) = (Inr (), y)"
    "R y (sv_shared s)"
    using inv by (auto simp: served_inv_def)
  obtain r x where x: "read_stats y = (r, x)" by fastforce
  obtain x' where "read_stats (sv_shared s) = (r, x')" "R x x'" by (rule obliviousD [OF reads w(3) x])
  then have r: "r = Inl e" "R x sh" using stats_fail(3) by simp_all
  have "finish_ingest ho args st (lv_shared w) = (Inl e, x)" using w(2) x r(1) by (simp add: finish_ingest_def)
  from ended [OF w(1) this] show ?thesis using stats_fail r(2) by (auto simp: served_inv_def)
next
  case (stats_read st stats sh)
  then obtain w y where w: "joined_at to_json args outs sh0 st w" "candle_pass ho args (lv_shared w) = (Inr (), y)"
    "R y (sv_shared s)"
    using inv by (auto simp: served_inv_def)
  obtain r x where x: "read_stats y = (r, x)" by fastforce
  obtain x' where "read_stats (sv_shared s) = (r, x')" "R x x'" by (rule obliviousD [OF reads w(3) x])
  then have r: "r = Inr stats" "R x sh" using stats_read(3) by simp_all
  have "finish_ingest ho args st (lv_shared w) = (Inr (st, stats), x)" using w(2) x r(1) by (simp add: finish_ingest_def)
  from ended [OF w(1) this] show ?thesis using stats_read r(2) by (auto simp: served_inv_def)
next
  case (request q x sh)
  have keep: "R y sh" if "R y (sv_shared s)" for y by (rule unnoticed [OF request(2) that request(4)])
  have "mx_poisoned sh = mx_poisoned (sv_shared s)" using route_keeps [OF request(4)] by simp
  then show ?thesis
    using inv keep request(1) by (cases "sv_phase s") (fastforce simp: served_inv_def task_sim_def Let_def)+
qed

lemma reachable:
  assumes "(served_step to_json ho args srv)\<^sup>*\<^sup>* (served_init outs sh) s" and "R sh sh"
  shows "served_inv R to_json ho args outs sh s"
  using assms by induction (auto intro: init step)

end

text \<open>
  Either nothing is requested or the engine refuses nothing.
\<close>

interpretation alone: bystander "(=)" "\<lparr>srv_on = False, srv_assets = a, srv_texts = et\<rparr>" for a et
  by unfold_locales simp

interpretation serving: bystander alike_shared srv for srv
  by unfold_locales (rule route_alike)

lemma served_alone:
  assumes "(served_step to_json ho args srv)\<^sup>*\<^sup>* (served_init outs sh) s" and "\<not> srv_on srv" and "sv_phase s = Ended r"
  shows "ingest_command to_json ho args outs sh (r, sv_shared s)"
proof -
  obtain a et where srv: "srv = \<lparr>srv_on = False, srv_assets = a, srv_texts = et\<rparr>" using assms(2) by (cases srv) simp
  show ?thesis using alone.reachable [OF assms(1) [unfolded srv]] assms(3) by (simp add: served_inv_def)
qed

lemma served_result:
  assumes "quiet sh" and "(served_step to_json ho args srv)\<^sup>*\<^sup>* (served_init outs sh) s" and "sv_phase s = Ended r"
  obtains sh' where "ingest_command to_json ho args outs sh (r, sh')" "alike_shared sh' (sv_shared s)"
  using serving.reachable [OF assms(2) alike_shared_refl [OF assms(1)]] assms(3) by (auto simp: served_inv_def)

subsection \<open>What the requests see\<close>

text \<open>The candle pass touches the candles only, whatever fails.\<close>

lemma store_series_keeps:
  "cn_txn c = Idle \<Longrightarrow> store_series iv ms c = (r, c') \<Longrightarrow>
     cn_txn c' = Idle \<and> (\<exists>x. cn_committed c' = (cn_committed c)\<lparr>candles := x\<rparr>)"
proof (induction ms arbitrary: c)
  case Nil
  then show ?case by (auto intro: exI [of _ "candles (cn_committed c)"])
next
  case (Cons m ms)
  obtain mint cs where m: "m = (mint, cs)" by fastforce
  obtain r1 c1 where 1: "upsert_candles mint iv cs c = (r1, c1)" by fastforce
  from upsert_candles_run [OF Cons.prems(1) 1] obtain x where c1: "cn_txn c1 = Idle"
    "cn_committed c1 = (cn_committed c)\<lparr>candles := x\<rparr>" by blast
  show ?case
  proof (cases r1)
    case (Inl e)
    then show ?thesis using Cons.prems(2) 1 c1 by (auto simp: m and_then_def)
  next
    case (Inr u)
    then have "store_series iv ms c1 = (r, c')" using Cons.prems(2) 1 by (simp add: m and_then_def)
    from Cons.IH [OF c1(1) this] show ?thesis using c1(2) by auto
  qed
qed

lemma store_intervals_keeps:
  "cn_txn c = Idle \<Longrightarrow> store_intervals it trades ivs c = (r, c') \<Longrightarrow>
     cn_txn c' = Idle \<and> (\<exists>x. cn_committed c' = (cn_committed c)\<lparr>candles := x\<rparr>)"
proof (induction ivs arbitrary: c)
  case Nil
  then show ?case by (auto intro: exI [of _ "candles (cn_committed c)"])
next
  case (Cons iv ivs)
  show ?case
  proof (cases "build_candles trades iv")
    case None
    then show ?thesis using Cons.prems by (auto intro: exI [of _ "candles (cn_committed c)"])
  next
    case (Some m)
    obtain r1 c1 where 1: "store_series iv (it m) c = (r1, c1)" by fastforce
    from store_series_keeps [OF Cons.prems(1) 1] obtain x where c1: "cn_txn c1 = Idle"
      "cn_committed c1 = (cn_committed c)\<lparr>candles := x\<rparr>" by blast
    show ?thesis
    proof (cases r1)
      case (Inl e)
      then show ?thesis using Cons.prems(2) 1 c1 Some by auto
    next
      case (Inr u)
      then have "store_intervals it trades ivs c1 = (r, c')" using Cons.prems(2) 1 Some by simp
      from Cons.IH [OF c1(1) this] show ?thesis using c1(2) by auto
    qed
  qed
qed

lemma slot_view_candles [simp]: "slot_view s (d\<lparr>candles := x\<rparr>) = slot_view s d"
  by (simp add: slot_view_def)

lemma candle_pass_inv:
  assumes "store_inv to_json B d0 sh" and "candle_pass ho args sh = (r, sh')"
  shows "store_inv to_json B d0 sh'"
proof -
  let ?P = "\<lambda>c. cn_txn c = Idle \<and> untorn to_json B d0 (cn_committed c)"
  have "?P c'" if j: "build_and_store_candles ho from_slot to_slot (mx_conn sh) = (res, c')" for from_slot to_slot res c'
  proof -
    obtain b c1 where t: "take_fault (mx_conn sh) = (b, c1)" by fastforce
    note F = take_fault_facts [OF t]
    have c1: "?P c1" using F assms(1) by (simp add: store_inv_def)
    show ?thesis
    proof (cases b)
      case True
      then show ?thesis using j t c1 by (simp add: build_and_store_candles_def query_def)
    next
      case False
      then obtain it trades where "store_intervals it trades [60, 300] c1 = (res, c')"
        using j t by (auto simp: build_and_store_candles_def query_def Let_def)
      from store_intervals_keeps [OF _ this] c1 obtain x where c': "cn_txn c' = Idle"
        "cn_committed c' = (cn_committed c1)\<lparr>candles := x\<rparr>" by blast
      show ?thesis using c1 unfolding c' untorn_def by (simp add: c'(1))
    qed
  qed
  from blocking.run_keeps [where P = ?P, OF this _ assms(2) [unfolded candle_pass_def]] assms(1)
  show ?thesis by (simp add: store_inv_def)
qed

lemma read_stats_inv:
  assumes "store_inv to_json B d0 sh" and "read_stats sh = (r, sh')"
  shows "store_inv to_json B d0 sh'"
proof (rule db_blocking_inv [OF _ assms(1) assms(2) [unfolded read_stats_def]])
  fix x c' assume "query query_db_stats (mx_conn sh) = (x, c')"
  moreover obtain b c1 where t: "take_fault (mx_conn sh) = (b, c1)" by fastforce
  ultimately show "cn_txn c' = Idle \<and> untorn to_json B d0 (cn_committed c')"
    using take_fault_facts [OF t] assms(1) by (auto simp: query_def store_inv_def split: if_splits)
qed

text \<open>The blocks that the store task has still to write: the batch it holds and what is on its way to it.\<close>

definition unwritten :: "tasks \<Rightarrow> parsed_block list" where
  "unwritten t = pending_batch (lv_state (tk_live t)) @ blocks_of (backlog (lv_pipe (tk_live t)))"

definition tasks_inv ::
  "(string list \<Rightarrow> string option) \<Rightarrow> fetch_outcome list \<Rightarrow> db \<Rightarrow> tasks \<Rightarrow> bool" where
  "tasks_inv to_json outs d0 t \<longleftrightarrow>
     store_inv to_json (set (blocks_of (map parsed_of outs))) d0 (lv_shared (tk_live t)) \<and> pipeline_inv outs (lv_pipe (tk_live t)) \<and>
     (tk_due t \<longrightarrow> \<not> mx_poisoned (lv_shared (tk_live t)) \<and> pl_store (lv_pipe (tk_live t)) = Running) \<and>
     (pl_store (lv_pipe (tk_live t)) = Running \<longrightarrow>
        batch_ok (map slot_row (unwritten t)) \<and> set (unwritten t) \<subseteq> set (blocks_of (map parsed_of outs)))"

lemma flush_if_full_inv:
  assumes "store_inv to_json B d0 sh" and "batch_ok (map slot_row (pending_batch st))" and "set (pending_batch st) \<subseteq> B"
    and f: "flush_if_full to_json n st sh = (Inr st1, sh1)"
  shows "store_inv to_json B d0 sh1" and "pending_batch st1 = pending_batch st \<or> pending_batch st1 = []"
proof -
  obtain r sh2 where d: "db_blocking ''flush worker panicked'' (no_panic (flush_parsed_batch to_json (pending_batch st))) sh = (r, sh2)"
    by fastforce
  have "sh1 = sh \<or> sh1 = sh2" "pending_batch st1 = pending_batch st \<or> pending_batch st1 = []"
    using f by (auto simp: flush_if_full_def d split: if_splits sum.splits cli_error.splits)
  then show "store_inv to_json B d0 sh1" and "pending_batch st1 = pending_batch st \<or> pending_batch st1 = []"
    using flush_inv [OF assms(1-3) d] assms(1) by auto
qed

lemma final_flush_inv:
  assumes "store_inv to_json B d0 sh" and "batch_ok (map slot_row (pending_batch st))" and "set (pending_batch st) \<subseteq> B"
    and f: "final_flush to_json st sh = (r, sh1)"
  shows "store_inv to_json B d0 sh1"
proof -
  obtain r2 sh2 where d: "db_blocking ''flush worker panicked'' (no_panic (flush_parsed_batch to_json (pending_batch st))) sh = (r2, sh2)"
    by fastforce
  have "sh1 = sh \<or> sh1 = sh2" using f by (auto simp: final_flush_def d split: if_splits sum.splits)
  then show ?thesis using flush_inv [OF assms(1-3) d] assms(1) by auto
qed

lemma task_step_inv:
  assumes "task_step to_json args t u" and inv: "tasks_inv to_json outs d0 t"
  shows "tasks_inv to_json outs d0 u"
  using assms(1)
proof cases
  case (fetch_parse v q d)
  have P: "pipeline_inv outs (lv_pipe v)" using inv fetch_parse(1) by (simp add: tasks_inv_def)
  note Q = pipeline_inv_step [OF fetch_parse(3) P]
  have "backlog q = backlog (lv_pipe v)" if "pl_store (lv_pipe v) = Running"
    using P Q fetch_parse(4,5) that by (simp add: pipeline_inv_def) (metis append_same_eq same_append_eq)
  then show ?thesis using inv Q fetch_parse by (auto simp: tasks_inv_def unwritten_def)
next
  case (record_one v y ch st sh)
  let ?q = "(lv_pipe v)\<lparr>pl_parsed := ch, pl_stored := pl_stored (lv_pipe v) @ [y]\<rparr>"
  have P: "pipeline_inv outs (lv_pipe v)" using inv record_one(1) by (simp add: tasks_inv_def)
  have Q: "pipeline_inv outs ?q"
    using record_one(3,4) by (intro pipeline_inv_step [OF _ P] pipeline_step.store_recv)
  have "backlog (lv_pipe v) = [y] @ backlog ?q" using channel_facts(3) [OF record_one(4)] by (simp add: backlog_def hand_list_def)
  then have b: "blocks_of (backlog (lv_pipe v)) = blocks_of [y] @ blocks_of (backlog ?q)" by (simp only: blocks_of_append)
  have "pending_batch st = pending_batch (lv_state v) @ blocks_of [y]"
    using pending_after [OF record_one(5)] by (simp add: pause_once_def)
  then have "unwritten u = unwritten t" using record_one(1,2) b by (simp add: unwritten_def)
  moreover have "store_inv to_json (set (blocks_of (map parsed_of outs))) d0 sh"
    using record_outcome_inv [OF _ record_one(5)] inv record_one(1) by (simp add: tasks_inv_def)
  ultimately show ?thesis
    using inv Q record_not_poisoned [OF record_one(5)] record_one(1-3) by (simp add: tasks_inv_def)
next
  case (record_fails v y ch e sh)
  have P: "pipeline_inv outs (lv_pipe v)" using inv record_fails(1) by (simp add: tasks_inv_def)
  have "pipeline_inv outs ((lv_pipe v)\<lparr>pl_parsed := ch\<lparr>ch_receiver := False\<rparr>, pl_store := Bailed\<rparr>)"
    using record_fails(3,4) by (intro pipeline_inv_step [OF _ P] pipeline_step.store_error)
  moreover have "store_inv to_json (set (blocks_of (map parsed_of outs))) d0 sh"
    using record_outcome_inv [OF _ record_fails(5)] inv record_fails(1) by (simp add: tasks_inv_def)
  ultimately show ?thesis using record_fails(2) by (simp add: tasks_inv_def)
next
  case (flush v st sh)
  have I: "store_inv to_json (set (blocks_of (map parsed_of outs))) d0 (lv_shared v)"
    "batch_ok (map slot_row (unwritten t))" "set (unwritten t) \<subseteq> set (blocks_of (map parsed_of outs))"
    using inv flush(1) by (simp_all add: tasks_inv_def)
  have p: "batch_ok (map slot_row (pending_batch (lv_state v)))" "set (pending_batch (lv_state v)) \<subseteq> set (blocks_of (map parsed_of outs))"
    "batch_ok (map slot_row (blocks_of (backlog (lv_pipe v))))"
    using I(2,3) batch_ok_parts [of "map slot_row (pending_batch (lv_state v))"] flush(1) by (simp_all add: unwritten_def)
  note F = flush_if_full_inv [OF I(1) p(1,2) flush(3)]
  have "batch_ok (map slot_row (unwritten u))" "set (unwritten u) \<subseteq> set (blocks_of (map parsed_of outs))"
    using F(2) I(2,3) p(3) flush(1,2) by (elim disjE; simp add: unwritten_def)+
  then show ?thesis using F(1) inv flush(1,2) by (simp add: tasks_inv_def)
next
  case (flush_fails v e sh)
  have "\<not> mx_poisoned (lv_shared v)" using inv flush_fails(1) by (simp add: tasks_inv_def)
  then show ?thesis using flush_if_full_total flush_fails(3) by (metis Inl_Inr_False Pair_inject)
next
  case (store_ends v r sh)
  have P: "pipeline_inv outs (lv_pipe v)" using inv store_ends(1) by (simp add: tasks_inv_def)
  have "pipeline_inv outs ((lv_pipe v)\<lparr>pl_parsed := (pl_parsed (lv_pipe v))\<lparr>ch_receiver := False\<rparr>, pl_store := Finished\<rparr>)"
    using store_ends(3,4) by (intro pipeline_inv_step [OF _ P] pipeline_step.store_end)
  moreover have I: "store_inv to_json (set (blocks_of (map parsed_of outs))) d0 (lv_shared v)"
    "batch_ok (map slot_row (unwritten t))" "set (unwritten t) \<subseteq> set (blocks_of (map parsed_of outs))"
    using inv store_ends(1,3) by (simp_all add: tasks_inv_def)
  moreover have "store_inv to_json (set (blocks_of (map parsed_of outs))) d0 sh"
    using I(2,3) batch_ok_parts [of "map slot_row (pending_batch (lv_state v))"] store_ends(1)
    by (intro final_flush_inv [OF I(1) _ _ store_ends(5)]) (simp_all add: unwritten_def)
  ultimately show ?thesis using store_ends(2) by (simp add: tasks_inv_def)
qed

definition whole_inv ::
  "(string list \<Rightarrow> string option) \<Rightarrow> fetch_outcome list \<Rightarrow> db \<Rightarrow> served \<Rightarrow> bool" where
  "whole_inv to_json outs d0 s \<longleftrightarrow>
     (if sv_phase s = Ingesting then tasks_inv to_json outs d0 (sv_tasks s)
      else store_inv to_json (set (blocks_of (map parsed_of outs))) d0 (sv_shared s))"

lemma whole_inv_store: "whole_inv to_json outs d0 s \<Longrightarrow> store_inv to_json (set (blocks_of (map parsed_of outs))) d0 (sv_shared s)"
  by (auto simp: whole_inv_def tasks_inv_def split: if_splits)

lemma whole_inv_init:
  assumes "cn_txn (mx_conn sh) = Idle" and "batch_ok (map slot_row (blocks_of (map parsed_of outs)))"
  shows "whole_inv to_json outs (committed sh) (served_init outs sh)"
proof -
  have I: "pipeline_inv outs (pipeline_init outs)" by (rule pipeline_reachable_inv) blast
  have "backlog (pipeline_init outs) = map parsed_of outs" using I by (simp add: pipeline_inv_def pipeline_init_def)
  then show ?thesis
    using assms I
    by (simp add: whole_inv_def tasks_inv_def unwritten_def served_init_def tasks_init_def live_init_def store_init_def
        store_inv_def untorn_def)
qed

lemma whole_inv_step:
  assumes step: "served_step to_json ho args srv s t" and inv: "whole_inv to_json outs d0 s"
  shows "whole_inv to_json outs d0 t"
  using step
proof cases
  case (task u)
  then show ?thesis using task_step_inv [OF task(3)] inv by (simp add: whole_inv_def)
next
  case (candles_fail st e sh)
  then show ?thesis using candle_pass_inv [OF whole_inv_store [OF inv] candles_fail(3)] by (simp add: whole_inv_def)
next
  case (candles_built st u sh)
  then show ?thesis using candle_pass_inv [OF whole_inv_store [OF inv] candles_built(3)] by (simp add: whole_inv_def)
next
  case (stats_fail st e sh)
  then show ?thesis using read_stats_inv [OF whole_inv_store [OF inv] stats_fail(3)] by (simp add: whole_inv_def)
next
  case (stats_read st stats sh)
  then show ?thesis using read_stats_inv [OF whole_inv_store [OF inv] stats_read(3)] by (simp add: whole_inv_def)
next
  case (request q x sh)
  then show ?thesis
    using inv route_keeps [OF request(4)] by (auto simp: whole_inv_def tasks_inv_def unwritten_def store_inv_def)
qed (use whole_inv_store [OF inv] in \<open>simp_all add: whole_inv_def\<close>)

lemma whole_inv_reachable:
  assumes "(served_step to_json ho args srv)\<^sup>*\<^sup>* (served_init outs sh) s"
    and "cn_txn (mx_conn sh) = Idle" and "batch_ok (map slot_row (blocks_of (map parsed_of outs)))"
  shows "whole_inv to_json outs (committed sh) s"
  using assms(1) by induction (auto intro: whole_inv_init [OF assms(2,3)] whole_inv_step)

text \<open>Every answer was given in a state of the run.\<close>

lemma answered_in:
  assumes "(served_step to_json ho args srv)\<^sup>*\<^sup>* (served_init outs sh) s" and "(q, x) \<in> set (sv_answers s)"
  obtains s' where "(served_step to_json ho args srv)\<^sup>*\<^sup>* (served_init outs sh) s'" "(served_step to_json ho args srv)\<^sup>*\<^sup>* s' s"
    "x = fst (route (srv_assets srv) (srv_texts srv) q (sv_shared s'))"
proof -
  have "(q, x) \<in> set (sv_answers s) \<longrightarrow>
      (\<exists>s'. (served_step to_json ho args srv)\<^sup>*\<^sup>* (served_init outs sh) s' \<and> (served_step to_json ho args srv)\<^sup>*\<^sup>* s' s \<and>
        x = fst (route (srv_assets srv) (srv_texts srv) q (sv_shared s')))"
    using assms(1)
  proof induction
    case base
    then show ?case by (simp add: served_init_def)
  next
    case (step s t)
    show ?case
    proof
      assume t: "(q, x) \<in> set (sv_answers t)"
      have "(q, x) \<in> set (sv_answers s) \<or> x = fst (route (srv_assets srv) (srv_texts srv) q (sv_shared s))"
        using step(2)
      proof cases
        case (request q' x' sh)
        then show ?thesis using t by (cases "(q, x) = (q', x')") auto
      qed (use t in simp_all)
      then show "\<exists>s'. (served_step to_json ho args srv)\<^sup>*\<^sup>* (served_init outs sh) s' \<and> (served_step to_json ho args srv)\<^sup>*\<^sup>* s' t \<and>
          x = fst (route (srv_assets srv) (srv_texts srv) q (sv_shared s'))"
        using step by (blast intro: rtranclp.rtrancl_into_rtrancl)
    qed
  qed
  then show thesis using assms(2) that by blast
qed

subsection \<open>A run can always end\<close>

lemma served_tasks:
  assumes "(task_step to_json (ia_store args))\<^sup>*\<^sup>* (sv_tasks s) u" and "sv_phase s = Ingesting"
  shows "(served_step to_json ho args srv)\<^sup>*\<^sup>* s (s\<lparr>sv_tasks := u\<rparr>)"
  using assms(1)
proof induction
  case (step t u)
  have "served_step to_json ho args srv (s\<lparr>sv_tasks := t\<rparr>) ((s\<lparr>sv_tasks := t\<rparr>)\<lparr>sv_tasks := u\<rparr>)"
    using assms(2) step(2) by (intro served_step.task) simp_all
  then show ?case using step(3) by simp
qed simp

lemma served_after_join:
  assumes "sv_phase s = BuildingCandles st"
  obtains r sh where "finish_ingest ho args st (sv_shared s) = (r, sh)"
    "(served_step to_json ho args srv)\<^sup>*\<^sup>* s (with_shared sh (s\<lparr>sv_phase := Ended (map_sum Reported id r)\<rparr>))"
proof -
  have again: "with_shared sh (with_shared sh' (s\<lparr>sv_phase := a\<rparr>)\<lparr>sv_phase := b\<rparr>) = with_shared sh (s\<lparr>sv_phase := b\<rparr>)" for sh sh' a b
    by (simp add: with_shared_def)
  obtain r1 sh1 where 1: "candle_pass ho args (sv_shared s) = (r1, sh1)" by fastforce
  show thesis
  proof (cases r1)
    case (Inl e)
    then show thesis
      using that 1 served_step.candles_fail [OF assms, of ho args e sh1 to_json srv] by (force simp: finish_ingest_def)
  next
    case (Inr u)
    let ?s1 = "with_shared sh1 (s\<lparr>sv_phase := ReadingStats st\<rparr>)"
    have s1: "served_step to_json ho args srv s ?s1"
      using 1 Inr by (intro served_step.candles_built [OF assms]) simp
    obtain r2 sh2 where 2: "read_stats sh1 = (r2, sh2)" by fastforce
    have p1: "sv_phase ?s1 = ReadingStats st" "sv_shared ?s1 = sh1" by simp_all
    have "served_step to_json ho args srv ?s1 (with_shared sh2 (s\<lparr>sv_phase := Ended (map_sum Reported id (map_sum id (Pair st) r2))\<rparr>))"
      using served_step.stats_fail [OF p1(1), of _ sh2] served_step.stats_read [OF p1(1), of _ sh2] 2 unfolding p1(2) again
      by (cases r2) simp_all
    moreover have "finish_ingest ho args st (sv_shared s) = (map_sum id (Pair st) r2, sh2)"
      using 1 2 Inr by (cases r2) (simp_all add: finish_ingest_def)
    ultimately show thesis using that s1 by (meson rtranclp.rtrancl_into_rtrancl r_into_rtranclp)
  qed
qed

text \<open>What \<open>ingest_command\<close> of theory \<open>Command\<close> does, the run does when nothing is requested, under any faults.\<close>

lemma served_unattended:
  assumes "ingest_command to_json ho args outs sh (r, sh')"
  obtains s where "(served_step to_json ho args srv)\<^sup>*\<^sup>* (served_init outs sh) s" "sv_phase s = Ended r" "sv_shared s = sh'"
proof -
  let ?at = "\<lambda>v. (served_init outs sh)\<lparr>sv_tasks := \<lparr>tk_live = v, tk_due = False\<rparr>\<rparr>"
  have start: "(served_step to_json ho args srv)\<^sup>*\<^sup>* (served_init outs sh) (?at v)"
    if "(live_step to_json (ia_store args))\<^sup>*\<^sup>* (live_init outs sh) v" for v
    by (rule served_tasks) (use live_steps_tasks [OF that] in \<open>simp_all add: served_init_def tasks_init_def\<close>)
  show thesis
    using assms
  proof cases
    case (stage_error v e)
    have "served_step to_json ho args srv (?at v) ((?at v)\<lparr>sv_phase := Ended r\<rparr>)"
      using stage_error served_step.join_fails [of "?at v" to_json args e] by (simp add: served_init_def tasks_halted_iff)
    then show thesis
      using that [of "(?at v)\<lparr>sv_phase := Ended r\<rparr>"] start [OF stage_error(3)] stage_error(2)
      by (simp add: rtranclp.rtrancl_into_rtrancl)
  next
    case (stages_done v st r')
    let ?s = "(?at v)\<lparr>sv_phase := BuildingCandles st\<rparr>"
    have "served_step to_json ho args srv (?at v) ?s"
      using stages_done(3,4) served_step.joined [of "?at v" to_json args st] by (simp add: served_init_def tasks_halted_iff)
    then have to_s: "(served_step to_json ho args srv)\<^sup>*\<^sup>* (served_init outs sh) ?s"
      by (rule rtranclp.rtrancl_into_rtrancl [OF start [OF stages_done(2)]])
    have p: "sv_phase ?s = BuildingCandles st" by simp
    show thesis
    proof (rule served_after_join [OF p, of ho args to_json srv])
      fix r1 sh1
      assume t: "finish_ingest ho args st (sv_shared ?s) = (r1, sh1)"
        "(served_step to_json ho args srv)\<^sup>*\<^sup>* ?s (with_shared sh1 (?s\<lparr>sv_phase := Ended (map_sum Reported id r1)\<rparr>))"
      show thesis by (rule that [OF rtranclp_trans [OF to_s t(2)]]) (use t(1) stages_done(1,5) in simp_all)
    qed
  qed
qed

lemma served_can_end:
  assumes "(served_step to_json ho args srv)\<^sup>*\<^sup>* (served_init outs sh) s" and "quiet sh"
  obtains t r where "(served_step to_json ho args srv)\<^sup>*\<^sup>* s t" "sv_phase t = Ended r"
proof -
  have building: "\<exists>t r. (served_step to_json ho args srv)\<^sup>*\<^sup>* s t \<and> sv_phase t = Ended r" if "sv_phase s = BuildingCandles st" for s st
    by (rule served_after_join [OF that, of ho args to_json srv]) fastforce
  have "\<exists>t r. (served_step to_json ho args srv)\<^sup>*\<^sup>* s t \<and> sv_phase t = Ended r"
  proof (cases "sv_phase s")
    case Ingesting
    obtain w where w: "(task_step to_json (ia_store args))\<^sup>*\<^sup>* (sv_tasks s) \<lparr>tk_live = w, tk_due = False\<rparr>"
      "halted to_json (ia_store args) w" by (rule tasks_halt)
    let ?s = "s\<lparr>sv_tasks := \<lparr>tk_live = w, tk_due = False\<rparr>\<rparr>"
    note 1 = served_tasks [OF w(1) Ingesting, of ho srv]
    have halt: "tasks_halted to_json (ia_store args) (sv_tasks ?s)" using w(2) by (simp add: tasks_halted_iff)
    obtain v where v: "(live_step to_json (ia_store args))\<^sup>*\<^sup>* (live_init outs sh) v" "task_sim alike_shared to_json (ia_store args) v (sv_tasks ?s)"
      using serving.reachable [OF rtranclp_trans [OF assms(1) 1] alike_shared_refl [OF assms(2)]] Ingesting
      by (auto simp: served_inv_def)
    note H = healthy.halted_sim [OF v(2) halt]
    obtain j where j: "join_stages w = Some j" by (rule halted_result [OF v(1) H(1)]) (use H(2) in simp)
    have "\<exists>t r. (served_step to_json ho args srv)\<^sup>*\<^sup>* ?s t \<and> sv_phase t = Ended r"
    proof (cases j)
      case (Inl e)
      then have "served_step to_json ho args srv ?s (?s\<lparr>sv_phase := Ended (Inl e)\<rparr>)"
        using j halt Ingesting by (intro served_step.join_fails) simp_all
      then show ?thesis by (intro exI [of _ "?s\<lparr>sv_phase := Ended (Inl e)\<rparr>"]) auto
    next
      case (Inr st)
      then have "served_step to_json ho args srv ?s (?s\<lparr>sv_phase := BuildingCandles st\<rparr>)"
        using j halt Ingesting by (intro served_step.joined) simp_all
      moreover have "\<exists>t r. (served_step to_json ho args srv)\<^sup>*\<^sup>* (?s\<lparr>sv_phase := BuildingCandles st\<rparr>) t \<and> sv_phase t = Ended r"
        by (rule building) simp
      ultimately show ?thesis by (meson converse_rtranclp_into_rtranclp)
    qed
    then show ?thesis using 1 by (meson rtranclp_trans)
  next
    case (BuildingCandles st)
    then show ?thesis by (rule building)
  next
    case (ReadingStats st)
    obtain r sh' where r: "read_stats (sv_shared s) = (r, sh')" by fastforce
    let ?t = "\<lambda>r. with_shared sh' (s\<lparr>sv_phase := Ended r\<rparr>)"
    have "\<exists>r. served_step to_json ho args srv s (?t r)"
      using r ReadingStats by (cases r) (blast intro: served_step.stats_fail served_step.stats_read)+
    then obtain r' where "served_step to_json ho args srv s (?t r')" ..
    moreover have "sv_phase (?t r') = Ended r'" by simp
    ultimately show ?thesis by blast
  next
    case (Ended r)
    then show ?thesis by blast
  qed
  then show thesis using that by blast
qed

lemma served_success_quiet:
  assumes "quiet sh" and "batch_ok (map slot_row (blocks_of (map parsed_of outs)))"
    and "(served_step to_json ho args srv)\<^sup>*\<^sup>* (served_init outs sh) s" and "sv_phase s = Ended (Inr res)"
  shows "quiet (sv_shared s)"
proof -
  obtain st stats where res: "res = (st, stats)" by fastforce
  obtain sh' where sh': "ingest_command to_json ho args outs sh (Inr res, sh')" "alike_shared sh' (sv_shared s)"
    by (rule served_result [OF assms(1,3,4)])
  have "success (run_ingest to_json ho args (map parsed_of outs) sh) = (Some res, sh')"
    using ingest_command_result [OF sh'(1)] by (simp add: success_def)
  then obtain sh2 where "read_stats sh2 = (Inr stats, sh')"
    by (auto simp: success_def run_ingest_def finish_ingest_def res split: prod.splits sum.splits)
  then have "\<not> mx_poisoned sh'"
    by (auto simp: read_stats_def db_blocking_def split: if_splits option.splits sum.splits prod.splits)
  moreover have "cn_txn (mx_conn (sv_shared s)) = Idle"
    using whole_inv_store [OF whole_inv_reachable [OF assms(3) _ assms(2)]] assms(1) by (simp add: quiet_def store_inv_def)
  ultimately show ?thesis using sh'(2) by (simp add: alike_shared_def alike_def quiet_def)
qed

subsection \<open>Properties\<close>

text \<open>
  C5. A request never sees half a block: whatever the engine refuses or the storage makes fail, and
  however requests and tasks interleave, every answer given during a serving ingest was computed in a state of that run
  in which each slot holds exactly what it held before the run or the whole of one of the run's blocks.
\<close>

theorem requests_see_whole_blocks:
  assumes "cn_txn (mx_conn sh) = Idle" and "batch_ok (map slot_row (blocks_of (map parsed_of outs)))"
    and "(served_step to_json ho args srv)\<^sup>*\<^sup>* (served_init outs sh) s" and "(q, x) \<in> set (sv_answers s)"
  shows "\<exists>s'. (served_step to_json ho args srv)\<^sup>*\<^sup>* (served_init outs sh) s' \<and> (served_step to_json ho args srv)\<^sup>*\<^sup>* s' s \<and>
    x = fst (route (srv_assets srv) (srv_texts srv) q (sv_shared s')) \<and>
    (\<forall>slot. slot_view slot (committed (sv_shared s')) = slot_view slot (committed sh) \<or>
       (\<exists>b\<in>set (blocks_of (map parsed_of outs)). slot = u64_as_i64 (pb_slot b) \<and>
          slot_view slot (committed (sv_shared s')) = block_view to_json (slot_row b)))"
proof -
  obtain s' where s': "(served_step to_json ho args srv)\<^sup>*\<^sup>* (served_init outs sh) s'"
    "(served_step to_json ho args srv)\<^sup>*\<^sup>* s' s" "x = fst (route (srv_assets srv) (srv_texts srv) q (sv_shared s'))"
    using assms(3,4) by (rule answered_in)
  have "untorn to_json (set (blocks_of (map parsed_of outs))) (committed sh) (committed (sv_shared s'))"
    using whole_inv_store [OF whole_inv_reachable [OF s'(1) assms(1,2)]] by (simp add: store_inv_def)
  then show ?thesis using s' by (auto simp: untorn_def)
qed

text \<open>
  C6. Serving does not disturb the ingest: on an engine that refuses nothing, whatever is requested and whenever, the
  run can always go on to its end, and then its result is one that the ingest alone can have (and by the theorem on its
  interleavings there is only one), be it a success with its counters and statistics or an error, and so is the database.
\<close>

theorem serving_does_not_disturb:
  assumes "quiet sh" and "(served_step to_json ho args srv)\<^sup>*\<^sup>* (served_init outs sh) s"
  shows "(\<exists>t r. (served_step to_json ho args srv)\<^sup>*\<^sup>* s t \<and> sv_phase t = Ended r) \<and>
    (\<forall>r. sv_phase s = Ended r \<longrightarrow>
       (\<exists>sh'. ingest_command to_json ho args outs sh (r, sh') \<and> committed sh' = committed (sv_shared s)))"
proof (intro conjI allI impI)
  show "\<exists>t r. (served_step to_json ho args srv)\<^sup>*\<^sup>* s t \<and> sv_phase t = Ended r"
    by (rule served_can_end [OF assms(2,1)]) blast
  fix r assume "sv_phase s = Ended r"
  then show "\<exists>sh'. ingest_command to_json ho args outs sh (r, sh') \<and> committed sh' = committed (sv_shared s)"
    by (rule served_result [OF assms]) (blast dest: alike_shared_committed)
qed

subsection \<open>An example run\<close>

definition sample_server :: server where
  "sample_server = \<lparr>srv_on = True, srv_assets = sample_assets, srv_texts = sample_texts\<rparr>"

definition sample_args :: ingest_args where
  "sample_args = \<lparr>ia_start_slot = 2, ia_count = 3, ia_store = batch_of 25\<rparr>"

lemma sample_run:
  obtains st stats sh where "run_ingest example_json sorted_order sample_args sample_outcomes fresh_shared = (Inr (st, stats), sh)"
proof -
  obtain d where d: "staged example_json (blocks_of sample_outcomes) (map status_row_of sample_outcomes) (committed fresh_shared) = Some d"
    "range_trades sorted_order 2 (last_slot 2 3) d = []"
    by (rule sample_staged)
  have times: "\<forall>iv\<in>{60, 300}. times_ok iv (range_trades sorted_order 2 (last_slot 2 3) d)" by (simp add: d(2) times_ok_def)
  show thesis
    by (rule run_ingest_quiet [OF sample_ok(1) sample_storable swap_ok(1) d(1) times, where sargs = "batch_of 25"])
      (rule that, unfold sample_args_def)
qed

text \<open>A run to its end, then a request.\<close>

lemma sample_served:
  obtains s q x st stats where
    "(served_step example_json sorted_order sample_args sample_server)\<^sup>*\<^sup>* (served_init sample_fetched fresh_shared) s"
    "(q, x) \<in> set (sv_answers s)" "sv_phase s = Ended (Inr (st, stats))"
proof -
  obtain t r where t: "(served_step example_json sorted_order sample_args sample_server)\<^sup>*\<^sup>* (served_init sample_fetched fresh_shared) t"
    "sv_phase t = Ended r"
    by (rule served_can_end [OF rtranclp.rtrancl_refl sample_ok(1)])
  obtain st stats sh where "run_ingest example_json sorted_order sample_args sample_outcomes fresh_shared = (Inr (st, stats), sh)"
    by (rule sample_run)
  moreover obtain sh' where "ingest_command example_json sorted_order sample_args sample_fetched fresh_shared (r, sh')"
    by (rule served_result [OF sample_ok(1) t])
  ultimately have r: "r = Inr (st, stats)"
    using ingest_command_result by (cases r) (fastforce simp: sample_fetched_parsed success_def)+
  obtain x sh where x: "route (srv_assets sample_server) (srv_texts sample_server) GetTokens (sv_shared t) = (x, sh)" by fastforce
  have "served_step example_json sorted_order sample_args sample_server t
      (with_shared sh (t\<lparr>sv_answers := sv_answers t @ [(GetTokens, x)]\<rparr>))"
    by (rule served_step.request [OF _ _ x]) (simp_all add: sample_server_def t(2) r)
  with t(1) show thesis by (rule that [OF rtranclp.rtrancl_into_rtrancl, of _ _ GetTokens x]) (simp_all add: t(2) r)
qed

theorem requests_see_whole_blocks_witness:
  "\<exists>s s' q x. (served_step example_json sorted_order sample_args sample_server)\<^sup>*\<^sup>* (served_init sample_fetched fresh_shared) s \<and>
     (q, x) \<in> set (sv_answers s) \<and> x = fst (route sample_assets sample_texts q (sv_shared s')) \<and>
     (slot_view 3 (committed (sv_shared s')) = slot_view 3 empty_db \<or>
      slot_view 3 (committed (sv_shared s')) = block_view example_json (slot_row sample_parsed))"
proof -
  obtain s q x st stats where s: "(served_step example_json sorted_order sample_args sample_server)\<^sup>*\<^sup>* (served_init sample_fetched fresh_shared) s"
    "(q, x) \<in> set (sv_answers s)" "sv_phase s = Ended (Inr (st, stats))"
    by (rule sample_served)
  have i: "cn_txn (mx_conn fresh_shared) = Idle" using sample_ok(1) by (simp add: quiet_def)
  have b: "batch_ok (map slot_row (blocks_of (map parsed_of sample_fetched)))"
    using sample_ok(2) by (simp add: sample_fetched_parsed)
  from requests_see_whole_blocks [OF i b s(1,2)] obtain s' where
    "x = fst (route sample_assets sample_texts q (sv_shared s'))"
    "slot_view 3 (committed (sv_shared s')) = slot_view 3 empty_db \<or>
      slot_view 3 (committed (sv_shared s')) = block_view example_json (slot_row sample_parsed)"
    by (auto simp: sample_fetched_parsed sample_ok(5) sample_server_def example_defs)
  then show ?thesis using s(1,2) by blast
qed

theorem serving_does_not_disturb_witness:
  "\<exists>s st stats. (served_step example_json sorted_order sample_args sample_server)\<^sup>*\<^sup>* (served_init sample_fetched fresh_shared) s \<and>
     sv_answers s \<noteq> [] \<and> sv_phase s = Ended (Inr (st, stats)) \<and>
     committed (sv_shared s) = committed (snd (run_ingest example_json sorted_order sample_args sample_outcomes fresh_shared))"
proof -
  obtain s q x st stats where s: "(served_step example_json sorted_order sample_args sample_server)\<^sup>*\<^sup>* (served_init sample_fetched fresh_shared) s"
    "(q, x) \<in> set (sv_answers s)" "sv_phase s = Ended (Inr (st, stats))"
    by (rule sample_served)
  obtain st' stats' sh2 where run: "run_ingest example_json sorted_order sample_args sample_outcomes fresh_shared = (Inr (st', stats'), sh2)"
    by (rule sample_run)
  obtain sh' where sh': "ingest_command example_json sorted_order sample_args sample_fetched fresh_shared (Inr (st, stats), sh')"
    "committed sh' = committed (sv_shared s)"
    using serving_does_not_disturb [OF sample_ok(1) s(1)] s(3) by blast
  have "committed (sv_shared s) = committed (snd (run_ingest example_json sorted_order sample_args sample_outcomes fresh_shared))"
    using ingest_command_result [OF sh'(1)] sh'(2) run by (simp add: sample_fetched_parsed success_def)
  moreover have "sv_answers s \<noteq> []" using s(2) by auto
  ultimately show ?thesis using s(1,3) by blast
qed

end
