(* ===== verification/Cli.thy ===== *)
theory Cli
  imports Serve Rate_Limiter
begin

section \<open>The command line\<close>

text \<open>
  \<open>Command\<close>, \<open>IngestArgs\<close>, \<open>main\<close>, the first lines of \<open>run_ingest\<close> and \<open>run_serve\<close> in \<open>crates/cli/src/main.rs\<close>: the
  two commands, the options with the defaults their attributes give, the limiter made of them, and each command from the
  database file to its end.  \<open>clap\<close> has parsed the options.  What a slot fetches is \<open>result\<close>, an outcome of
  \<open>fetch_one\<close> (theory \<open>Block_Fetch\<close>; it carries its slot by \<open>fetch_one_slot\<close>).
\<close>

record ingest_cli =
  cli_rpc_endpoint :: string
  cli_start_slot :: nat
  cli_count :: nat
  cli_rate_per_sec :: f64
  cli_max_concurrency :: nat
  cli_batch_size :: nat
  cli_db_path :: string
  cli_simulate_pause_secs :: nat
  cli_serve :: bool
  cli_port :: nat
  cli_cpu_inline :: bool

text \<open>The two options without a default are arguments.\<close>

definition cli_defaults :: "string \<Rightarrow> nat \<Rightarrow> ingest_cli" where
  "cli_defaults rpc_endpoint start_slot =
     \<lparr>cli_rpc_endpoint = rpc_endpoint, cli_start_slot = start_slot, cli_count = 1000, cli_rate_per_sec = f64_lit 10,
      cli_max_concurrency = 8, cli_batch_size = 25, cli_db_path = ''blocks.duckdb'', cli_simulate_pause_secs = 0,
      cli_serve = False, cli_port = 8080, cli_cpu_inline = False\<rparr>"

definition cli_limiter :: "ingest_cli \<Rightarrow> nat \<Rightarrow> limiter \<times> bucket" where
  "cli_limiter cli now = new_limiter (cli_rate_per_sec cli) (cli_rate_per_sec cli) now"

definition cli_ingest_args :: "ingest_cli \<Rightarrow> ingest_args" where
  "cli_ingest_args cli =
     \<lparr>ia_start_slot = cli_start_slot cli, ia_count = cli_count cli,
      ia_store = \<lparr>sa_batch_size = cli_batch_size cli, sa_simulate_pause_secs = cli_simulate_pause_secs cli\<rparr>\<rparr>"

datatype command = IngestCommand ingest_cli | ServeCommand string nat

definition serve_defaults :: command where
  "serve_defaults = ServeCommand ''blocks.duckdb'' 8080"

subsection \<open>The commands\<close>

text \<open>
  What surrounds the process: \<open>env_disk\<close> is what DuckDB finds in a file, \<open>None\<close> when it cannot be opened, \<open>env_faults\<close>
  the oracle of the connection to it, and \<open>env_binds\<close> says whether a listener can be bound to a port.
\<close>

record environment =
  env_disk :: "string \<Rightarrow> db option"
  env_faults :: "bool list"
  env_binds :: "nat \<Rightarrow> bool"
  env_assets :: assets
  env_texts :: error_texts

datatype main_error = OpeningFailed storage_error | BindingFailed | RunFailed ingest_error

definition shared_of :: "conn \<Rightarrow> shared" where
  "shared_of c = \<lparr>mx_conn = c, mx_poisoned = False\<rparr>"

definition server_of :: "environment \<Rightarrow> bool \<Rightarrow> server" where
  "server_of env b = \<lparr>srv_on = b, srv_assets = env_assets env, srv_texts = env_texts env\<rparr>"

text \<open>
  The result, and the run in the state in which the process leaves it.  A run that succeeded goes on serving until Ctrl-C,
  so that state may lie after any number of further requests.
\<close>

inductive ingest_main ::
  "(string list \<Rightarrow> string option) \<Rightarrow> hash_order \<Rightarrow> (pool \<Rightarrow> nat) \<Rightarrow> (nat \<Rightarrow> fetch_outcome) \<Rightarrow> environment \<Rightarrow>
     ingest_cli \<Rightarrow> (main_error + store_state \<times> db_stats) \<Rightarrow> served option \<Rightarrow> bool"
  for to_json ho pick result env cli where
  open_error:
    "open_storage (env_disk env (cli_db_path cli)) (env_faults env) = Inl e \<Longrightarrow>
       ingest_main to_json ho pick result env cli (Inl (OpeningFailed e)) None"
| bind_error:
    "open_storage (env_disk env (cli_db_path cli)) (env_faults env) = Inr c \<Longrightarrow>
       cli_serve cli \<Longrightarrow> \<not> env_binds env (cli_port cli) \<Longrightarrow>
       ingest_main to_json ho pick result env cli (Inl BindingFailed) None"
| run:
    "open_storage (env_disk env (cli_db_path cli)) (env_faults env) = Inr c \<Longrightarrow>
       (cli_serve cli \<longrightarrow> env_binds env (cli_port cli)) \<Longrightarrow>
       (served_step to_json ho (cli_ingest_args cli) (server_of env (cli_serve cli)))\<^sup>*\<^sup>*
         (served_init (fetch_block_range pick result (cli_start_slot cli) (cli_count cli) (cli_max_concurrency cli)) (shared_of c)) s \<Longrightarrow>
       sv_phase s = Ended r \<Longrightarrow>
       ingest_main to_json ho pick result env cli (map_sum RunFailed id r) (Some s)"

inductive_simps ingest_main_simps: "ingest_main to_json ho pick result env cli r os"

text \<open>\<open>run_serve\<close>, given the requests it answers until it is stopped.\<close>

definition serve_main :: "environment \<Rightarrow> string \<Rightarrow> nat \<Rightarrow> request list \<Rightarrow> main_error + response list \<times> shared" where
  "serve_main env db_path port qs =
     (case open_storage (env_disk env db_path) (env_faults env) of
        Inl e \<Rightarrow> Inl (OpeningFailed e)
      | Inr c \<Rightarrow>
          if env_binds env port then Inr (requests (env_assets env) (env_texts env) qs (shared_of c)) else Inl BindingFailed)"

text \<open>\<open>main\<close>: the error with which a command comes to its end, \<open>None\<close> when it ends well.\<close>

inductive main_exits ::
  "(string list \<Rightarrow> string option) \<Rightarrow> hash_order \<Rightarrow> (pool \<Rightarrow> nat) \<Rightarrow> (nat \<Rightarrow> fetch_outcome) \<Rightarrow> environment \<Rightarrow>
     command \<Rightarrow> main_error option \<Rightarrow> bool"
  for to_json ho pick result env where
  ingest_fails:
    "ingest_main to_json ho pick result env cli (Inl e) os \<Longrightarrow> main_exits to_json ho pick result env (IngestCommand cli) (Some e)"
| ingest_ends:
    "ingest_main to_json ho pick result env cli (Inr res) os \<Longrightarrow> main_exits to_json ho pick result env (IngestCommand cli) None"
| serve_fails:
    "serve_main env db_path port qs = Inl e \<Longrightarrow> main_exits to_json ho pick result env (ServeCommand db_path port) (Some e)"
| serve_ends:
    "serve_main env db_path port qs = Inr res \<Longrightarrow> main_exits to_json ho pick result env (ServeCommand db_path port) None"

inductive_simps serve_exits: "main_exits to_json ho pick result env (ServeCommand db_path port) e"
inductive_simps ingest_exits: "main_exits to_json ho pick result env (IngestCommand cli) e"

subsection \<open>The rate\<close>

lemma default_limiter_ok: "limiter_ok (fst (cli_limiter (cli_defaults endpoint start) now))"
  using rnd_of_nat [of 10] by (simp add: cli_limiter_def cli_defaults_def new_limiter_def limiter_ok_def f64_lit_10)

text \<open>The rate is passed as the burst as well, and below one request per second no request is ever granted.\<close>

lemma slow_rate_starves:
  assumes "f64_lt (cli_rate_per_sec cli) (f64_lit 1)"
  shows "acquire (fst (cli_limiter cli t)) now sleep b s \<noteq> Some (Some r)"
  using assms by (intro acquire_starves) (simp add: cli_limiter_def new_limiter_def)

subsection \<open>Opening the file\<close>

lemma open_storage_quiet:
  assumes "True \<notin> set faults"
  obtains c where "open_storage (Some d) faults = Inr c" "quiet (shared_of c)" "cn_committed c = d"
proof -
  let ?c = "\<lparr>cn_committed = d, cn_working = d, cn_txn = Idle, cn_faults = faults\<rparr>"
  obtain r c where r: "run_migrations ?c = (r, c)" by fastforce
  note E = execute_idle [OF _ r [unfolded run_migrations_def]]
  show thesis
    using that [of c] r E assms by (auto simp: open_storage_def quiet_def shared_of_def)
qed

text \<open>The command can always come to an end; without \<open>--serve\<close> it is \<open>ingest_command\<close>.\<close>

lemma ingest_main_ends: obtains r os where "ingest_main to_json ho pick result env cli r os"
proof (cases "open_storage (env_disk env (cli_db_path cli)) (env_faults env)")
  case (Inl e)
  then show thesis using that ingest_main.open_error by blast
next
  case (Inr c)
  obtain r sh where "ingest_command to_json ho (cli_ingest_args cli)
      (fetch_block_range pick result (cli_start_slot cli) (cli_count cli) (cli_max_concurrency cli)) (shared_of c) (r, sh)"
    using ingest_command_ends by (metis surj_pair)
  then show thesis
    by (rule served_unattended [where srv = "server_of env (cli_serve cli)"])
      (use that ingest_main.bind_error [OF Inr] ingest_main.run [OF Inr] in blast)
qed

lemma ingest_main_unserved:
  assumes "ingest_main to_json ho pick result env cli r (Some s)" and "\<not> cli_serve cli"
  obtains c r' where "open_storage (env_disk env (cli_db_path cli)) (env_faults env) = Inr c" "r = map_sum RunFailed id r'"
    "ingest_command to_json ho (cli_ingest_args cli)
      (fetch_block_range pick result (cli_start_slot cli) (cli_count cli) (cli_max_concurrency cli)) (shared_of c) (r', sv_shared s)"
  using assms by (auto simp: ingest_main_simps server_of_def dest: served_alone)

text \<open>\<open>serve\<close> ends with an error exactly when the file cannot be opened or the port not bound, in this order.\<close>

lemma serve_exits_iff:
  "main_exits to_json ho pick result env (ServeCommand db_path port) x \<longleftrightarrow>
     x = (case open_storage (env_disk env db_path) (env_faults env) of
            Inl e \<Rightarrow> Some (OpeningFailed e)
          | Inr c \<Rightarrow> if env_binds env port then None else Some BindingFailed)"
  by (auto simp: serve_exits serve_main_def split: sum.split)

text \<open>A port that is taken stops an ingest before its first request, and nothing else can.\<close>

lemma ingest_exits_before_fetching:
  assumes "True \<notin> set (env_faults env)" and "env_disk env (cli_db_path cli) = Some d"
  shows "main_exits to_json ho pick result env (IngestCommand cli) (Some BindingFailed) \<longleftrightarrow>
      cli_serve cli \<and> \<not> env_binds env (cli_port cli)"
    and "\<not> main_exits to_json ho pick result env (IngestCommand cli) (Some (OpeningFailed e))"
proof -
  obtain c where c: "open_storage (env_disk env (cli_db_path cli)) (env_faults env) = Inr c"
    by (rule open_storage_quiet [OF assms(1), of d]) (simp add: assms(2))
  have run: "map_sum RunFailed id r \<noteq> Inl BindingFailed" "map_sum RunFailed id r \<noteq> Inl (OpeningFailed e)"
    for r :: "ingest_error + store_state \<times> db_stats" by (cases r; simp)+
  show "main_exits to_json ho pick result env (IngestCommand cli) (Some BindingFailed) \<longleftrightarrow>
      cli_serve cli \<and> \<not> env_binds env (cli_port cli)"
    unfolding ingest_exits ingest_main_simps c using run(1) by (auto dest: sym)
  show "\<not> main_exits to_json ho pick result env (IngestCommand cli) (Some (OpeningFailed e))"
    unfolding ingest_exits ingest_main_simps c using run(2) by (auto dest: sym)
qed

end
