(* ===== verification/Integrity.thy ===== *)
theory Integrity
  imports Serve
begin

section \<open>What holds between the tables\<close>

text \<open>
  \<open>schema.rs\<close> declares no foreign keys: that the rows of one table refer to rows of the others is up to
  \<open>parse_block\<close> of \<open>crates/cli/src/main.rs\<close>, the netting and the statement order of \<open>replace_slot_data_inner\<close>.
\<close>

definition db_linked :: "db \<Rightarrow> bool" where
  "db_linked d \<longleftrightarrow>
     (\<forall>r\<in>set (transactions d). map_option bl_block_time (block_at (tr_slot r) d) = Some (tr_block_time r)) \<and>
     (\<forall>s\<in>bl_slot ` set (blocks d).
        map_option bl_tx_count (block_at s d) = Some (int (length (filter (\<lambda>r. tr_slot r = s) (transactions d))))) \<and>
     (\<forall>l\<in>set (account_locks d). \<exists>r\<in>set (transactions d).
        tr_slot r = al_slot l \<and> tr_signature r = al_tx_signature l) \<and>
     (\<forall>b\<in>set (token_balance_changes d). \<exists>r\<in>set (transactions d).
        tr_slot r = tb_slot b \<and> tr_signature r = tb_tx_signature b \<and> tr_block_time r = tb_block_time b \<and> \<not> tr_failed r)"

subsection \<open>The links of one slot\<close>

definition view_linked ::
  "block_row option \<times> transaction_row list \<times> account_lock_row list \<times> token_balance_row list \<Rightarrow> bool" where
  "view_linked = (\<lambda>(blk, ts, ls, bs).
     (\<forall>r\<in>set ts. map_option bl_block_time blk = Some (tr_block_time r)) \<and>
     (\<forall>b. blk = Some b \<longrightarrow> bl_tx_count b = int (length ts)) \<and>
     (\<forall>l\<in>set ls. \<exists>r\<in>set ts. tr_signature r = al_tx_signature l) \<and>
     (\<forall>b\<in>set bs. \<exists>r\<in>set ts. tr_signature r = tb_tx_signature b \<and> tr_block_time r = tb_block_time b \<and> \<not> tr_failed r))"

lemma clear_step_fields [simp]:
  "tr_signature (clear_step r) = tr_signature r" "tr_slot (clear_step r) = tr_slot r"
  "tr_block_time (clear_step r) = tr_block_time r" "tr_failed (clear_step r) = tr_failed r"
  by (simp_all add: clear_step_def)

lemma all_found:
  assumes "\<And>s. s \<in> A \<longleftrightarrow> f s \<noteq> None"
  shows "(\<forall>s b. f s = Some b \<longrightarrow> P s b) \<longleftrightarrow> (\<forall>s\<in>A. \<exists>b. f s = Some b \<and> P s b)"
  using assms by (metis not_None_eq option.inject)

lemma db_linked_views: "db_linked d \<longleftrightarrow> (\<forall>s. view_linked (slot_view s d))"
proof -
  have blk: "(\<forall>s b. block_at s d = Some b \<longrightarrow> P s b) \<longleftrightarrow>
      (\<forall>s\<in>bl_slot ` set (blocks d). \<exists>b. block_at s d = Some b \<and> P s b)" for P
    by (rule all_found) (simp add: map_of_eq_None_iff image_image)
  have one: "view_linked (slot_view s d) \<longleftrightarrow>
      (\<forall>r\<in>set (transactions d). tr_slot r = s \<longrightarrow> map_option bl_block_time (block_at s d) = Some (tr_block_time r)) \<and>
      (\<forall>b. block_at s d = Some b \<longrightarrow> bl_tx_count b = int (length (filter (\<lambda>r. tr_slot r = s) (transactions d)))) \<and>
      (\<forall>l\<in>set (account_locks d). al_slot l = s \<longrightarrow>
         (\<exists>r\<in>set (transactions d). tr_slot r = s \<and> tr_signature r = al_tx_signature l)) \<and>
      (\<forall>b\<in>set (token_balance_changes d). tb_slot b = s \<longrightarrow> (\<exists>r\<in>set (transactions d).
         tr_slot r = s \<and> tr_signature r = tb_tx_signature b \<and> tr_block_time r = tb_block_time b \<and> \<not> tr_failed r))" for s
    by (simp add: view_linked_def slot_view_def) blast
  have views: "(\<forall>s. view_linked (slot_view s d)) \<longleftrightarrow>
      (\<forall>r\<in>set (transactions d). map_option bl_block_time (block_at (tr_slot r) d) = Some (tr_block_time r)) \<and>
      (\<forall>s b. block_at s d = Some b \<longrightarrow> bl_tx_count b = int (length (filter (\<lambda>r. tr_slot r = s) (transactions d)))) \<and>
      (\<forall>l\<in>set (account_locks d). \<exists>r\<in>set (transactions d).
         tr_slot r = al_slot l \<and> tr_signature r = al_tx_signature l) \<and>
      (\<forall>b\<in>set (token_balance_changes d). \<exists>r\<in>set (transactions d).
         tr_slot r = tb_slot b \<and> tr_signature r = tb_tx_signature b \<and> tr_block_time r = tb_block_time b \<and> \<not> tr_failed r)"
    unfolding one all_conj_distrib by (intro conj_cong) auto
  show ?thesis unfolding views blk db_linked_def by auto
qed

subsection \<open>A parsed block\<close>

lemma coalesced_keys: "r \<in> set (coalesce_token_balance_rows rs) \<Longrightarrow> \<exists>x\<in>set rs. tuple_key x = tuple_key r"
  using by_tx_mint.coalesce_key_iff [of "tuple_key r" rs] by_tx_mint.rows_of_absent [of "tuple_key r" rs]
  by (metis (no_types, lifting) imageE imageI)

lemma parsed_view_linked:
  assumes "parse_block block = Some p" and "length (db_transactions block) < 2 ^ 31"
  shows "view_linked (block_view to_json (slot_row p))"
proof -
  let ?ts = "db_transactions block"
  have p: "pb_block_time p = db_block_time block"
    "pb_transactions p = map (\<lambda>t. (dt_signature t, dt_failed t, dt_program_ids t, None)) ?ts"
    "pb_locks p = concat (map lock_tuples ?ts)"
    "pb_token_changes p = concat (map token_tuples (filter (\<lambda>t. \<not> dt_failed t) ?ts))"
    using parse_block_Some [of block] assms(1) by auto
  define rows where "rows = map (clear_step \<circ>
    transaction_row_of (the \<circ> to_json) (pb_slot p) (pb_block_time p)) (pb_transactions p)"
  have row: "\<exists>r\<in>set rows. tr_signature r = dt_signature t \<and> tr_failed r = dt_failed t \<and> tr_block_time r = db_block_time block"
    if "t \<in> set ?ts" for t
    using that by (force simp: rows_def p transaction_row_of_def)
  have times: "\<forall>r\<in>set rows. tr_block_time r = db_block_time block"
    by (auto simp: rows_def p transaction_row_of_def)
  have locks: "\<exists>r\<in>set rows. tr_signature r = al_tx_signature l" if l: "l \<in> set (new_locks (slot_row p))" for l
  proof -
    obtain t where "t \<in> set ?ts" "al_tx_signature l = dt_signature t"
      using l by (fastforce simp: new_locks_def slot_row_def p lock_tuples_def lock_row_def)
    then show ?thesis using row by metis
  qed
  have balances: "\<exists>r\<in>set rows. tr_signature r = tb_tx_signature b \<and> tr_block_time r = tb_block_time b \<and> \<not> tr_failed r"
    if b: "b \<in> set (new_balances (slot_row p))" for b
  proof -
    obtain x where x: "x \<in> set (coalesce_token_balance_rows (pb_token_changes p))"
      "b = balance_row (pb_slot p) (pb_block_time p) x"
      using b by (auto simp: new_balances_def slot_row_def)
    from coalesced_keys [OF x(1)] obtain y where y: "y \<in> set (pb_token_changes p)" "tuple_key y = tuple_key x" by blast
    then obtain t where "t \<in> set ?ts" "\<not> dt_failed t" "fst y = dt_signature t"
      by (auto simp: p token_tuples_def)
    moreover have "tb_tx_signature b = fst y" "tb_block_time b = db_block_time block"
      using y(2) by (auto simp: x(2) balance_row_def tuple_key_def p(1) split: prod.splits)
    ultimately show ?thesis using row by metis
  qed
  have "length rows < 2 ^ 31" "length rows = length (pb_transactions p)" using assms(2) by (simp_all add: rows_def p)
  then have "usize_as_i32 (length (pb_transactions p)) = int (length rows)" by (metis usize_as_i32_small)
  moreover have "block_view to_json (slot_row p) =
      (Some \<lparr>bl_slot = u64_as_i64 (pb_slot p), bl_block_time = db_block_time block,
         bl_tx_count = usize_as_i32 (length (pb_transactions p))\<rparr>, rows, new_locks (slot_row p), new_balances (slot_row p))"
    by (simp add: block_view_def new_block_def new_transactions_def slot_row_def rows_def p(1) comp_def)
  ultimately show ?thesis using times locks balances by (simp add: view_linked_def)
qed

lemma parsed_of_block:
  "b \<in> set (blocks_of (map parsed_of outs)) \<Longrightarrow> \<exists>x. Ingested x \<in> set outs \<and> parse_block x = Some b"
proof (induction outs)
  case (Cons y outs)
  show ?case
  proof (cases y)
    case (Ingested x)
    then obtain z where "parse_block x = Some z" "parsed_of y = ParsedIngested z"
      using parse_outcome_Some [of y] by auto
    then show ?thesis using Cons Ingested by auto
  qed (use Cons in \<open>simp_all add: parsed_of_def\<close>)
qed simp

subsection \<open>Every reachable database\<close>

text \<open>
  C23. The tables stay linked through any run: whatever the engine refuses, whatever requests are served
  in between and wherever the run stands or stopped, if the rows of the database referred to each other before the run, they do in every
  state of it.  Each transaction belongs to a stored block and carries its time; each block counts
  exactly the transactions stored for its slot; each lock belongs to a stored transaction of its slot; each balance
  change to a stored transaction of its slot that did not fail.  The blocks have distinct slots of
  64 bits and fewer than \<open>2 ^ 31\<close> transactions each.
\<close>

theorem tables_stay_linked:
  assumes "cn_txn (mx_conn sh) = Idle" and "batch_ok (map slot_row (blocks_of (map parsed_of outs)))"
    and "\<forall>b. Ingested b \<in> set outs \<longrightarrow> length (db_transactions b) < 2 ^ 31" and "db_linked (committed sh)"
    and "(served_step to_json ho args srv)\<^sup>*\<^sup>* (served_init outs sh) s"
  shows "db_linked (committed (sv_shared s))"
  unfolding db_linked_views
proof
  fix slot
  have "untorn to_json (set (blocks_of (map parsed_of outs))) (committed sh) (committed (sv_shared s))"
    using whole_inv_store [OF whole_inv_reachable [OF assms(5,1,2)]] by (simp add: store_inv_def)
  then consider "slot_view slot (committed (sv_shared s)) = slot_view slot (committed sh)"
    | b where "b \<in> set (blocks_of (map parsed_of outs))" "slot_view slot (committed (sv_shared s)) = block_view to_json (slot_row b)"
    unfolding untorn_def by blast
  then show "view_linked (slot_view slot (committed (sv_shared s)))"
  proof cases
    case 1
    then show ?thesis using assms(4) by (simp add: db_linked_views)
  next
    case (2 b)
    from parsed_of_block [OF 2(1)] obtain x where "Ingested x \<in> set outs" "parse_block x = Some b" by blast
    then show ?thesis using parsed_view_linked assms(3) 2(2) by metis
  qed
qed

theorem tables_stay_linked_witness:
  "\<exists>s st stats. (served_step example_json sorted_order sample_args sample_server)\<^sup>*\<^sup>* (served_init sample_fetched fresh_shared) s \<and>
     sv_phase s = Ended (Inr (st, stats)) \<and> db_linked (committed (sv_shared s))"
proof -
  obtain s q x st stats where s: "(served_step example_json sorted_order sample_args sample_server)\<^sup>*\<^sup>* (served_init sample_fetched fresh_shared) s"
    "sv_phase s = Ended (Inr (st, stats))"
    by (rule sample_served)
  have i: "cn_txn (mx_conn fresh_shared) = Idle" using sample_ok(1) by (simp add: quiet_def)
  have b: "batch_ok (map slot_row (blocks_of (map parsed_of sample_fetched)))"
    using sample_ok(2) by (simp add: sample_fetched_parsed)
  have n: "\<forall>b. Ingested b \<in> set sample_fetched \<longrightarrow> length (db_transactions b) < 2 ^ 31"
    by (simp add: sample_fetched_def sample_decoded_def)
  have l: "db_linked (committed fresh_shared)" by (simp add: example_defs empty_db_def db_linked_def)
  from tables_stay_linked [OF i b n l s(1)] show ?thesis using s by blast
qed

end
