(* ===== verification/Spec2Isabelle.thy ===== *)
theory Spec2Isabelle
  imports Contention Account_Resolution Rpc_Client Ohlcv Retry Rate_Limiter Block_Fetch Cli Api Integrity
begin

text \<open>
  A verification library for \<open>tenso\<close>, a Rust program that fetches a range of Solana blocks,
  measures how the transactions of each block contend for accounts, infers token prices and aggregates
  them into candles, stores everything in DuckDB and serves it over HTTP.

  \<^bold>\<open>The program and its theories.\<close>  One ingest runs through these parts in order; paths are under
  \<open>src/crates\<close>.

  \<^item> \<open>Rate_Limiter\<close> (\<open>ingest-core/src/rate_limiter.rs\<close>) and \<open>Retry\<close> (\<open>ingest-core/src/retry.rs\<close>): the
    token bucket that admits a request, and the exponential backoff around it.
  \<^item> \<open>Rpc_Client\<close> (\<open>ingest-core/src/rpc_client.rs\<close>, \<open>types.rs\<close>): the bodies of the two requests, the
    classification of errors, and the conversion of a \<open>getBlock\<close> answer into a \<open>decoded_block\<close>.
    \<open>Account_Resolution\<close> (\<open>account_resolution.rs\<close>) expands the account locks of a message; \<open>Netting\<close> collapses
    balance rows to one net row per key, which \<open>rpc_client.rs\<close> and \<open>repository.rs\<close> each do.
  \<^item> \<open>Block_Fetch\<close> (\<open>ingest-core/src/block_fetch.rs\<close>): \<open>fetch_one\<close> joins limiter, retry and request; the
    pool of requests in flight delivers one \<open>fetch_outcome\<close> per slot of the range.
  \<^item> \<open>Contention\<close> (\<open>contention/src/lib.rs\<close>): \<open>build_schedule\<close> gives each transaction of a block its step.
  \<^item> \<open>Parse_Stage\<close>, \<open>Store_Stage\<close>, \<open>Candle_Stage\<close> and \<open>Pipeline\<close> (all \<open>cli/src/main.rs\<close>): a decoded block
    becomes the rows to store; the store task writes status rows and batches; the candle pass follows;
    fetch, parse and store are three tasks joined by two bounded channels.
  \<^item> \<open>Storage\<close> and \<open>Storage_Queries\<close> (\<open>storage/src/schema.rs\<close>, \<open>lib.rs\<close>, \<open>repository.rs\<close>): schema, statements,
    transactions and queries.
  \<^item> \<open>Ohlcv\<close> (\<open>ohlcv/src/lib.rs\<close>): inferred trades and candles, over the binary64 arithmetic of \<open>F64\<close>, which
    rests on \<open>Rounding\<close>.
  \<^item> \<open>Ingest\<close>, \<open>Reingest\<close> and \<open>Command\<close> (\<open>cli/src/main.rs\<close>): an ingest as a whole on a healthy connection; the same
    ingest again; the three tasks at work on the shared connection.
  \<^item> \<open>Api\<close> (\<open>api/src/lib.rs\<close>, \<open>routes.rs\<close>, \<open>static_files.rs\<close>): the routes, which read the same connection.
  \<^item> \<open>Noninterference\<close>, \<open>Tasks\<close>, \<open>Serve\<close> and \<open>Cli\<close> (\<open>cli/src/main.rs\<close>): what a job can observe of the connection; the
    jobs of the store task one by one; requests that run between the jobs of an ingest (\<open>--serve\<close>); the options and the
    two commands of the binary.  \<open>Integrity\<close>: what holds between the tables in every state of such a run.

  \<open>Prelude\<close> holds what they share: collections of rules, slices, strings, integer parsing, grouping.

  \<^bold>\<open>How state and errors correspond.\<close>  A struct is a \<open>record\<close> and an enum a \<open>datatype\<close> with the fields
  and constructors of the source, prefixed where names clash.  \<open>u8\<close> and \<open>u32\<close> are words; a \<open>u64\<close>, \<open>usize\<close>
  or \<open>i64\<close> is a \<open>nat\<close> or \<open>int\<close> with its casts written out (\<open>u64_as_i64\<close>, \<open>i64_as_u64\<close>, \<open>usize_as_i32\<close>,
  \<open>i128_as_u64\<close>); an \<open>f64\<close> is a value of type \<open>f64\<close>, each operation rounding as IEEE 754 prescribes.  A
  \<open>Result\<close> is a sum with the error at the left.  \<open>None\<close> stands for a panic where the source can panic
  (a slice, an index, an \<open>unwrap\<close>, \<open>Duration::from_secs_f64\<close>, \<open>gen_range\<close> on a range that is empty or not finite).  A
  \<open>HashMap\<close> is a map; where the program iterates over one, the order is an argument of which only \<open>iterates\<close> is
  assumed.  Two runs need not share it (\<open>reingest_converges\<close>).

  The database (\<open>db\<close>) is six tables, lists of rows; the SQL text of \<open>repository.rs\<close> is translated
  statement by statement (\<open>sql_upsert\<close>, \<open>sql_append\<close>, \<open>sql_delete\<close> and one function per query).  A connection
  (\<open>conn\<close>) has the committed and the working database, the state of its transaction, and an oracle \<open>cn_faults\<close>
  that says for each statement whether the engine refuses it for reasons of its own.  The tasks
  share it behind a mutex (\<open>shared\<close>), which a panic poisons.

  \<^bold>\<open>Concurrency.\<close>  \<open>pool_step\<close> lets any request in flight complete next; \<open>pipeline_step\<close>
  interleaves the three tasks freely; \<open>live_step\<close> refines it by the work of the store task, \<open>task_step\<close> splits that
  work into the jobs that hold the mutex, and \<open>served_step\<close> adds the passes that follow and lets a request run between any two
  jobs.  The critical
  sections of the limiter are \<open>acquire_attempt\<close>, in the order in which the mutex admits the clients
  (\<open>run_attempts\<close>).

  \<^bold>\<open>Interfaces.\<close>  Each is a locale interpreted on the model: \<open>order_preserving\<close> (a schedule that is tight above
  conflicts: \<open>sched\<close>), \<open>netting\<close> (\<open>by_mint\<close>, \<open>by_tx_mint\<close>), \<open>rounding\<close> (\<open>rnd\<close>), \<open>upsert_table\<close> (\<open>block_tbl\<close>,
  \<open>status_tbl\<close>, \<open>candle_tbl\<close>), \<open>lock_runner\<close> (\<open>blocking\<close> for \<open>db_blocking\<close>, \<open>reader\<close> for \<open>run_db\<close>),
  \<open>observation\<close> (what the jobs of an ingest cannot tell apart: \<open>exact\<close>, \<open>healthy\<close>) and \<open>bystander\<close>, which adds the
  requests (\<open>alone\<close>, \<open>serving\<close>).

  \<^bold>\<open>What is shown.\<close>

  \<^item> Scheduling: the steps are those of the rule in the documentation of the crate, respect and are minimal for the
    conflicts, the depth is the longest chain, the report is exact.
  \<^item> Decoding: slices are safe, a mint has a delta exactly when its balance changed, only rate limiting is
    retried.
  \<^item> Fetching: one outcome per slot, bounded concurrency, dispatch in order, one to six requests each, and
    what the answers make of the slot; the retry loop ends, and panics only where the generator does; the
    bucket grants at most the burst plus the rate times the time, and a client gets a token after at most two waits.
  \<^item> Prices: which mints trade, bounds of price and volume, candles partition the trades, open and close and
    extremes, independence of the order of trades with distinct times.
  \<^item> Storage: batches are atomic under any fault, their contents in all tables, idempotence; the rows of the tables refer to each
    other in every state of every run (\<open>tables_stay_linked\<close>), though no foreign key says so; queries
    read back what was written.
  \<^item> The store task: no block is ever torn, batching is transparent, the stored steps are those of the schedule.
  \<^item> The pipeline: bounded, in order, without deadlock; and over all interleavings one result only
    (\<open>every_interleaving_one_result\<close>), so that what is proved of the sequential \<open>run_ingest\<close> holds of the command
    (\<open>ingest_main_reports_every_slot\<close> below, \<open>reingest_converges\<close>).
  \<^item> The API: charts show the stored candles, every listed token has one, no request writes, and when it fails.
  \<^item> Serving: no answer shows half a block (\<open>requests_see_whole_blocks\<close>), no request changes how an ingest ends
    (\<open>serving_does_not_disturb\<close>), and \<open>serve\<close> shows what an earlier ingest stored
    (\<open>serve_shows_what_ingest_stored\<close> below).

  \<^bold>\<open>Bounds and fuel.\<close>  No definition takes fuel: \<open>retry_loop\<close>, \<open>prime\<close> and \<open>run_pool\<close> are total with a measure;
  \<open>acquire\<close>, which may wait for ever, is a \<open>partial_function\<close>, and that it returns is proved as such.  The hypotheses that
  recur: \<open>batch_ok\<close> (distinct slots below \<open>2 ^ 64\<close>), \<open>storable\<close> (one batch of the blocks is accepted and
  each signature occurs once), \<open>quiet\<close> (no open transaction, no refusal, mutex not poisoned), \<open>times_ok\<close>
  (bucket arithmetic stays within \<open>i64\<close>), \<open>limiter_ok\<close> (a rate from \<open>2 ^ -10\<close> to \<open>2 ^ 20\<close>, a burst from
  one), \<open>patient\<close> (a timer never wakes early and the clock moves), \<open>gen_range_ok\<close> (the generator keeps within a
  non-empty finite range and does not panic on it), \<open>db_keys_ok\<close> (the primary keys, which the
  engine enforces), \<open>iterates\<close>.

  \<^bold>\<open>What the model revealed.\<close>  Each is a lemma: a failed flush leaves slots marked as ingested without data
  (\<open>ingested_without_data\<close>); a run over an adjacent range overwrites the candle of a shared window
  (\<open>touched_window_forgets_other_ranges\<close>); amounts from \<open>2 ^ 63\<close> make a batch fail
  (\<open>large_amount_refused\<close>); trades of one block have one time, so the open and close of a candle
  depend on the order of a hash map (\<open>same_time_order_matters\<close>); rates below one starve
  (\<open>slow_rate_starves\<close>), a rate of zero panics (\<open>zero_rate_panics\<close>), as does a negative jitter
  (\<open>negative_jitter_panics\<close>), a concurrency of zero fetches nothing
  (\<open>zero_concurrency_fetches_nothing\<close>); an account listed twice conflicts with itself
  (\<open>duplicate_lock_reported\<close>) and a read that waits for a write is not reported
  (\<open>read_after_write_not_reported\<close>); the locks of a transaction are not in the order of the comments
  (\<open>loaded_before_static\<close>); a malformed request counts as a skipped slot
  (\<open>malformed_request_taken_for_skipped_slot\<close>); retries take no token (\<open>retries_bypass_limiter\<close>); the contention
  summary counts locks, not conflicts (\<open>summary_counts_locks_not_conflicts\<close>); and the error of the database
  is masked by that of the parse task (\<open>store_error_masked\<close>).

  \<^bold>\<open>Not modelled.\<close>  Logging, the rates and the memory samples that are only logged; the parsing of the command
  line: input and output around the modelled parts.  Ctrl-C is where a sequence of requests ends.  Code outside the
  repository is a parameter: DuckDB's own failures (the oracle) and its file, \<open>reqwest\<close> and \<open>serde_json\<close>
  (\<open>json_api\<close>, the transport, \<open>to_json\<close>), \<open>rand\<close>, clocks and timers, \<open>axum\<close>'s listener and parsing of queries, the
  embedded files.  A listener that fails after it was bound is not modelled, nor is a process that is killed in the middle of a
  statement.  The \<open>ROLLBACK\<close> after a refused statement, whose result \<open>replace_slots_batch\<close> ignores, is taken to end
  the transaction; a query reads the committed tables, since no job reads while its transaction is
  open.  That an appender refuses a second row of a primary key (\<open>sql_append\<close>) is the engine's part and taken from its
  documentation.  The dashboard, the scripts and the tests are not part of the Rust implementation.
\<close>

section \<open>The program as a whole\<close>

text \<open>
  C4. The ingest command reports every slot: on a file that opens and an engine that refuses nothing, whatever
  mixture of ingested, skipped and failed slots the fetch returns, in whatever order they complete, however the three tasks
  interleave and whatever requests it serves meanwhile, the command succeeds, the counters add up to the size of the range, each slot of the range has exactly
  one status row, that of its outcome, beyond the candles the database is the one a single batch of
  all blocks makes, and the statistics are read from it.
\<close>

theorem ingest_main_reports_every_slot:
  assumes "\<forall>s. outcome_slot (result s) = s" and "cli_start_slot cli + cli_count cli < 2 ^ 64" and "0 < cli_max_concurrency cli"
    and ps: "ps = map parsed_of (fetch_block_range pick result (cli_start_slot cli) (cli_count cli) (cli_max_concurrency cli))"
    and "env_disk env (cli_db_path cli) = Some d0" and "True \<notin> set (env_faults env)"
    and "cli_serve cli \<longrightarrow> env_binds env (cli_port cli)"
    and "storable to_json (blocks_of ps) d0" and "iterates (ho_candles ho)"
    and "staged to_json (blocks_of ps) (map status_row_of ps) d0 = Some d"
    and "\<forall>iv\<in>{60, 300}. times_ok iv (range_trades ho (cli_start_slot cli) (last_slot (cli_start_slot cli) (cli_count cli)) d)"
    and main: "ingest_main to_json ho pick result env cli r os"
  shows "\<exists>st s. r = Inr (st, query_db_stats (committed (sv_shared s))) \<and> os = Some s \<and>
    ingested st + skipped st + failed st = cli_count cli \<and>
    {r \<in> set (ingestion_status (committed (sv_shared s))).
       st_slot r \<in> u64_as_i64 ` {cli_start_slot cli ..< cli_start_slot cli + cli_count cli}} =
      (\<lambda>s. status_row_of (parsed_of (result s))) ` {cli_start_slot cli ..< cli_start_slot cli + cli_count cli} \<and>
    committed (sv_shared s) = d\<lparr>candles := candles (committed (sv_shared s))\<rparr>"
proof -
  obtain c where c: "open_storage (env_disk env (cli_db_path cli)) (env_faults env) = Inr c" "quiet (shared_of c)"
    "cn_committed c = d0"
    by (rule open_storage_quiet [OF assms(6), of d0]) (simp add: assms(5))
  obtain r' s where run: "(served_step to_json ho (cli_ingest_args cli) (server_of env (cli_serve cli)))\<^sup>*\<^sup>*
      (served_init (fetch_block_range pick result (cli_start_slot cli) (cli_count cli) (cli_max_concurrency cli)) (shared_of c)) s"
    "sv_phase s = Ended r'" "r = map_sum RunFailed id r'" "os = Some s"
    using main c(1) assms(7) by (auto simp: ingest_main_simps)
  have d0: "d0 = committed (shared_of c)" by (simp add: c(3) shared_of_def)
  obtain st stats sh' where seq: "run_ingest to_json ho (cli_ingest_args cli) ps (shared_of c) = (Inr (st, stats), sh')"
    "ingested st + skipped st + failed st = cli_count cli"
    "{r \<in> set (ingestion_status (committed sh')). st_slot r \<in> u64_as_i64 ` {cli_start_slot cli ..< cli_start_slot cli + cli_count cli}} =
      (\<lambda>s. status_row_of (parsed_of (result s))) ` {cli_start_slot cli ..< cli_start_slot cli + cli_count cli}"
    "committed sh' = d\<lparr>candles := candles (committed sh')\<rparr>" "stats = query_db_stats (committed sh')"
    using run_ingest_reports_every_slot [OF assms(1-3) ps c(2) assms(8) [unfolded d0] assms(9) assms(10) [unfolded d0] assms(11)]
    unfolding cli_ingest_args_def by blast
  obtain sh where sh: "ingest_command to_json ho (cli_ingest_args cli)
      (fetch_block_range pick result (cli_start_slot cli) (cli_count cli) (cli_max_concurrency cli)) (shared_of c) (r', sh)"
    "committed sh = committed (sv_shared s)"
    by (rule served_result [OF c(2) run(1,2)]) (use alike_shared_committed in blast)
  have "success (r', sh) = (Some (st, stats), sh')" using ingest_command_result [OF sh(1)] seq(1) by (simp add: ps success_def)
  then have "r' = Inr (st, stats)" "committed (sv_shared s) = committed sh'"
    using sh(2) by (auto simp: success_def split: sum.splits)
  then show ?thesis using run(3,4) seq(2-5) by simp
qed

definition sample_cli :: ingest_cli where
  "sample_cli = (cli_defaults ''http://localhost:8899'' 2)\<lparr>cli_count := 3, cli_serve := True\<rparr>"

definition sample_env :: environment where
  "sample_env = \<lparr>env_disk = [''blocks.duckdb'' \<mapsto> empty_db], env_faults = [], env_binds = (\<lambda>port. port = 8080),
     env_assets = sample_assets, env_texts = sample_texts\<rparr>"

lemma sample_cli_simps:
  "cli_start_slot sample_cli = 2" "cli_count sample_cli = 3" "cli_max_concurrency sample_cli = 8"
  "cli_ingest_args sample_cli = sample_args"
  by (simp_all add: sample_cli_def cli_defaults_def cli_ingest_args_def sample_args_def batch_of_def)

theorem ingest_main_reports_every_slot_witness:
  "\<exists>st s. ingest_main example_json sorted_order (\<lambda>_. 0) sample_result sample_env sample_cli
      (Inr (st, query_db_stats (committed (sv_shared s)))) (Some s) \<and>
    ingested st + skipped st + failed st = 3"
proof -
  obtain d where d: "staged example_json (blocks_of sample_outcomes) (map status_row_of sample_outcomes) empty_db = Some d"
    "range_trades sorted_order 2 (last_slot 2 3) d = []"
    by (rule sample_staged) (simp add: example_defs)
  have slot: "\<forall>s. outcome_slot (sample_result s) = s" by (simp add: sample_result_def sample_decoded_def)
  have times: "\<forall>iv\<in>{60, 300}. times_ok iv (range_trades sorted_order 2 (last_slot 2 3) d)"
    by (simp add: d(2) times_ok_def)
  have it: "iterates (ho_candles sorted_order)" by (simp add: sorted_order_def iterates_by_key)
  have sto: "storable example_json (blocks_of sample_outcomes) empty_db"
    using sample_storable by (simp add: example_defs)
  have env: "env_disk sample_env (cli_db_path sample_cli) = Some empty_db" "True \<notin> set (env_faults sample_env)"
    "cli_serve sample_cli \<longrightarrow> env_binds sample_env (cli_port sample_cli)"
    by (simp_all add: sample_env_def sample_cli_def cli_defaults_def)
  obtain r os where main: "ingest_main example_json sorted_order (\<lambda>_. 0) sample_result sample_env sample_cli r os"
    by (rule ingest_main_ends)
  from ingest_main_reports_every_slot [OF slot, of sample_cli, unfolded sample_cli_simps, OF _ _ sample_fetch [symmetric] env sto it d(1) times main]
  show ?thesis using main by auto
qed

text \<open>
  C20. What one process stores the next one shows: on engines that refuse nothing, a \<open>serve\<close> started on the file that an
  ingest has left answers every sequence of requests, and each request as the server of the ingest would have
  answered it in the end, and it leaves the data as they are.
\<close>

theorem serve_shows_what_ingest_stored:
  assumes "True \<notin> set (env_faults env)"
    and "batch_ok (map slot_row (blocks_of (map parsed_of
      (fetch_block_range pick result (cli_start_slot cli) (cli_count cli) (cli_max_concurrency cli)))))"
    and "ingest_main to_json ho pick result env cli (Inr res) (Some s)"
    and "env_disk env' db_path = Some (committed (sv_shared s))" and "True \<notin> set (env_faults env')" and "env_binds env' port"
  shows "\<exists>sh. serve_main env' db_path port qs =
      Inr (map (\<lambda>q. fst (route (env_assets env') (env_texts env') q (sv_shared s))) qs, sh) \<and>
    committed sh = committed (sv_shared s)"
proof -
  obtain c r where run: "open_storage (env_disk env (cli_db_path cli)) (env_faults env) = Inr c"
    "(served_step to_json ho (cli_ingest_args cli) (server_of env (cli_serve cli)))\<^sup>*\<^sup>*
      (served_init (fetch_block_range pick result (cli_start_slot cli) (cli_count cli) (cli_max_concurrency cli)) (shared_of c)) s"
    "sv_phase s = Ended r" "Inr res = map_sum RunFailed id r"
    using assms(3) by (auto simp: ingest_main_simps)
  obtain d where d: "env_disk env (cli_db_path cli) = Some d"
    using run(1) by (auto simp: open_storage_def split: option.splits)
  have "quiet (shared_of c)" using run(1) by (auto simp: d intro: open_storage_quiet [OF assms(1), of d])
  moreover have "sv_phase s = Ended (Inr res)" using run(3,4) by (cases r) simp_all
  ultimately have s: "quiet (sv_shared s)" by (intro served_success_quiet [OF _ assms(2) run(2)])
  obtain c' where c': "open_storage (env_disk env' db_path) (env_faults env') = Inr c'" "quiet (shared_of c')"
    "cn_committed c' = committed (sv_shared s)"
    by (rule open_storage_quiet [OF assms(5), of "committed (sv_shared s)"]) (simp add: assms(4))
  obtain sh where sh: "requests (env_assets env') (env_texts env') qs (shared_of c') =
      (map (\<lambda>q. fst (route (env_assets env') (env_texts env') q (shared_of c'))) qs, sh)" "committed sh = committed (shared_of c')"
    by (rule requests_quiet [OF c'(2)])
  have eq: "committed (shared_of c') = committed (sv_shared s)" by (simp add: shared_of_def c'(3))
  have "fst (route a et q (shared_of c')) = fst (route a et q (sv_shared s))" for a et q by (rule route_same [OF c'(2) s eq])
  then show ?thesis using sh eq c'(1) assms(6) by (simp add: serve_main_def)
qed

lemma sample_main:
  obtains st stats s where
    "ingest_main example_json sorted_order (\<lambda>_. 0) sample_result sample_env sample_cli (Inr (st, stats)) (Some s)"
proof -
  have open_ok: "open_storage (env_disk sample_env (cli_db_path sample_cli)) (env_faults sample_env) = Inr fresh_conn"
    by (simp add: sample_env_def sample_cli_def cli_defaults_def open_storage_def run_migrations_def execute_def
        take_fault_def example_defs)
  have binds: "cli_serve sample_cli \<longrightarrow> env_binds sample_env (cli_port sample_cli)"
    by (simp add: sample_env_def sample_cli_def cli_defaults_def)
  have start: "server_of sample_env (cli_serve sample_cli) = sample_server" "shared_of fresh_conn = fresh_shared"
    by (simp_all add: server_of_def sample_env_def sample_cli_def sample_server_def shared_of_def fresh_shared_def)
  obtain s q x st stats where
    s: "(served_step example_json sorted_order sample_args sample_server)\<^sup>*\<^sup>* (served_init sample_fetched fresh_shared) s"
      "sv_phase s = Ended (Inr (st, stats))"
    by (rule sample_served)
  have "ingest_main example_json sorted_order (\<lambda>_. 0) sample_result sample_env sample_cli (map_sum RunFailed id (Inr (st, stats))) (Some s)"
    by (rule ingest_main.run [OF open_ok binds _ s(2)]) (unfold sample_cli_simps sample_range start, rule s(1))
  then show thesis using that by simp
qed

text \<open>The run of the example before, then \<open>serve\<close> with its defaults.\<close>

theorem serve_shows_what_ingest_stored_witness:
  "\<exists>st stats s sh. ingest_main example_json sorted_order (\<lambda>_. 0) sample_result sample_env sample_cli (Inr (st, stats)) (Some s) \<and>
     serve_main (sample_env\<lparr>env_disk := [''blocks.duckdb'' \<mapsto> committed (sv_shared s)]\<rparr>) ''blocks.duckdb'' 8080 [GetTokens, GetRoot] =
       Inr ([fst (route sample_assets sample_texts GetTokens (sv_shared s)), Response 200 (File ''text/html'' ''<html>'')], sh) \<and>
     committed sh = committed (sv_shared s)"
proof -
  obtain st stats s where main:
    "ingest_main example_json sorted_order (\<lambda>_. 0) sample_result sample_env sample_cli (Inr (st, stats)) (Some s)"
    by (rule sample_main)
  have b: "batch_ok (map slot_row (blocks_of (map parsed_of
      (fetch_block_range (\<lambda>_. 0) sample_result (cli_start_slot sample_cli) (cli_count sample_cli) (cli_max_concurrency sample_cli)))))"
    using sample_ok(2) by (simp only: sample_cli_simps sample_fetch)
  let ?env = "sample_env\<lparr>env_disk := [''blocks.duckdb'' \<mapsto> committed (sv_shared s)]\<rparr>"
  have env: "True \<notin> set (env_faults sample_env)" "env_disk ?env ''blocks.duckdb'' = Some (committed (sv_shared s))"
    "True \<notin> set (env_faults ?env)" "env_binds ?env 8080" by (simp_all add: sample_env_def)
  from serve_shows_what_ingest_stored [OF env(1) b main env(2-4), of "[GetTokens, GetRoot]"] obtain sh where
    "serve_main ?env ''blocks.duckdb'' 8080 [GetTokens, GetRoot] =
      Inr ([fst (route sample_assets sample_texts GetTokens (sv_shared s)), serve_index sample_assets], sh)"
    "committed sh = committed (sv_shared s)" by (auto simp: sample_env_def)
  then show ?thesis using main by (auto simp: serve_index_def serve_embedded_def sample_assets_def)
qed

end
